(* ===== verification/Theo_Prelude.thy ===== *)
theory Theo_Prelude
  imports "HOL-Library.Word"
begin

unbundle bit_operations_syntax

text \<open>
  Shared vocabulary of the development.

  The C code of \<^verbatim>\<open>src/src/theo\<close> works on fixed-width integers, on structs overlaid on a
  byte slab, and on assertions (\<^verbatim>\<open>ALWAYS\<close> of \<^verbatim>\<open>msys.h\<close>) that stay enabled in the debug and
  release builds.  This theory fixes how those three things are represented:

  \<^item> machine integers are words of their C width;
  \<^item> a failing assertion, or an access outside the object a pointer points into, is a value
    \<open>Inl e\<close> of the result type, so that \<^emph>\<open>never aborts\<close> and \<^emph>\<open>stays in bounds\<close> are theorems
    about the model and not conventions;
  \<^item> memory is a function from byte offsets to bytes, with \<open>mem_read\<close>, \<open>mem_write\<close> for
    \<^verbatim>\<open>memcpy\<close>, \<^verbatim>\<open>memset\<close> and struct access; the locale \<open>struct_layout\<close> states what a
    struct encoding promises and proves the read-over-write laws once.
\<close>

section \<open>Machine integers\<close>

type_synonym u1 = "1 word"
type_synonym u4 = "4 word"
type_synonym u8 = "8 word"
type_synonym u12 = "12 word"
type_synonym u15 = "15 word"
type_synonym u16 = "16 word"
type_synonym u31 = "31 word"
type_synonym u32 = "32 word"
type_synonym u64 = "64 word"

named_theorems word_nat \<open>reading word expressions as natural numbers\<close>

lemma unat_ucast_word [word_nat]:
  "unat (ucast (x :: 'a::len word) :: 'b::len word) = unat x mod 2 ^ LENGTH('b)"
  by (simp add: unsigned_ucast_eq take_bit_eq_mod)

lemma unat_of_nat_word [word_nat]:
  "unat (of_nat n :: 'a::len word) = n mod 2 ^ LENGTH('a)"
  by (rule unat_of_nat)

lemma unat_lt [simp]: "unat (x :: 'a::len word) < 2 ^ LENGTH('a)"
  by (rule unsigned_less)

lemma unat_bound_u15: "unat (x :: u15) < 32768"
  using unat_lt [of x] by simp

lemma unat_bound_u16: "unat (x :: u16) < 65536"
  using unat_lt [of x] by simp

lemma unat_bound_u31: "unat (x :: u31) < 2147483648"
  using unat_lt [of x] by simp

lemma unat_bound_u32: "unat (x :: u32) < 4294967296"
  using unat_lt [of x] by simp

lemma unat_add_small [word_nat]:
  "unat a + unat b < 2 ^ LENGTH('a) \<Longrightarrow> unat (a + b :: 'a::len word) = unat a + unat b"
  by (simp add: unat_word_ariths)

lemma unat_sub_small [word_nat]:
  "unat b \<le> unat a \<Longrightarrow> unat (a - b :: 'a::len word) = unat a - unat b"
  by (simp add: unat_sub_if')

lemma unat_mult_small [word_nat]:
  "unat a * unat b < 2 ^ LENGTH('a) \<Longrightarrow> unat (a * b :: 'a::len word) = unat a * unat b"
  by (simp add: unat_word_ariths)

lemma u1_cases: "(x :: u1) = 0 \<or> x = 1"
proof -
  have "unat x < 2" using unat_lt [of x] by simp
  then have "unat x = 0 \<or> unat x = unat (1 :: u1)" by auto
  then show ?thesis
    unfolding unat_eq_zero word_unat_eq_iff [of x 1] .
qed

lemma u1_neq_1 [simp]: "(x :: u1) \<noteq> 1 \<longleftrightarrow> x = 0"
  using u1_cases [of x] by (metis zero_neq_one)

text \<open>A signed 32-bit counter whose value is small reads the same signed and unsigned.\<close>

lemma sint_small:
  assumes "unat (x :: u32) < 2147483648"
  shows "sint x = int (unat x)"
proof -
  have u: "uint x < 2147483648"
    using assms by (metis of_nat_less_iff of_nat_numeral of_nat_unat)
  have "sint x = signed_take_bit 31 (uint x)" by (simp add: sint_uint)
  also have "\<dots> = uint x"
    by (rule signed_take_bit_int_eq_self) (use u in \<open>simp_all add: order_trans [of _ 0]\<close>)
  finally show ?thesis by (simp only: uint_nat)
qed

lemma sint_pos_iff:
  assumes "unat (x :: u32) < 2147483648"
  shows "0 < sint x \<longleftrightarrow> 0 < unat x"
  unfolding sint_small [OF assms] by (simp only: of_nat_0_less_iff)

section \<open>Results: assertions and bounds\<close>

text \<open>
  \<open>AssertFailed\<close> is \<^verbatim>\<open>abort()\<close> out of \<^verbatim>\<open>ALWAYS\<close>/\<^verbatim>\<open>NEVER\<close> (\<^verbatim>\<open>msys.h\<close>, lines 25--31);
  \<open>OutOfBounds\<close> is an access outside the array or slab region a pointer belongs to;
  \<open>Deadlock\<close> is a lock that is taken again by its holder, or used before it is initialised;
  \<open>DivisionByZero\<close> is the trap of a division or remainder by zero.
\<close>

datatype error = AssertFailed | OutOfBounds | Deadlock | DivisionByZero

type_synonym 'a result = "error + 'a"

definition rbind :: "'a result \<Rightarrow> ('a \<Rightarrow> 'b result) \<Rightarrow> 'b result" where
  "rbind r f = (case r of Inl e \<Rightarrow> Inl e | Inr x \<Rightarrow> f x)"

lemma rbind_simps [simp]: "rbind (Inr x) f = f x" "rbind (Inl e) f = Inl e"
  by (simp_all add: rbind_def)

lemma rbind_eq_Inr: "rbind r f = Inr y \<longleftrightarrow> (\<exists>x. r = Inr x \<and> f x = Inr y)"
  by (cases r) simp_all

text \<open>\<^verbatim>\<open>ALWAYS(X)\<close>: continue when the condition holds, abort otherwise.\<close>

definition ALWAYS :: "bool \<Rightarrow> 'a result \<Rightarrow> 'a result" where
  "ALWAYS b k = (if b then k else Inl AssertFailed)"

lemma ALWAYS_simps [simp]: "ALWAYS True k = k" "ALWAYS False k = Inl AssertFailed"
  by (simp_all add: ALWAYS_def)

text \<open>Moving a continuation inwards.\<close>

lemma rbind_assoc: "rbind (rbind r f) g = rbind r (\<lambda>x. rbind (f x) g)"
  by (cases r) simp_all

lemma rbind_ALWAYS: "rbind (ALWAYS b k) f = ALWAYS b (rbind k f)"
  by (simp add: ALWAYS_def)

lemma ALWAYS_eq_Inr: "ALWAYS b k = Inr y \<longleftrightarrow> b \<and> k = Inr y"
  by (simp add: ALWAYS_def)

section \<open>Byte memory\<close>

type_synonym mem = "nat \<Rightarrow> u8"

definition mem_read :: "mem \<Rightarrow> nat \<Rightarrow> nat \<Rightarrow> u8 list" where
  "mem_read m a n = map m [a..<a + n]"

definition mem_write :: "mem \<Rightarrow> nat \<Rightarrow> u8 list \<Rightarrow> mem" where
  "mem_write m a bs = (\<lambda>i. if a \<le> i \<and> i < a + length bs then bs ! (i - a) else m i)"

text \<open>Two memories agree on the bytes from \<open>a\<close> up to, not including, \<open>b\<close>.\<close>

definition mem_eq_on :: "nat \<Rightarrow> nat \<Rightarrow> mem \<Rightarrow> mem \<Rightarrow> bool" where
  "mem_eq_on a b m m' \<longleftrightarrow> (\<forall>i. a \<le> i \<and> i < b \<longrightarrow> m i = m' i)"

named_theorems mem_frame \<open>reads that a write elsewhere leaves alone\<close>

lemma length_mem_read [simp]: "length (mem_read m a n) = n"
  by (simp add: mem_read_def)

lemma mem_read_write_same [simp]: "n = length bs \<Longrightarrow> mem_read (mem_write m a bs) a n = bs"
  by (rule nth_equalityI) (auto simp: mem_read_def mem_write_def)

lemma mem_read_write_other [mem_frame]:
  "b + n \<le> a \<or> a + length bs \<le> b \<Longrightarrow> mem_read (mem_write m a bs) b n = mem_read m b n"
  by (rule nth_equalityI) (auto simp: mem_read_def mem_write_def)

lemma mem_read_eq_on:
  "mem_eq_on a b m m' \<Longrightarrow> a \<le> x \<Longrightarrow> x + n \<le> b \<Longrightarrow> mem_read m x n = mem_read m' x n"
  by (simp add: mem_read_def mem_eq_on_def)

lemma mem_eq_on_refl [simp]: "mem_eq_on a b m m"
  by (simp add: mem_eq_on_def)

lemma mem_eq_on_sym: "mem_eq_on a b m m' \<Longrightarrow> mem_eq_on a b m' m"
  by (simp add: mem_eq_on_def)

lemma mem_eq_on_trans: "mem_eq_on a b m m' \<Longrightarrow> mem_eq_on a b m' m'' \<Longrightarrow> mem_eq_on a b m m''"
  by (simp add: mem_eq_on_def)

lemma mem_eq_on_sub: "mem_eq_on a b m m' \<Longrightarrow> a \<le> a' \<Longrightarrow> b' \<le> b \<Longrightarrow> mem_eq_on a' b' m m'"
  by (simp add: mem_eq_on_def)

lemma mem_eq_on_write:
  "b \<le> x \<or> x + length bs \<le> a \<Longrightarrow> mem_eq_on a b m (mem_write m x bs)"
  by (auto simp: mem_eq_on_def mem_write_def)

lemma mem_eq_on_write_trans:
  "mem_eq_on a b m m' \<Longrightarrow> b \<le> x \<or> x + length bs \<le> a \<Longrightarrow> mem_eq_on a b m (mem_write m' x bs)"
  by (auto simp: mem_eq_on_def mem_write_def)

section \<open>Structs in memory\<close>

text \<open>
  A struct is laid out as \<open>sz\<close> bytes.  \<open>enc\<close> writes the fields, \<open>dec\<close> reads them back; the
  provider promises the length and the round trip for every well-formed value.  What a client
  does with such a struct, storing it at an address and loading it there or elsewhere, is
  proved here once and used through the interpretations for \<^verbatim>\<open>struct cell_body_entry\<close> and
  \<^verbatim>\<open>struct cell_dir_entry\<close>.
\<close>

definition load_as :: "(u8 list \<Rightarrow> 'a) \<Rightarrow> nat \<Rightarrow> mem \<Rightarrow> nat \<Rightarrow> 'a" where
  "load_as dec sz m a = dec (mem_read m a sz)"

definition store_as :: "('a \<Rightarrow> u8 list) \<Rightarrow> mem \<Rightarrow> nat \<Rightarrow> 'a \<Rightarrow> mem" where
  "store_as enc m a x = mem_write m a (enc x)"

locale struct_layout =
  fixes enc :: "'a \<Rightarrow> u8 list"
    and dec :: "u8 list \<Rightarrow> 'a"
    and sz :: nat
    and wf :: "'a \<Rightarrow> bool"
  assumes enc_length: "wf x \<Longrightarrow> length (enc x) = sz"
    and dec_enc: "wf x \<Longrightarrow> dec (enc x) = x"
    and dec_wf: "length bs = sz \<Longrightarrow> wf (dec bs)"
begin

lemma load_wf: "wf (load_as dec sz m a)"
  by (simp add: load_as_def dec_wf)

lemma load_store_same: "wf x \<Longrightarrow> load_as dec sz (store_as enc m a x) a = x"
  by (simp add: load_as_def store_as_def enc_length dec_enc)

lemma load_store_other:
  "wf x \<Longrightarrow> b + sz \<le> a \<or> a + sz \<le> b \<Longrightarrow> load_as dec sz (store_as enc m a x) b = load_as dec sz m b"
  by (simp add: load_as_def store_as_def mem_read_write_other enc_length)

lemma load_eq_on:
  "mem_eq_on a b m m' \<Longrightarrow> a \<le> x \<Longrightarrow> x + sz \<le> b \<Longrightarrow> load_as dec sz m x = load_as dec sz m' x"
  unfolding load_as_def by (metis mem_read_eq_on)

lemma load_write_other:
  "b + sz \<le> a \<or> a + length bs \<le> b \<Longrightarrow> load_as dec sz (mem_write m a bs) b = load_as dec sz m b"
  by (simp add: load_as_def mem_read_write_other)

lemma read_store_other:
  "wf x \<Longrightarrow> b + n \<le> a \<or> a + sz \<le> b \<Longrightarrow> mem_read (store_as enc m a x) b n = mem_read m b n"
  by (simp add: store_as_def mem_read_write_other enc_length)

lemma store_eq_on:
  "wf x \<Longrightarrow> b \<le> a \<or> a + sz \<le> c \<Longrightarrow> mem_eq_on c b m (store_as enc m a x)"
  by (simp add: store_as_def mem_eq_on_write enc_length)

end

text \<open>Little-endian 32-bit storage units, the layout of the bit-field words on x86-64.\<close>

definition le32 :: "u32 \<Rightarrow> u8 list" where
  "le32 w = [ucast w, ucast (drop_bit 8 w), ucast (drop_bit 16 w), ucast (drop_bit 24 w)]"

definition of_le32 :: "u8 list \<Rightarrow> u32" where
  "of_le32 bs = ucast (bs ! 0) OR push_bit 8 (ucast (bs ! 1)) OR
     push_bit 16 (ucast (bs ! 2)) OR push_bit 24 (ucast (bs ! 3))"

lemma length_le32 [simp]: "length (le32 w) = 4"
  by (simp add: le32_def)

lemma of_le32_le32 [simp]: "of_le32 (le32 w) = w"
proof (rule bit_word_eqI)
  fix n assume "n < LENGTH(32)"
  then have "n < 32" by simp
  then consider "n < 8" | "8 \<le> n" "n < 16" | "16 \<le> n" "n < 24" | "24 \<le> n" "n < 32"
    by linarith
  then show "bit (of_le32 (le32 w)) n = bit w n"
    by cases (auto simp: of_le32_def le32_def bit_simps)
qed

section \<open>Lists\<close>

lemma find_distinct:
  "distinct (map f xs) \<Longrightarrow> x \<in> set xs \<Longrightarrow> find (\<lambda>e. f e = f x) xs = Some x"
  by (induction xs) (auto simp: image_iff)

lemma find_image_None: "find (\<lambda>e. f e = c) xs = None \<longleftrightarrow> c \<notin> f ` set xs"
  by (auto simp: find_None_iff)

lemma find_SomeD: "find P xs = Some x \<Longrightarrow> x \<in> set xs \<and> P x"
  by (auto simp: find_Some_iff)

lemma find_append: "find P (xs @ ys) = (case find P xs of None \<Rightarrow> find P ys | Some x \<Rightarrow> Some x)"
  by (induction xs) auto

lemma find_key_cong:
  assumes dist: "distinct (map f xs)" "distinct (map f ys)"
    and same: "\<And>x. f x = c \<Longrightarrow> x \<in> set xs \<longleftrightarrow> x \<in> set ys"
  shows "find (\<lambda>e. f e = c) xs = find (\<lambda>e. f e = c) ys"
proof (cases "c \<in> f ` set xs")
  case True
  then obtain x where x: "x \<in> set xs" "f x = c" by auto
  with same have "x \<in> set ys" by auto
  with x dist find_distinct [of f xs x] find_distinct [of f ys x] show ?thesis by simp
next
  case False
  with same have "c \<notin> f ` set ys" by auto
  with False show ?thesis by (simp only: flip: find_image_None)
qed

lemma distinct_map_insert:
  "distinct (map f (xs @ ys)) \<Longrightarrow> f e \<notin> f ` set (xs @ ys) \<Longrightarrow> distinct (map f (xs @ e # ys))"
  by auto

lemma distinct_map_delete: "distinct (map f (xs @ e # ys)) \<Longrightarrow> distinct (map f (xs @ ys))"
  by auto

lemma map_of_remove_middle:
  assumes "distinct (map fst (xs @ (k, v) # ys))"
  shows "map_of (xs @ ys) = (map_of (xs @ (k, v) # ys))(k := None)"
proof
  fix j
  have "map_of xs k = None" "map_of ys k = None"
    using assms by (auto simp: map_of_eq_None_iff)
  then show "map_of (xs @ ys) j = ((map_of (xs @ (k, v) # ys))(k := None)) j"
    by (auto simp: map_add_def split: option.split)
qed

lemma map_of_insert_middle:
  assumes "k \<notin> set (map fst (xs @ ys))"
  shows "map_of (xs @ (k, v) # ys) = (map_of (xs @ ys))(k \<mapsto> v)"
proof
  fix j
  have "map_of xs k = None" "map_of ys k = None"
    using assms by (auto simp: map_of_eq_None_iff)
  then show "map_of (xs @ (k, v) # ys) j = ((map_of (xs @ ys))(k \<mapsto> v)) j"
    by (auto simp: map_add_def split: option.split)
qed

end
