(* ===== verification/Checksum.thy ===== *)
theory Checksum
  imports Theo_Prelude
begin

text \<open>
  \<^verbatim>\<open>checksum.h\<close>, \<^verbatim>\<open>checksum.c\<close>: the 32-byte chunk identifier.  The digest itself is computed by
  the multi-hash SHA-256 of the vendored ISA-L library; it is the parameter \<open>mh_sha256\<close> of
  \<open>checksum_gen\<close>, as nothing but the length of its result matters to the rest of the program.  \<^verbatim>\<open>Mh_Sha256_Correct\<close> writes
  \<open>checksum_gen\<close> with the calls to the library and shows which function this is.
\<close>

definition CHECKSUM_SIZE :: nat where
  "CHECKSUM_SIZE = 32"

record checksum =
  bytes :: "u8 list"

text \<open>The C type fixes the length of the array.\<close>

definition wf_checksum :: "checksum \<Rightarrow> bool" where
  "wf_checksum c \<longleftrightarrow> length (bytes c) = CHECKSUM_SIZE"

definition checksum_init :: checksum where
  "checksum_init = \<lparr>bytes = replicate CHECKSUM_SIZE 0\<rparr>"

text \<open>
  \<^verbatim>\<open>memcmp\<close> of the C library: zero on equal bytes, otherwise the sign given by the first
  differing byte, compared unsigned.  The callers only test for zero.
\<close>

fun memcmp :: "u8 list \<Rightarrow> u8 list \<Rightarrow> int" where
  "memcmp (x # xs) (y # ys) = (if x = y then memcmp xs ys else if x < y then -1 else 1)"
| "memcmp _ _ = 0"

definition checksum_compare :: "checksum \<Rightarrow> checksum \<Rightarrow> int" where
  "checksum_compare first second = memcmp (bytes first) (bytes second)"

definition checksum_gen :: "(u8 list \<Rightarrow> u8 list) \<Rightarrow> u8 list \<Rightarrow> u32 \<Rightarrow> checksum" where
  "checksum_gen mh_sha256 buffer buffer_length =
     \<lparr>bytes = mh_sha256 (take (unat buffer_length) buffer)\<rparr>"

section \<open>Comparison decides equality\<close>

lemma memcmp_eq_0: "length xs = length ys \<Longrightarrow> memcmp xs ys = 0 \<longleftrightarrow> xs = ys"
  by (induction xs ys rule: list_induct2) simp_all

lemma checksum_compare_eq_0 [simp]:
  assumes "wf_checksum a" "wf_checksum b"
  shows "checksum_compare a b = 0 \<longleftrightarrow> a = b"
  using assms memcmp_eq_0 [of "bytes a" "bytes b"]
  by (auto simp: checksum_compare_def wf_checksum_def)

lemma memcmp_antisym: "memcmp ys xs = - memcmp xs ys"
  by (induction xs ys rule: memcmp.induct) auto

lemma wf_checksum_init [simp]: "wf_checksum checksum_init"
  by (simp add: wf_checksum_def checksum_init_def)

end
