(* ===== verification/Cell_Dir_Entry.thy ===== *)
theory Cell_Dir_Entry
  imports Checksum
begin

text \<open>
  \<^verbatim>\<open>cell_dir_entry.h\<close>, \<^verbatim>\<open>cell_dir_entry.c\<close>: the reference from a checksum to the offset of its
  chunk in the cell body.  Entries live both inside the directory blocks of the cell header and,
  as 36 raw bytes, in the overflow area below the header; \<open>enc_dir_entry\<close> and \<open>dec_dir_entry\<close>
  are that byte layout.
\<close>

record cell_dir_entry =
  de_checksum :: checksum
  de_offset :: u31
  de_set :: u1

definition sizeof_cell_dir_entry :: nat where
  "sizeof_cell_dir_entry = 36"

definition cell_dir_entry_init :: cell_dir_entry where
  "cell_dir_entry_init = \<lparr>de_checksum = checksum_init, de_offset = 0, de_set = 0\<rparr>"

definition cell_dir_entry_copy :: "cell_dir_entry \<Rightarrow> cell_dir_entry \<Rightarrow> cell_dir_entry" where
  "cell_dir_entry_copy to from = from"

definition cell_dir_entry_set :: "cell_dir_entry \<Rightarrow> checksum \<Rightarrow> u32 \<Rightarrow> cell_dir_entry" where
  "cell_dir_entry_set entry checksum offset =
     entry\<lparr>de_checksum := checksum, de_set := 1, de_offset := ucast offset\<rparr>"

section \<open>The byte layout\<close>

definition dir_entry_word :: "cell_dir_entry \<Rightarrow> u32" where
  "dir_entry_word e = ucast (de_offset e) OR push_bit 31 (ucast (de_set e))"

definition enc_dir_entry :: "cell_dir_entry \<Rightarrow> u8 list" where
  "enc_dir_entry e = bytes (de_checksum e) @ le32 (dir_entry_word e)"

definition dec_dir_entry :: "u8 list \<Rightarrow> cell_dir_entry" where
  "dec_dir_entry bs =
     (let w = of_le32 (drop 32 bs)
      in \<lparr>de_checksum = \<lparr>bytes = take 32 bs\<rparr>, de_offset = ucast w, de_set = ucast (drop_bit 31 w)\<rparr>)"

definition wf_dir_entry :: "cell_dir_entry \<Rightarrow> bool" where
  "wf_dir_entry e \<longleftrightarrow> wf_checksum (de_checksum e)"

abbreviation load_dir_entry :: "mem \<Rightarrow> nat \<Rightarrow> cell_dir_entry" where
  "load_dir_entry \<equiv> load_as dec_dir_entry sizeof_cell_dir_entry"

abbreviation store_dir_entry :: "mem \<Rightarrow> nat \<Rightarrow> cell_dir_entry \<Rightarrow> mem" where
  "store_dir_entry \<equiv> store_as enc_dir_entry"

lemma bit_dir_entry_word:
  "bit (dir_entry_word e) n \<longleftrightarrow> n < 31 \<and> bit (de_offset e) n \<or> n = 31 \<and> bit (de_set e) 0"
  unfolding dir_entry_word_def bit_or_iff bit_push_bit_iff bit_ucast_iff
  by (auto dest: bit_imp_le_length)

lemma dir_entry_word_offset: "ucast (dir_entry_word e) = de_offset e"
  by (rule bit_word_eqI) (simp add: bit_ucast_iff bit_dir_entry_word)

lemma dir_entry_word_set: "ucast (drop_bit 31 (dir_entry_word e)) = de_set e"
  by (rule bit_word_eqI) (simp add: bit_ucast_iff bit_drop_bit_eq bit_dir_entry_word)

interpretation dir_entry: struct_layout enc_dir_entry dec_dir_entry sizeof_cell_dir_entry wf_dir_entry
proof
  fix e assume "wf_dir_entry e"
  then have len: "length (bytes (de_checksum e)) = 32"
    by (simp add: wf_dir_entry_def wf_checksum_def CHECKSUM_SIZE_def)
  then show "length (enc_dir_entry e) = sizeof_cell_dir_entry"
    by (simp add: enc_dir_entry_def sizeof_cell_dir_entry_def)
  from len show "dec_dir_entry (enc_dir_entry e) = e"
    by (simp add: dec_dir_entry_def enc_dir_entry_def dir_entry_word_offset dir_entry_word_set)
next
  fix bs :: "u8 list" assume "length bs = sizeof_cell_dir_entry"
  then show "wf_dir_entry (dec_dir_entry bs)"
    by (simp add: wf_dir_entry_def dec_dir_entry_def wf_checksum_def CHECKSUM_SIZE_def
        sizeof_cell_dir_entry_def Let_def)
qed

lemma wf_checksum_load_dir [simp]: "wf_checksum (de_checksum (load_dir_entry m a))"
  using dir_entry.load_wf [of m a] by (simp add: wf_dir_entry_def)

lemma cell_dir_entry_set_simps [simp]:
  "de_checksum (cell_dir_entry_set e c off) = c"
  "de_set (cell_dir_entry_set e c off) = 1"
  "de_offset (cell_dir_entry_set e c off) = ucast off"
  by (simp_all add: cell_dir_entry_set_def)

lemma cell_dir_entry_init_simps [simp]:
  "de_checksum cell_dir_entry_init = checksum_init" "de_set cell_dir_entry_init = 0"
  by (simp_all add: cell_dir_entry_init_def)

text \<open>
  A directory entry written to memory is read back field by field, and no other byte changes; the
  31-bit offset and the set flag share a word without disturbing each other.
\<close>

theorem dir_entry_memory_roundtrip:
  assumes "wf_dir_entry e"
  shows "load_dir_entry (store_dir_entry m a e) a = e \<and>
     (\<forall>b. b < a \<or> a + sizeof_cell_dir_entry \<le> b \<longrightarrow> store_dir_entry m a e b = m b)"
proof (intro conjI allI impI)
  show "load_dir_entry (store_dir_entry m a e) a = e" by (rule dir_entry.load_store_same [OF assms])
next
  fix b assume "b < a \<or> a + sizeof_cell_dir_entry \<le> b"
  then have "mem_eq_on b (Suc b) m (store_dir_entry m a e)"
    by (intro dir_entry.store_eq_on [OF assms]) auto
  then show "store_dir_entry m a e b = m b" by (simp add: mem_eq_on_def)
qed

theorem dir_entry_memory_roundtrip_witness:
  "load_dir_entry (store_dir_entry (\<lambda>_. 0) 100 (cell_dir_entry_set cell_dir_entry_init checksum_init 77)) 100 =
     cell_dir_entry_set cell_dir_entry_init checksum_init 77"
proof -
  have "wf_dir_entry (cell_dir_entry_set cell_dir_entry_init checksum_init 77)" by (simp add: wf_dir_entry_def)
  from dir_entry_memory_roundtrip [OF this, of "\<lambda>_. 0" 100] show ?thesis by blast
qed

end
