(* ===== verification/Cell_Dir_Block.thy ===== *)
theory Cell_Dir_Block
  imports Cell_Dir_Entry
begin

text \<open>
  \<^verbatim>\<open>cell_dir_block.h\<close>, \<^verbatim>\<open>cell_dir_block.c\<close>: one of the 256 hash buckets of a cell directory, with
  three slots, a count of the slots in use and a count of the entries of this bucket that had to
  go to the overflow area.  A pointer to a slot is the slot's index.
\<close>

definition CELL_DIR_BLOCK_ENTRIES :: nat where
  "CELL_DIR_BLOCK_ENTRIES = 3"

record cell_dir_block =
  blk_entries :: "cell_dir_entry list"
  blk_entry_count :: u4
  blk_overflow_count :: u12

definition cell_dir_block_init :: cell_dir_block where
  "cell_dir_block_init =
     \<lparr>blk_entries = replicate CELL_DIR_BLOCK_ENTRIES cell_dir_entry_init,
      blk_entry_count = 0, blk_overflow_count = 0\<rparr>"

function cell_dir_block_add_from ::
    "nat \<Rightarrow> cell_dir_block \<Rightarrow> cell_dir_entry \<Rightarrow> bool \<times> cell_dir_block" where
  "cell_dir_block_add_from i block entry =
     (if i < CELL_DIR_BLOCK_ENTRIES
      then if de_set (blk_entries block ! i) = 0
           then (True, block\<lparr>blk_entries := (blk_entries block)
                                  [i := cell_dir_entry_copy (blk_entries block ! i) entry],
                             blk_entry_count := blk_entry_count block + 1\<rparr>)
           else cell_dir_block_add_from (Suc i) block entry
      else (False, block))"
  by pat_completeness auto
termination
  by (relation "measure (\<lambda>(i, block, entry). CELL_DIR_BLOCK_ENTRIES - i)") auto

definition cell_dir_block_add :: "cell_dir_block \<Rightarrow> cell_dir_entry \<Rightarrow> bool \<times> cell_dir_block" where
  "cell_dir_block_add block entry = cell_dir_block_add_from 0 block entry"

function cell_dir_block_find_from :: "nat \<Rightarrow> cell_dir_block \<Rightarrow> checksum \<Rightarrow> nat option" where
  "cell_dir_block_find_from i block checksum =
     (if i < CELL_DIR_BLOCK_ENTRIES
      then if de_set (blk_entries block ! i) = 0
           then cell_dir_block_find_from (Suc i) block checksum
           else if checksum_compare checksum (de_checksum (blk_entries block ! i)) = 0
           then Some i
           else cell_dir_block_find_from (Suc i) block checksum
      else None)"
  by pat_completeness auto
termination
  by (relation "measure (\<lambda>(i, block, checksum). CELL_DIR_BLOCK_ENTRIES - i)") auto

definition cell_dir_block_find :: "cell_dir_block \<Rightarrow> checksum \<Rightarrow> nat option" where
  "cell_dir_block_find block checksum =
     (if blk_entry_count block = 0 then None else cell_dir_block_find_from 0 block checksum)"

definition cell_dir_block_remove :: "cell_dir_block \<Rightarrow> checksum \<Rightarrow> bool \<times> cell_dir_block" where
  "cell_dir_block_remove block checksum =
     (case cell_dir_block_find block checksum of
        None \<Rightarrow> (False, block)
      | Some i \<Rightarrow> (True, block\<lparr>blk_entries := (blk_entries block)[i := cell_dir_entry_init],
                               blk_entry_count := blk_entry_count block - 1\<rparr>))"

definition cell_dir_block_full :: "cell_dir_block \<Rightarrow> bool" where
  "cell_dir_block_full block \<longleftrightarrow> unat (blk_entry_count block) = CELL_DIR_BLOCK_ENTRIES"

definition cell_dir_block_get_chunk ::
    "cell_dir_block \<Rightarrow> checksum \<Rightarrow> cell_dir_entry \<Rightarrow> bool \<times> cell_dir_entry" where
  "cell_dir_block_get_chunk block checksum entry =
     (case cell_dir_block_find block checksum of
        None \<Rightarrow> (False, entry)
      | Some i \<Rightarrow> (True, cell_dir_entry_copy entry (blk_entries block ! i)))"

definition cell_dir_block_overflowed :: "cell_dir_block \<Rightarrow> bool" where
  "cell_dir_block_overflowed block \<longleftrightarrow> blk_overflow_count block > 0"

definition cell_dir_block_increment_overflow :: "cell_dir_block \<Rightarrow> u32 \<times> cell_dir_block" where
  "cell_dir_block_increment_overflow block =
     (let block' = block\<lparr>blk_overflow_count := blk_overflow_count block + 1\<rparr>
      in (ucast (blk_overflow_count block'), block'))"

definition cell_dir_block_decrement_overflow ::
    "cell_dir_block \<Rightarrow> (u32 \<times> cell_dir_block) result" where
  "cell_dir_block_decrement_overflow block =
     ALWAYS (blk_overflow_count block > 0)
       (let block' = block\<lparr>blk_overflow_count := blk_overflow_count block - 1\<rparr>
        in Inr (ucast (blk_overflow_count block'), block'))"

section \<open>Well-formed blocks and what they store\<close>

abbreviation entry_is_set :: "cell_dir_entry \<Rightarrow> bool" where
  "entry_is_set e \<equiv> de_set e = 1"

definition blk_used :: "cell_dir_block \<Rightarrow> cell_dir_entry list" where
  "blk_used block = filter entry_is_set (blk_entries block)"

definition block_inv :: "cell_dir_block \<Rightarrow> bool" where
  "block_inv block \<longleftrightarrow>
     length (blk_entries block) = CELL_DIR_BLOCK_ENTRIES \<and>
     (\<forall>e \<in> set (blk_entries block). wf_dir_entry e) \<and>
     unat (blk_entry_count block) = length (blk_used block) \<and>
     distinct (map de_checksum (blk_used block))"

abbreviation dir_pair :: "cell_dir_entry \<Rightarrow> checksum \<times> u31" where
  "dir_pair e \<equiv> (de_checksum e, de_offset e)"

definition blk_map :: "cell_dir_block \<Rightarrow> checksum \<Rightarrow> u31 option" where
  "blk_map block = map_of (map dir_pair (blk_used block))"

declare cell_dir_block_add_from.simps [simp del] cell_dir_block_find_from.simps [simp del]

lemma block_inv_three:
  assumes "block_inv block"
  obtains a b c where "blk_entries block = [a, b, c]"
    "wf_checksum (de_checksum a)" "wf_checksum (de_checksum b)" "wf_checksum (de_checksum c)"
proof -
  from assms have "length (blk_entries block) = Suc (Suc (Suc 0))"
    by (simp add: block_inv_def CELL_DIR_BLOCK_ENTRIES_def)
  then obtain a b c where "blk_entries block = [a, b, c]"
    by (auto simp: length_Suc_conv)
  with assms show ?thesis
    by (intro that) (auto simp: block_inv_def wf_dir_entry_def)
qed

lemma blk_used_le_3: "block_inv block \<Longrightarrow> length (blk_used block) \<le> 3"
  unfolding block_inv_def blk_used_def CELL_DIR_BLOCK_ENTRIES_def
  by (metis length_filter_le)

lemma block_inv_init: "block_inv cell_dir_block_init"
  by (simp add: block_inv_def cell_dir_block_init_def CELL_DIR_BLOCK_ENTRIES_def blk_used_def
      wf_dir_entry_def numeral_3_eq_3)

lemma blk_used_init [simp]: "blk_used cell_dir_block_init = []"
  by (simp add: cell_dir_block_init_def CELL_DIR_BLOCK_ENTRIES_def blk_used_def)

subsection \<open>Adding an entry\<close>

text \<open>The loop takes the first free slot; the slots before it are all in use.\<close>

lemma add_from_found:
  assumes "length (blk_entries block) = CELL_DIR_BLOCK_ENTRIES" "i \<le> CELL_DIR_BLOCK_ENTRIES"
    and "cell_dir_block_add_from i block entry = (True, block')"
  shows "\<exists>j < CELL_DIR_BLOCK_ENTRIES. de_set (blk_entries block ! j) = 0 \<and>
     block' = block\<lparr>blk_entries := (blk_entries block)[j := entry],
                    blk_entry_count := blk_entry_count block + 1\<rparr>"
  using assms
proof (induction i block entry rule: cell_dir_block_add_from.induct)
  case (1 i block entry)
  then show ?case
    by (cases "i < CELL_DIR_BLOCK_ENTRIES"; cases "de_set (blk_entries block ! i) = 0")
      (auto simp: cell_dir_block_add_from.simps [of i block entry] cell_dir_entry_copy_def)
qed

lemma add_from_full:
  assumes "cell_dir_block_add_from i block entry = (False, block')"
  shows "block' = block \<and>
     (\<forall>j. i \<le> j \<and> j < CELL_DIR_BLOCK_ENTRIES \<longrightarrow> de_set (blk_entries block ! j) \<noteq> 0)"
  using assms
proof (induction i block entry rule: cell_dir_block_add_from.induct)
  case (1 i block entry)
  show ?case
  proof (cases "i < CELL_DIR_BLOCK_ENTRIES \<and> de_set (blk_entries block ! i) \<noteq> 0")
    case True
    with 1 have "block' = block \<and>
        (\<forall>j. Suc i \<le> j \<and> j < CELL_DIR_BLOCK_ENTRIES \<longrightarrow> de_set (blk_entries block ! j) \<noteq> 0)"
      by (simp add: cell_dir_block_add_from.simps [of i block entry])
    with True show ?thesis by (metis le_eq_less_or_eq Suc_leI)
  next
    case False
    with 1 show ?thesis
      by (auto simp: cell_dir_block_add_from.simps [of i block entry] split: if_splits)
  qed
qed

text \<open>Filling a free slot inserts exactly one entry among the used ones.\<close>

lemma filter_update_free:
  assumes "j < length es" "de_set (es ! j) = 0" "entry_is_set e"
  shows "\<exists>xs ys. filter entry_is_set es = xs @ ys \<and> filter entry_is_set (es[j := e]) = xs @ e # ys"
proof (intro exI conjI)
  have "es = take j es @ es ! j # drop (Suc j) es"
    using assms(1) by (rule id_take_nth_drop)
  then show "filter entry_is_set es =
      filter entry_is_set (take j es) @ filter entry_is_set (drop (Suc j) es)"
    using assms(2) by (metis (mono_tags, lifting) filter.simps(2) filter_append zero_neq_one)
  show "filter entry_is_set (es[j := e]) =
      filter entry_is_set (take j es) @ e # filter entry_is_set (drop (Suc j) es)"
    using assms(1,3) by (simp add: upd_conv_take_nth_drop)
qed

lemma block_add_True:
  assumes inv: "block_inv block" and entry: "entry_is_set entry" "wf_dir_entry entry"
    and fresh: "de_checksum entry \<notin> de_checksum ` set (blk_used block)"
    and add: "cell_dir_block_add block entry = (True, block')"
  shows "block_inv block' \<and> blk_overflow_count block' = blk_overflow_count block \<and>
     (\<exists>xs ys. blk_used block = xs @ ys \<and> blk_used block' = xs @ entry # ys)"
proof -
  from add inv obtain j where j: "j < CELL_DIR_BLOCK_ENTRIES" "de_set (blk_entries block ! j) = 0"
    and block': "block' = block\<lparr>blk_entries := (blk_entries block)[j := entry],
                    blk_entry_count := blk_entry_count block + 1\<rparr>"
    unfolding cell_dir_block_add_def block_inv_def by (blast dest: add_from_found)
  from j inv obtain xs ys where xy: "blk_used block = xs @ ys" "blk_used block' = xs @ entry # ys"
    using filter_update_free [of j "blk_entries block" entry] entry(1)
    unfolding blk_used_def block' block_inv_def by auto
  have "length (blk_used block') \<le> 3"
    using inv unfolding blk_used_def block' block_inv_def CELL_DIR_BLOCK_ENTRIES_def
    by (metis (no_types, lifting) cell_dir_block.select_convs(1) cell_dir_block.surjective
        cell_dir_block.update_convs(1,2) length_filter_le length_list_update)
  then have "length (blk_used block) + 1 < 16" using xy by simp
  then have "unat (blk_entry_count block') = length (blk_used block')"
    using inv xy by (simp add: block' block_inv_def word_nat)
  moreover have "\<forall>e \<in> set (blk_entries block'). wf_dir_entry e"
    using inv entry(2) set_update_subset_insert by (fastforce simp: block' block_inv_def)
  ultimately have "block_inv block'"
    using inv fresh xy by (auto simp: block_inv_def block')
  then show ?thesis using xy by (auto simp: block')
qed

lemma block_add_False:
  assumes "cell_dir_block_add block entry = (False, block')"
  shows "block' = block"
  using assms add_from_full unfolding cell_dir_block_add_def by blast

subsection \<open>Finding an entry\<close>

lemma find_from_Some:
  assumes "cell_dir_block_find_from i block c = Some j"
    and "\<forall>e \<in> set (blk_entries block). wf_dir_entry e"
    and "length (blk_entries block) = CELL_DIR_BLOCK_ENTRIES" and "wf_checksum c"
  shows "j < CELL_DIR_BLOCK_ENTRIES \<and> entry_is_set (blk_entries block ! j) \<and>
     de_checksum (blk_entries block ! j) = c"
  using assms
proof (induction i block c rule: cell_dir_block_find_from.induct)
  case (1 i block c)
  have wf: "i < CELL_DIR_BLOCK_ENTRIES \<Longrightarrow> wf_checksum (de_checksum (blk_entries block ! i))"
    using "1.prems" by (simp add: wf_dir_entry_def)
  show ?case
    using "1.prems" "1.IH" wf u1_cases
    by (auto simp: cell_dir_block_find_from.simps [of i block c] split: if_splits)
qed

lemma find_from_None:
  assumes "cell_dir_block_find_from i block c = None"
    and "\<forall>e \<in> set (blk_entries block). wf_dir_entry e"
    and "length (blk_entries block) = CELL_DIR_BLOCK_ENTRIES" and "wf_checksum c"
    and "i \<le> j" "j < CELL_DIR_BLOCK_ENTRIES" "entry_is_set (blk_entries block ! j)"
  shows "de_checksum (blk_entries block ! j) \<noteq> c"
  using assms
proof (induction i block c rule: cell_dir_block_find_from.induct)
  case (1 i block c)
  have wf: "i < CELL_DIR_BLOCK_ENTRIES \<Longrightarrow> wf_checksum (de_checksum (blk_entries block ! i))"
    using "1.prems" by (simp add: wf_dir_entry_def)
  show ?case
  proof (cases "i = j")
    case True
    with "1.prems" have "i < CELL_DIR_BLOCK_ENTRIES" "entry_is_set (blk_entries block ! i)" by auto
    with "1.prems"(1) have "checksum_compare c (de_checksum (blk_entries block ! i)) \<noteq> 0"
      by (simp add: cell_dir_block_find_from.simps [of i block c] del: checksum_compare_eq_0
          split: if_splits)
    with "1.prems" True wf show ?thesis by auto
  next
    case False
    with "1.prems" have "Suc i \<le> j" by simp
    with "1.prems" "1.IH" show ?thesis
      by (auto simp: cell_dir_block_find_from.simps [of i block c] split: if_splits)
  qed
qed

lemma block_find_Some:
  assumes "block_inv block" "wf_checksum c" "cell_dir_block_find block c = Some j"
  shows "j < length (blk_entries block) \<and> blk_entries block ! j \<in> set (blk_used block) \<and>
     de_checksum (blk_entries block ! j) = c"
  using assms find_from_Some [of 0 block c j]
  by (auto simp: cell_dir_block_find_def block_inv_def blk_used_def split: if_splits)

lemma block_find_None:
  assumes inv: "block_inv block" and c: "wf_checksum c" and none: "cell_dir_block_find block c = None"
  shows "c \<notin> de_checksum ` set (blk_used block)"
proof (cases "blk_entry_count block = 0")
  case True
  with inv have "blk_used block = []" by (simp add: block_inv_def)
  then show ?thesis by simp
next
  case False
  with none have "cell_dir_block_find_from 0 block c = None"
    by (simp add: cell_dir_block_find_def)
  then show ?thesis
    using inv c find_from_None [of 0 block c]
    by (fastforce simp: block_inv_def blk_used_def in_set_conv_nth)
qed

lemma block_get_chunk_spec:
  assumes "block_inv block" "wf_checksum c"
  shows "cell_dir_block_get_chunk block c e =
     (case find (\<lambda>e. de_checksum e = c) (blk_used block) of
        None \<Rightarrow> (False, e) | Some x \<Rightarrow> (True, x))"
proof (cases "cell_dir_block_find block c")
  case None
  with block_find_None [OF assms] have "find (\<lambda>e. de_checksum e = c) (blk_used block) = None"
    by (simp add: find_image_None)
  with None show ?thesis by (simp add: cell_dir_block_get_chunk_def)
next
  case (Some j)
  let ?x = "blk_entries block ! j"
  have x: "?x \<in> set (blk_used block)" "de_checksum ?x = c"
    using block_find_Some [OF assms Some] by auto
  moreover have "distinct (map de_checksum (blk_used block))"
    using assms by (simp add: block_inv_def)
  ultimately have "find (\<lambda>e. de_checksum e = c) (blk_used block) = Some ?x"
    using find_distinct by fastforce
  with Some show ?thesis by (simp add: cell_dir_block_get_chunk_def cell_dir_entry_copy_def)
qed

subsection \<open>Removing an entry\<close>

lemma filter_update_used:
  assumes "j < length es" "entry_is_set (es ! j)" "de_set e = 0"
  shows "\<exists>xs ys. filter entry_is_set es = xs @ es ! j # ys \<and>
     filter entry_is_set (es[j := e]) = xs @ ys"
proof (intro exI conjI)
  have "filter entry_is_set (take j es @ es ! j # drop (Suc j) es) =
      filter entry_is_set (take j es) @ es ! j # filter entry_is_set (drop (Suc j) es)"
    using assms(2) by simp
  then show "filter entry_is_set es =
      filter entry_is_set (take j es) @ es ! j # filter entry_is_set (drop (Suc j) es)"
    using id_take_nth_drop [OF assms(1)] by simp
  show "filter entry_is_set (es[j := e]) =
      filter entry_is_set (take j es) @ filter entry_is_set (drop (Suc j) es)"
    using assms(1,3) by (simp add: upd_conv_take_nth_drop)
qed

lemma block_remove_absent:
  assumes "block_inv block" "wf_checksum c" "c \<notin> de_checksum ` set (blk_used block)"
  shows "cell_dir_block_remove block c = (False, block)"
  using assms(3) block_find_Some [OF assms(1,2)]
  by (cases "cell_dir_block_find block c") (force simp: cell_dir_block_remove_def)+

lemma block_remove_present:
  assumes inv: "block_inv block" and c: "wf_checksum c" "c \<in> de_checksum ` set (blk_used block)"
  shows "\<exists>block' xs e ys. cell_dir_block_remove block c = (True, block') \<and>
     blk_used block = xs @ e # ys \<and> de_checksum e = c \<and> blk_used block' = xs @ ys \<and>
     block_inv block' \<and> blk_overflow_count block' = blk_overflow_count block"
proof -
  obtain j where j: "cell_dir_block_find block c = Some j"
    using block_find_None [OF inv c(1)] c(2) by (cases "cell_dir_block_find block c") auto
  note found = block_find_Some [OF inv c(1) j]
  let ?block' = "block\<lparr>blk_entries := (blk_entries block)[j := cell_dir_entry_init],
                        blk_entry_count := blk_entry_count block - 1\<rparr>"
  from found have "entry_is_set (blk_entries block ! j)" by (simp add: blk_used_def)
  then obtain xs ys where xy: "blk_used block = xs @ blk_entries block ! j # ys"
      "blk_used ?block' = xs @ ys"
    using filter_update_used [of j "blk_entries block" cell_dir_entry_init] found
    by (auto simp: blk_used_def)
  have "unat (blk_entry_count block) = Suc (length xs + length ys)"
    using inv xy(1) by (simp add: block_inv_def)
  then have "unat (blk_entry_count block - 1) = length xs + length ys"
    by (simp add: word_nat)
  moreover have "\<forall>e \<in> set (blk_entries ?block'). wf_dir_entry e"
    using inv set_update_subset_insert by (fastforce simp: block_inv_def wf_dir_entry_def)
  ultimately have "block_inv ?block'"
    using inv xy by (auto simp: block_inv_def)
  moreover have "cell_dir_block_remove block c = (True, ?block')"
    by (simp add: cell_dir_block_remove_def j)
  ultimately show ?thesis using xy found by fastforce
qed

section \<open>The limit of the overflow counter\<close>

text \<open>
  C40: the overflow counter of a block is 12 bits wide, so a block can count 4095 overflowed entries, not
  4096: one increment more and the block claims that nothing of it is in the overflow area.
\<close>

theorem block_overflow_counter_limit:
  "cell_dir_block_overflowed (snd (cell_dir_block_increment_overflow block)) \<longleftrightarrow>
     unat (blk_overflow_count block) \<noteq> 4095"
proof -
  have "blk_overflow_count block + 1 = 0 \<longleftrightarrow> unat (blk_overflow_count block) = 4095"
  proof -
    have "unat (blk_overflow_count block + 1) = (unat (blk_overflow_count block) + 1) mod 4096"
      by (simp add: unat_word_ariths)
    moreover have "unat (blk_overflow_count block) < 4096"
      using unat_lt [of "blk_overflow_count block"] by simp
    moreover have "(n + 1) mod 4096 = 0 \<longleftrightarrow> n = 4095" if "n < 4096" for n :: nat
      using that by (cases "n = 4095") simp_all
    ultimately show ?thesis unfolding word_unat_eq_iff [of _ 0] by simp
  qed
  then show ?thesis
    by (simp add: cell_dir_block_overflowed_def cell_dir_block_increment_overflow_def Let_def
        word_neq_0_conv [symmetric])
qed

end
