(* ===== verification/Cell_Dir_Overflow.thy ===== *)
theory Cell_Dir_Overflow
  imports Cell_Dir_Entry "HOL-Library.Multiset"
begin

text \<open>
  \<^verbatim>\<open>cell_dir_overflow.h\<close>, \<^verbatim>\<open>cell_dir_overflow.c\<close>: the directory entries that found their bucket
  full.  They are stored as raw structs immediately below the cell header, growing down from
  \<open>buffer_top\<close> (the offset of the header in the slab): entry number \<open>k\<close> is at
  \<open>buffer_top - 36 * (k + 1)\<close>.  Removal moves the lowest entry into the hole.  A pointer that
  leaves the slab below the header is \<open>OutOfBounds\<close>.
\<close>

record cell_dir_overflow =
  ovf_overflow_count :: u16

definition cell_dir_overflow_init :: cell_dir_overflow where
  "cell_dir_overflow_init = \<lparr>ovf_overflow_count = 0\<rparr>"

definition cell_dir_overflow_add ::
    "cell_dir_overflow \<Rightarrow> mem \<Rightarrow> nat \<Rightarrow> cell_dir_entry \<Rightarrow> (u32 \<times> cell_dir_overflow \<times> mem) result" where
  "cell_dir_overflow_add overflow m buffer_top entry =
     (let overflow' = overflow\<lparr>ovf_overflow_count := ovf_overflow_count overflow + 1\<rparr>;
          back = unat (ovf_overflow_count overflow') * sizeof_cell_dir_entry;
          ptr = buffer_top - back
      in if sizeof_cell_dir_entry \<le> back \<and> back \<le> buffer_top
         then Inr (ucast (ovf_overflow_count overflow'), overflow',
                   store_dir_entry m ptr (cell_dir_entry_copy (load_dir_entry m ptr) entry))
         else Inl OutOfBounds)"

text \<open>
  The search loop of \<^verbatim>\<open>cell_dir_overflow_remove\<close> and \<^verbatim>\<open>cell_dir_overflow_get_chunk\<close>:
  \<^verbatim>\<open>for (i = 0; i < overflow_count; i++, ptr++)\<close>, with the number of rounds left.
\<close>

fun cell_dir_overflow_scan :: "mem \<Rightarrow> nat \<Rightarrow> nat \<Rightarrow> checksum \<Rightarrow> nat option" where
  "cell_dir_overflow_scan m ptr 0 checksum = None"
| "cell_dir_overflow_scan m ptr (Suc k) checksum =
     (if checksum_compare (de_checksum (load_dir_entry m ptr)) checksum = 0 then Some ptr
      else cell_dir_overflow_scan m (ptr + sizeof_cell_dir_entry) k checksum)"

definition memset_dir_entry :: "mem \<Rightarrow> nat \<Rightarrow> mem" where
  "memset_dir_entry m ptr = mem_write m ptr (replicate sizeof_cell_dir_entry 0)"

definition cell_dir_overflow_remove ::
    "cell_dir_overflow \<Rightarrow> mem \<Rightarrow> nat \<Rightarrow> checksum \<Rightarrow> (bool \<times> cell_dir_overflow \<times> mem) result" where
  "cell_dir_overflow_remove overflow m buffer_top checksum =
     (let count = unat (ovf_overflow_count overflow);
          entry = buffer_top - count * sizeof_cell_dir_entry
      in if buffer_top < count * sizeof_cell_dir_entry then Inl OutOfBounds
         else if ovf_overflow_count overflow = 1
         then if checksum_compare (de_checksum (load_dir_entry m entry)) checksum = 0
              then Inr (True, overflow\<lparr>ovf_overflow_count := 0\<rparr>, memset_dir_entry m entry)
              else Inr (False, overflow, m)
         else (case cell_dir_overflow_scan m entry count checksum of
                 None \<Rightarrow> Inr (False, overflow, m)
               | Some ptr \<Rightarrow>
                   let m' = store_dir_entry m ptr
                              (cell_dir_entry_copy (load_dir_entry m ptr) (load_dir_entry m entry))
                   in Inr (True, overflow\<lparr>ovf_overflow_count := ovf_overflow_count overflow - 1\<rparr>,
                           memset_dir_entry m' entry)))"

definition cell_dir_overflow_get_chunk ::
    "cell_dir_overflow \<Rightarrow> mem \<Rightarrow> nat \<Rightarrow> checksum \<Rightarrow> cell_dir_entry \<Rightarrow> (bool \<times> cell_dir_entry) result" where
  "cell_dir_overflow_get_chunk overflow m buffer_top checksum out =
     (let count = unat (ovf_overflow_count overflow);
          entry = buffer_top - count * sizeof_cell_dir_entry
      in if ovf_overflow_count overflow = 0 then Inr (False, out)
         else if buffer_top < count * sizeof_cell_dir_entry then Inl OutOfBounds
         else (case cell_dir_overflow_scan m entry count checksum of
                 None \<Rightarrow> Inr (False, out)
               | Some ptr \<Rightarrow> Inr (True, cell_dir_entry_copy out (load_dir_entry m ptr))))"

section \<open>The stored entries as a list\<close>

definition ov_addr :: "nat \<Rightarrow> nat \<Rightarrow> nat" where
  "ov_addr base k = base - Suc k * sizeof_cell_dir_entry"

definition ov_entries :: "mem \<Rightarrow> nat \<Rightarrow> nat \<Rightarrow> cell_dir_entry list" where
  "ov_entries m base n = map (\<lambda>k. load_dir_entry m (ov_addr base k)) [0..<n]"

lemma length_ov_entries [simp]: "length (ov_entries m base n) = n"
  by (simp add: ov_entries_def)

lemma nth_ov_entries [simp]: "k < n \<Longrightarrow> ov_entries m base n ! k = load_dir_entry m (ov_addr base k)"
  by (simp add: ov_entries_def)

lemma ov_entries_0 [simp]: "ov_entries m base 0 = []"
  by (simp add: ov_entries_def)

lemma ov_entries_Suc: "ov_entries m base (Suc n) = ov_entries m base n @ [load_dir_entry m (ov_addr base n)]"
  by (simp add: ov_entries_def)

lemma ov_entries_eq_on:
  assumes "mem_eq_on (base - n * sizeof_cell_dir_entry) base m m'" "n * sizeof_cell_dir_entry \<le> base"
  shows "ov_entries m' base n = ov_entries m base n"
proof (rule nth_equalityI)
  fix k assume "k < length (ov_entries m' base n)"
  then have k: "k < n" by simp
  then have "Suc k * sizeof_cell_dir_entry \<le> n * sizeof_cell_dir_entry" by (simp only: mult_le_mono1 Suc_leI)
  then have "load_dir_entry m (ov_addr base k) = load_dir_entry m' (ov_addr base k)"
    using assms by (intro dir_entry.load_eq_on [OF assms(1)])
      (auto simp: ov_addr_def sizeof_cell_dir_entry_def)
  with k show "ov_entries m' base n ! k = ov_entries m base n ! k" by simp
qed simp

lemma ov_entries_wf: "e \<in> set (ov_entries m base n) \<Longrightarrow> wf_checksum (de_checksum e)"
  by (auto simp: ov_entries_def)

text \<open>The addresses of two different entries do not overlap.\<close>

lemma ov_addr_step:
  "j < k \<Longrightarrow> Suc k * sizeof_cell_dir_entry \<le> base \<Longrightarrow>
   ov_addr base k + sizeof_cell_dir_entry \<le> ov_addr base j"
proof -
  assume "j < k" and base: "Suc k * sizeof_cell_dir_entry \<le> base"
  then have "Suc j * sizeof_cell_dir_entry + sizeof_cell_dir_entry \<le> Suc k * sizeof_cell_dir_entry"
    by (auto simp: sizeof_cell_dir_entry_def)
  with base show ?thesis by (simp add: ov_addr_def)
qed

subsection \<open>The scan\<close>

lemma scan_Some:
  assumes "cell_dir_overflow_scan m ptr k c = Some p" "wf_checksum c"
  shows "\<exists>i < k. p = ptr + i * sizeof_cell_dir_entry \<and> de_checksum (load_dir_entry m p) = c"
  using assms
proof (induction k arbitrary: ptr)
  case 0
  then show ?case by simp
next
  case (Suc k)
  show ?case
  proof (cases "de_checksum (load_dir_entry m ptr) = c")
    case True
    with Suc.prems show ?thesis by auto
  next
    case False
    with Suc.prems have "cell_dir_overflow_scan m (ptr + sizeof_cell_dir_entry) k c = Some p" by simp
    from Suc.IH [OF this Suc.prems(2)] obtain i where "i < k"
      "p = ptr + Suc i * sizeof_cell_dir_entry" "de_checksum (load_dir_entry m p) = c"
      by (auto simp: algebra_simps)
    then show ?thesis by (metis Suc_mono)
  qed
qed

lemma scan_None:
  assumes "cell_dir_overflow_scan m ptr k c = None" "wf_checksum c" "i < k"
  shows "de_checksum (load_dir_entry m (ptr + i * sizeof_cell_dir_entry)) \<noteq> c"
  using assms
proof (induction k arbitrary: ptr i)
  case 0
  then show ?case by simp
next
  case (Suc k)
  from Suc.prems have here: "de_checksum (load_dir_entry m ptr) \<noteq> c"
    and rest: "cell_dir_overflow_scan m (ptr + sizeof_cell_dir_entry) k c = None"
    by (auto split: if_splits)
  show ?case
  proof (cases i)
    case 0
    with here show ?thesis by simp
  next
    case (Suc j)
    with Suc.prems Suc.IH [OF rest Suc.prems(2), of j] show ?thesis by (simp add: add.assoc)
  qed
qed

lemma scan_addr:
  assumes "i < n" "n * sizeof_cell_dir_entry \<le> base"
  shows "base - n * sizeof_cell_dir_entry + i * sizeof_cell_dir_entry = ov_addr base (n - Suc i)"
proof -
  have "Suc (n - Suc i) = n - i" using assms(1) by simp
  moreover have "(n - i) * sizeof_cell_dir_entry + i * sizeof_cell_dir_entry = n * sizeof_cell_dir_entry"
    using assms(1) by (simp flip: add_mult_distrib)
  ultimately show ?thesis using assms(2) by (simp add: ov_addr_def)
qed

lemma overflow_scan_found:
  assumes "cell_dir_overflow_scan m (base - n * sizeof_cell_dir_entry) n c = Some p"
    and "wf_checksum c" "n * sizeof_cell_dir_entry \<le> base"
  shows "\<exists>k < n. p = ov_addr base k \<and> de_checksum (ov_entries m base n ! k) = c"
proof -
  from scan_Some [OF assms(1,2)] obtain i where i: "i < n"
    "p = base - n * sizeof_cell_dir_entry + i * sizeof_cell_dir_entry" "de_checksum (load_dir_entry m p) = c"
    by auto
  then have "p = ov_addr base (n - Suc i)" using scan_addr assms(3) by simp
  moreover have "n - Suc i < n" using i(1) by simp
  ultimately show ?thesis using i(3) by (metis nth_ov_entries)
qed

lemma overflow_scan_absent:
  assumes "wf_checksum c" "n * sizeof_cell_dir_entry \<le> base"
  shows "cell_dir_overflow_scan m (base - n * sizeof_cell_dir_entry) n c = None \<longleftrightarrow>
     c \<notin> de_checksum ` set (ov_entries m base n)"
proof
  assume none: "cell_dir_overflow_scan m (base - n * sizeof_cell_dir_entry) n c = None"
  show "c \<notin> de_checksum ` set (ov_entries m base n)"
  proof
    assume "c \<in> de_checksum ` set (ov_entries m base n)"
    then obtain k where k: "k < n" "de_checksum (load_dir_entry m (ov_addr base k)) = c"
      by (auto simp: in_set_conv_nth)
    then have "base - n * sizeof_cell_dir_entry + (n - Suc k) * sizeof_cell_dir_entry = ov_addr base k"
      using scan_addr [of "n - Suc k" n base] assms(2) by simp
    with k scan_None [OF none assms(1), of "n - Suc k"] show False by simp
  qed
next
  assume "c \<notin> de_checksum ` set (ov_entries m base n)"
  then show "cell_dir_overflow_scan m (base - n * sizeof_cell_dir_entry) n c = None"
    using overflow_scan_found [of m base n c] assms
    by (cases "cell_dir_overflow_scan m (base - n * sizeof_cell_dir_entry) n c")
      (fastforce simp: in_set_conv_nth)+
qed

section \<open>What the operations do to the list\<close>

lemma overflow_add_spec:
  assumes n: "n = unat (ovf_overflow_count overflow)"
    and room: "Suc n * sizeof_cell_dir_entry \<le> base" "Suc n < 65536"
    and wf: "wf_dir_entry entry"
  obtains r overflow' m' where
    "cell_dir_overflow_add overflow m base entry = Inr (r, overflow', m')"
    "unat (ovf_overflow_count overflow') = Suc n"
    "ov_entries m' base (Suc n) = ov_entries m base n @ [entry]"
    "mem_eq_on 0 (base - Suc n * sizeof_cell_dir_entry) m m'"
proof -
  let ?m' = "store_dir_entry m (ov_addr base n) entry"
  have count: "unat (ovf_overflow_count overflow + 1) = Suc n"
    using n room(2) by (simp add: word_nat)
  then have add: "cell_dir_overflow_add overflow m base entry =
      Inr (ucast (ovf_overflow_count overflow + 1),
           overflow\<lparr>ovf_overflow_count := ovf_overflow_count overflow + 1\<rparr>, ?m')"
    using room(1) by (simp add: cell_dir_overflow_add_def Let_def ov_addr_def cell_dir_entry_copy_def)
  have end_addr: "ov_addr base n + sizeof_cell_dir_entry = base - n * sizeof_cell_dir_entry"
    using room(1) by (simp add: ov_addr_def)
  then have "ov_entries ?m' base n = ov_entries m base n"
    using room(1) wf by (intro ov_entries_eq_on dir_entry.store_eq_on) simp_all
  then have "ov_entries ?m' base (Suc n) = ov_entries m base n @ [entry]"
    using wf by (simp add: ov_entries_Suc dir_entry.load_store_same)
  moreover have "mem_eq_on 0 (base - Suc n * sizeof_cell_dir_entry) m ?m'"
    using wf by (intro dir_entry.store_eq_on) (simp_all add: ov_addr_def)
  ultimately show ?thesis using add count by (intro that) auto
qed

lemma overflow_get_spec:
  assumes n: "n = unat (ovf_overflow_count overflow)" and room: "n * sizeof_cell_dir_entry \<le> base"
    and c: "wf_checksum c" and dist: "distinct (map de_checksum (ov_entries m base n))"
  shows "cell_dir_overflow_get_chunk overflow m base c out =
     Inr (case find (\<lambda>e. de_checksum e = c) (ov_entries m base n) of
            None \<Rightarrow> (False, out) | Some x \<Rightarrow> (True, x))"
proof (cases "cell_dir_overflow_scan m (base - n * sizeof_cell_dir_entry) n c")
  case None
  then have "find (\<lambda>e. de_checksum e = c) (ov_entries m base n) = None"
    using overflow_scan_absent [OF c room] by (simp add: find_image_None)
  with None n room show ?thesis by (simp add: cell_dir_overflow_get_chunk_def Let_def)
next
  case (Some p)
  from overflow_scan_found [OF Some c room] obtain k where k: "k < n" "p = ov_addr base k"
    "de_checksum (ov_entries m base n ! k) = c" by auto
  then have "find (\<lambda>e. de_checksum e = c) (ov_entries m base n) = Some (load_dir_entry m p)"
    using find_distinct [OF dist nth_mem, of k] by simp
  moreover have "ovf_overflow_count overflow \<noteq> 0" using k(1) n by (intro notI) simp
  ultimately show ?thesis
    using Some n room by (simp add: cell_dir_overflow_get_chunk_def cell_dir_entry_copy_def Let_def)
qed

lemma overflow_remove_absent:
  assumes n: "n = unat (ovf_overflow_count overflow)" and room: "n * sizeof_cell_dir_entry \<le> base"
    and c: "wf_checksum c" "c \<notin> de_checksum ` set (ov_entries m base n)"
  shows "cell_dir_overflow_remove overflow m base c = Inr (False, overflow, m)"
proof -
  have scan: "cell_dir_overflow_scan m (base - n * sizeof_cell_dir_entry) n c = None"
    using overflow_scan_absent [OF c(1) room] c(2) by blast
  have "de_checksum (load_dir_entry m (base - sizeof_cell_dir_entry)) \<noteq> c" if "n = 1"
    using c(2) that by (auto simp: ov_entries_def ov_addr_def)
  with scan n room c(1) show ?thesis
    by (auto simp: cell_dir_overflow_remove_def Let_def)
qed

text \<open>Moving the last element into the hole and dropping the last place removes one element.\<close>

lemma mset_fill_hole:
  assumes "k < length xs"
  shows "add_mset (xs ! k) (mset (butlast (xs[k := last xs]))) = mset xs"
proof -
  from assms obtain ys y where xs: "xs = ys @ [y]" by (cases xs rule: rev_cases) auto
  show ?thesis
  proof (cases "k = length ys")
    case True
    with xs show ?thesis by simp
  next
    case False
    with assms xs have k: "k < length ys" by simp
    then have "mset (ys[k := y]) = add_mset y (mset ys - {#ys ! k#})"
      by (simp add: mset_update)
    with k xs show ?thesis
      by (simp add: list_update_append nth_append butlast_append)
  qed
qed

lemma ov_entries_fill_hole:
  fixes m :: mem
  assumes n: "Suc j * sizeof_cell_dir_entry \<le> base" and k: "k \<le> j"
  defines "m' \<equiv> memset_dir_entry
     (store_dir_entry m (ov_addr base k) (load_dir_entry m (ov_addr base j))) (ov_addr base j)"
  shows "ov_entries m' base j =
     butlast ((ov_entries m base (Suc j))[k := last (ov_entries m base (Suc j))])"
proof (rule nth_equalityI)
  show "length (ov_entries m' base j) =
      length (butlast ((ov_entries m base (Suc j))[k := last (ov_entries m base (Suc j))]))" by simp
next
  fix i assume "i < length (ov_entries m' base j)"
  then have i: "i < j" by simp
  have low: "ov_addr base j + sizeof_cell_dir_entry \<le> ov_addr base i"
    using ov_addr_step [OF i n] .
  have last: "last (ov_entries m base (Suc j)) = load_dir_entry m (ov_addr base j)"
    by (simp add: ov_entries_Suc)
  have "load_dir_entry m' (ov_addr base i) =
      (if i = k then load_dir_entry m (ov_addr base j) else load_dir_entry m (ov_addr base i))"
  proof (cases "i = k")
    case True
    then show ?thesis
      using low by (simp add: m'_def memset_dir_entry_def dir_entry.load_write_other
          dir_entry.load_store_same dir_entry.load_wf)
  next
    case False
    have "ov_addr base k + sizeof_cell_dir_entry \<le> ov_addr base i \<or>
        ov_addr base i + sizeof_cell_dir_entry \<le> ov_addr base k"
      using False k i n ov_addr_step [of i k base] ov_addr_step [of k i base]
      by (cases "i < k") (auto simp: sizeof_cell_dir_entry_def)
    then show ?thesis
      using low False by (auto simp: m'_def memset_dir_entry_def dir_entry.load_write_other
          dir_entry.load_store_other dir_entry.load_wf)
  qed
  with i show "ov_entries m' base j ! i =
      butlast ((ov_entries m base (Suc j))[k := last (ov_entries m base (Suc j))]) ! i"
    by (simp add: last nth_butlast nth_list_update)
qed

lemma overflow_remove_present:
  assumes n: "n = unat (ovf_overflow_count overflow)" and room: "n * sizeof_cell_dir_entry \<le> base"
    and c: "wf_checksum c" "c \<in> de_checksum ` set (ov_entries m base n)"
  obtains overflow' m' e where
    "cell_dir_overflow_remove overflow m base c = Inr (True, overflow', m')"
    "n = Suc (unat (ovf_overflow_count overflow'))" "de_checksum e = c"
    "mset (ov_entries m base n) = add_mset e (mset (ov_entries m' base (n - 1)))"
    "mem_eq_on 0 (base - n * sizeof_cell_dir_entry) m m'"
proof -
  obtain p where p: "cell_dir_overflow_scan m (base - n * sizeof_cell_dir_entry) n c = Some p"
    using overflow_scan_absent [OF c(1) room] c(2) by blast
  from overflow_scan_found [OF p c(1) room] obtain k where k: "k < n" "p = ov_addr base k"
    "de_checksum (ov_entries m base n ! k) = c" by auto
  then obtain j where j: "n = Suc j" by (cases n) auto
  let ?low = "ov_addr base j"
  let ?m' = "memset_dir_entry (store_dir_entry m (ov_addr base k) (load_dir_entry m ?low)) ?low"
  have low: "base - n * sizeof_cell_dir_entry = ?low" by (simp add: j ov_addr_def)
  have dec: "unat (ovf_overflow_count overflow - 1) = j"
    using n j by (simp add: word_nat)
  have count1: "ovf_overflow_count overflow = 1 \<longleftrightarrow> j = 0"
    using n j by (metis One_nat_def old.nat.inject unsigned_1 word_unat_eq_iff)
  have same: "mem_eq_on 0 ?low m ?m'"
    unfolding memset_dir_entry_def using k(1) j room ov_addr_step [of k j base]
    by (intro mem_eq_on_write_trans dir_entry.store_eq_on)
      (auto simp: dir_entry.load_wf le_less less_Suc_eq)
  have mset: "mset (ov_entries m base n) =
      add_mset (ov_entries m base n ! k) (mset (ov_entries ?m' base j))"
    using mset_fill_hole [of k "ov_entries m base n"] ov_entries_fill_hole [of j base k m] k(1) room
    by (simp add: j)
  show ?thesis
  proof (cases "j = 0")
    case True
    let ?m1 = "memset_dir_entry m ?low"
    have "cell_dir_overflow_remove overflow m base c =
        Inr (True, overflow\<lparr>ovf_overflow_count := 0\<rparr>, ?m1)"
      using True j n room c(1) k count1 low by (simp add: cell_dir_overflow_remove_def Let_def)
    moreover have "mset (ov_entries m base n) = add_mset (ov_entries m base n ! k) (mset (ov_entries ?m1 base 0))"
      using mset True by simp
    moreover have "mem_eq_on 0 ?low m ?m1"
      by (simp add: memset_dir_entry_def mem_eq_on_write)
    ultimately show ?thesis using that True j k(3) low by simp
  next
    case False
    then have "cell_dir_overflow_remove overflow m base c =
        Inr (True, overflow\<lparr>ovf_overflow_count := ovf_overflow_count overflow - 1\<rparr>, ?m')"
      using count1 p k(2) n room low
      by (simp add: cell_dir_overflow_remove_def Let_def cell_dir_entry_copy_def)
    with mset same show ?thesis using that dec j k(3) low by simp
  qed
qed

end
