(* ===== verification/Cell_Dir.thy ===== *)
theory Cell_Dir
  imports Cell_Dir_Block Cell_Dir_Overflow
begin

text \<open>
  \<^verbatim>\<open>cell_dir.h\<close>, \<^verbatim>\<open>cell_dir.c\<close>: the directory of a cell, 256 buckets selected by byte 17 of the
  checksum plus the overflow area.  The C array \<^verbatim>\<open>blocks[256]\<close> is indexed by a \<^verbatim>\<open>uint8_t\<close>, so it
  is a function of a byte.  \<open>dir_map\<close> is the finite map the directory stands for, \<open>dir_inv\<close> the
  invariant that ties the buckets, their counters and the overflow area together.
\<close>

definition CELL_DIR_BLOCK_CHECKSUM_BYTE :: nat where
  "CELL_DIR_BLOCK_CHECKSUM_BYTE = 17"

record cell_dir =
  blocks :: "u8 \<Rightarrow> cell_dir_block"
  overflow :: cell_dir_overflow

definition cell_dir_init :: cell_dir where
  "cell_dir_init = \<lparr>blocks = (\<lambda>i. cell_dir_block_init), overflow = cell_dir_overflow_init\<rparr>"

definition block_no :: "checksum \<Rightarrow> u8" where
  "block_no checksum = bytes checksum ! CELL_DIR_BLOCK_CHECKSUM_BYTE"

definition cell_dir_add :: "cell_dir \<Rightarrow> mem \<Rightarrow> nat \<Rightarrow> cell_dir_entry \<Rightarrow> (cell_dir \<times> mem) result" where
  "cell_dir_add dir m buffer_top entry =
     (let b = block_no (de_checksum entry)
      in case cell_dir_block_add (blocks dir b) entry of
           (True, block) \<Rightarrow> Inr (dir\<lparr>blocks := (blocks dir)(b := block)\<rparr>, m)
         | (False, block) \<Rightarrow>
             rbind (cell_dir_overflow_add (overflow dir) m buffer_top entry)
               (\<lambda>(_, overflow', m').
                  let (_, block') = cell_dir_block_increment_overflow block
                  in Inr (dir\<lparr>blocks := (blocks dir)(b := block'), overflow := overflow'\<rparr>, m')))"

definition cell_dir_remove ::
    "cell_dir \<Rightarrow> mem \<Rightarrow> nat \<Rightarrow> checksum \<Rightarrow> (bool \<times> cell_dir \<times> mem) result" where
  "cell_dir_remove dir m buffer_top checksum =
     (let b = block_no checksum
      in case cell_dir_block_remove (blocks dir b) checksum of
           (True, block) \<Rightarrow> Inr (True, dir\<lparr>blocks := (blocks dir)(b := block)\<rparr>, m)
         | (False, block) \<Rightarrow>
             if cell_dir_block_overflowed block
             then rbind (cell_dir_overflow_remove (overflow dir) m buffer_top checksum)
                    (\<lambda>(found, overflow', m').
                       if found
                       then rbind (cell_dir_block_decrement_overflow block)
                              (\<lambda>(_, block'). Inr (True,
                                 dir\<lparr>blocks := (blocks dir)(b := block'), overflow := overflow'\<rparr>, m'))
                       else Inr (False, dir\<lparr>overflow := overflow'\<rparr>, m'))
             else Inr (False, dir, m))"

definition cell_dir_get_chunk ::
    "cell_dir \<Rightarrow> mem \<Rightarrow> nat \<Rightarrow> checksum \<Rightarrow> cell_dir_entry \<Rightarrow> (bool \<times> cell_dir_entry) result" where
  "cell_dir_get_chunk dir m buffer_top checksum entry =
     (let b = block_no checksum
      in case cell_dir_block_get_chunk (blocks dir b) checksum entry of
           (True, entry') \<Rightarrow> Inr (True, entry')
         | (False, entry') \<Rightarrow>
             if cell_dir_block_overflowed (blocks dir b)
             then cell_dir_overflow_get_chunk (overflow dir) m buffer_top checksum entry'
             else Inr (False, entry'))"

section \<open>Invariant and abstraction\<close>

definition dir_ov_count :: "cell_dir \<Rightarrow> nat" where
  "dir_ov_count dir = unat (ovf_overflow_count (overflow dir))"

definition dir_ov :: "cell_dir \<Rightarrow> mem \<Rightarrow> nat \<Rightarrow> cell_dir_entry list" where
  "dir_ov dir m base = ov_entries m base (dir_ov_count dir)"

text \<open>All entries that can answer a query for bucket \<open>b\<close>, in the order the code searches them.\<close>

definition dir_entries :: "cell_dir \<Rightarrow> mem \<Rightarrow> nat \<Rightarrow> u8 \<Rightarrow> cell_dir_entry list" where
  "dir_entries dir m base b = blk_used (blocks dir b) @ dir_ov dir m base"

definition dir_map :: "cell_dir \<Rightarrow> mem \<Rightarrow> nat \<Rightarrow> checksum \<Rightarrow> u31 option" where
  "dir_map dir m base c = map_option de_offset (find (\<lambda>e. de_checksum e = c) (dir_entries dir m base (block_no c)))"

definition in_block :: "u8 \<Rightarrow> cell_dir_entry \<Rightarrow> bool" where
  "in_block b e \<longleftrightarrow> block_no (de_checksum e) = b"

definition dir_inv :: "cell_dir \<Rightarrow> mem \<Rightarrow> nat \<Rightarrow> bool" where
  "dir_inv dir m base \<longleftrightarrow>
     dir_ov_count dir * sizeof_cell_dir_entry \<le> base \<and>
     (\<forall>b. block_inv (blocks dir b) \<and>
          (\<forall>e \<in> set (blk_used (blocks dir b)). in_block b e) \<and>
          unat (blk_overflow_count (blocks dir b)) = length (filter (in_block b) (dir_ov dir m base)) \<and>
          distinct (map de_checksum (dir_entries dir m base b)))"

lemma dir_inv_init: "dir_inv cell_dir_init m base"
  by (simp add: dir_inv_def cell_dir_init_def dir_ov_count_def cell_dir_overflow_init_def
      block_inv_init dir_ov_def dir_entries_def)
    (simp add: cell_dir_block_init_def)

lemma dir_map_init: "dir_map cell_dir_init m base = Map.empty"
  by (rule ext) (simp add: dir_map_def dir_entries_def cell_dir_init_def dir_ov_def
      dir_ov_count_def cell_dir_overflow_init_def)

text \<open>The directory reads memory only in its overflow area.\<close>

lemma dir_ov_eq_on:
  assumes "mem_eq_on (base - dir_ov_count dir * sizeof_cell_dir_entry) base m m'"
    and "dir_ov_count dir * sizeof_cell_dir_entry \<le> base"
  shows "dir_ov dir m' base = dir_ov dir m base"
  using ov_entries_eq_on [OF assms] by (simp add: dir_ov_def)

lemma dir_frame:
  assumes "dir_inv dir m base"
    and "mem_eq_on (base - dir_ov_count dir * sizeof_cell_dir_entry) base m m'"
  shows "dir_inv dir m' base" "dir_map dir m' base = dir_map dir m base"
proof -
  have ov: "dir_ov dir m' base = dir_ov dir m base"
    using assms by (intro dir_ov_eq_on) (simp_all add: dir_inv_def)
  show "dir_inv dir m' base" using assms(1) by (simp add: dir_inv_def dir_entries_def ov)
  show "dir_map dir m' base = dir_map dir m base"
    by (rule ext) (simp add: dir_map_def dir_entries_def ov)
qed

text \<open>A bucket that never overflowed has none of its entries in the overflow area.\<close>

lemma not_overflowed_absent:
  assumes "dir_inv dir m base" "\<not> cell_dir_block_overflowed (blocks dir (block_no c))"
  shows "c \<notin> de_checksum ` set (dir_ov dir m base)"
proof
  assume "c \<in> de_checksum ` set (dir_ov dir m base)"
  then have "filter (in_block (block_no c)) (dir_ov dir m base) \<noteq> []"
    by (auto simp: filter_empty_conv in_block_def)
  with assms(1) have "unat (blk_overflow_count (blocks dir (block_no c))) \<noteq> 0"
    by (auto simp: dir_inv_def)
  with assms(2) show False
    by (simp add: cell_dir_block_overflowed_def word_less_nat_alt)
qed

lemma dir_get_chunk_spec:
  assumes inv: "dir_inv dir m base" and c: "wf_checksum c"
  shows "cell_dir_get_chunk dir m base c e =
     Inr (case find (\<lambda>e. de_checksum e = c) (dir_entries dir m base (block_no c)) of
            None \<Rightarrow> (False, e) | Some x \<Rightarrow> (True, x))"
proof -
  let ?b = "block_no c"
  have blk: "cell_dir_block_get_chunk (blocks dir ?b) c e =
      (case find (\<lambda>e. de_checksum e = c) (blk_used (blocks dir ?b)) of
         None \<Rightarrow> (False, e) | Some x \<Rightarrow> (True, x))"
    using inv c by (intro block_get_chunk_spec) (simp_all add: dir_inv_def)
  have ovf: "cell_dir_overflow_get_chunk (overflow dir) m base c e =
      Inr (case find (\<lambda>e. de_checksum e = c) (dir_ov dir m base) of
             None \<Rightarrow> (False, e) | Some x \<Rightarrow> (True, x))"
    using inv c unfolding dir_ov_def
    by (intro overflow_get_spec) (auto simp: dir_inv_def dir_ov_count_def dir_entries_def dir_ov_def)
  have none: "\<not> cell_dir_block_overflowed (blocks dir ?b) \<Longrightarrow>
      find (\<lambda>e. de_checksum e = c) (dir_ov dir m base) = None"
    using not_overflowed_absent [OF inv] by (simp add: find_image_None)
  show ?thesis
    by (auto simp: cell_dir_get_chunk_def Let_def blk ovf none find_append dir_entries_def
        split: option.split)
qed

lemma dir_map_None:
  "dir_map dir m base c = None \<longleftrightarrow> c \<notin> de_checksum ` set (dir_entries dir m base (block_no c))"
  by (auto simp: dir_map_def find_image_None)

lemma dir_ov_dom: "de_checksum ` set (dir_ov dir m base) \<subseteq> dom (dir_map dir m base)"
  by (auto simp: dom_def dir_map_None dir_entries_def)

section \<open>Adding an entry\<close>

text \<open>
  Both ways an entry can be stored have the same effect on what every bucket can see: bucket
  \<open>b\<close> gains the entry, the other buckets' answers do not change.
\<close>

lemma dir_map_upd:
  assumes inv: "dir_inv dir m base" and inv': "dir_inv dir' m' base"
    and mine: "\<And>x. x \<in> set (dir_entries dir' m' base (block_no (de_checksum e))) \<longleftrightarrow>
       x = e \<or> x \<in> set (dir_entries dir m base (block_no (de_checksum e)))"
    and others: "\<And>b x. de_checksum x \<noteq> de_checksum e \<Longrightarrow>
       x \<in> set (dir_entries dir' m' base b) \<longleftrightarrow> x \<in> set (dir_entries dir m base b)"
  shows "dir_map dir' m' base = (dir_map dir m base)(de_checksum e \<mapsto> de_offset e)"
proof
  fix c
  show "dir_map dir' m' base c = ((dir_map dir m base)(de_checksum e \<mapsto> de_offset e)) c"
  proof (cases "c = de_checksum e")
    case True
    have "distinct (map de_checksum (dir_entries dir' m' base (block_no (de_checksum e))))"
      using inv' by (simp add: dir_inv_def)
    moreover have "e \<in> set (dir_entries dir' m' base (block_no (de_checksum e)))" using mine by blast
    ultimately show ?thesis using True find_distinct by (fastforce simp: dir_map_def)
  next
    case False
    have "find (\<lambda>e. de_checksum e = c) (dir_entries dir' m' base (block_no c)) =
        find (\<lambda>e. de_checksum e = c) (dir_entries dir m base (block_no c))"
      by (rule find_key_cong) (use inv inv' others False in \<open>auto simp: dir_inv_def\<close>)
    with False show ?thesis by (simp add: dir_map_def)
  qed
qed

lemma dir_add_in_block:
  assumes inv: "dir_inv dir m base" and e: "entry_is_set e" "wf_dir_entry e"
    and fresh: "dir_map dir m base (de_checksum e) = None"
    and add: "cell_dir_block_add (blocks dir (block_no (de_checksum e))) e = (True, block)"
  defines "dir' \<equiv> dir\<lparr>blocks := (blocks dir)(block_no (de_checksum e) := block)\<rparr>"
  shows "dir_inv dir' m base \<and> dir_map dir' m base = (dir_map dir m base)(de_checksum e \<mapsto> de_offset e)"
proof -
  let ?b = "block_no (de_checksum e)"
  have new: "de_checksum e \<notin> de_checksum ` set (blk_used (blocks dir ?b))"
    "de_checksum e \<notin> de_checksum ` set (dir_ov dir m base)"
    using fresh by (auto simp: dir_map_None dir_entries_def)
  have "block_inv (blocks dir ?b)" using inv by (simp add: dir_inv_def)
  from block_add_True [OF this e new(1) add] obtain xs ys where
    block: "block_inv block" "blk_overflow_count block = blk_overflow_count (blocks dir ?b)"
    and used: "blk_used (blocks dir ?b) = xs @ ys" "blk_used block = xs @ e # ys" by auto
  have ov [simp]: "dir_ov dir' m base = dir_ov dir m base" "dir_ov_count dir' = dir_ov_count dir"
    by (simp_all add: dir'_def dir_ov_def dir_ov_count_def)
  have dist: "distinct (map de_checksum (dir_entries dir m base b))" for b
    using inv by (simp add: dir_inv_def)
  have "distinct (map de_checksum (xs @ e # ys @ dir_ov dir m base))"
    using dist [of ?b] fresh by (intro distinct_map_insert) (auto simp: dir_entries_def used dir_map_None)
  then have "distinct (map de_checksum (dir_entries dir' m base b))" for b
    using dist [of b] used unfolding dir_entries_def ov
    by (cases "b = ?b") (simp_all add: dir'_def del: map_append distinct_append)
  moreover have "\<forall>x \<in> set (blk_used block). in_block ?b x"
    using inv used unfolding dir_inv_def by (metis in_block_def Un_iff insert_iff list.set(2) set_append)
  ultimately have inv': "dir_inv dir' m base"
    using inv block unfolding dir_inv_def ov by (simp add: dir'_def)
  moreover have "dir_map dir' m base = (dir_map dir m base)(de_checksum e \<mapsto> de_offset e)"
    by (rule dir_map_upd [OF inv inv'])
      (use used in \<open>auto simp: dir_entries_def dir'_def dir_ov_def dir_ov_count_def split: if_splits\<close>)
  ultimately show ?thesis by blast
qed

lemma dir_add_in_overflow:
  assumes inv: "dir_inv dir m base" and e: "wf_dir_entry e"
    and fresh: "dir_map dir m base (de_checksum e) = None"
    and room: "Suc (dir_ov_count dir) < 4096"
    and count: "unat (ovf_overflow_count ovf) = Suc (dir_ov_count dir)"
    and ov: "ov_entries m' base (Suc (dir_ov_count dir)) = dir_ov dir m base @ [e]"
    and base: "Suc (dir_ov_count dir) * sizeof_cell_dir_entry \<le> base"
  defines "b \<equiv> block_no (de_checksum e)"
  defines "dir' \<equiv> dir\<lparr>blocks := (blocks dir)(b := snd (cell_dir_block_increment_overflow (blocks dir b))),
                     overflow := ovf\<rparr>"
  shows "dir_inv dir' m' base \<and> dir_map dir' m' base = (dir_map dir m base)(de_checksum e \<mapsto> de_offset e)"
proof -
  have ov' [simp]: "dir_ov dir' m' base = dir_ov dir m base @ [e]"
      "dir_ov_count dir' = Suc (dir_ov_count dir)"
    using ov count by (simp_all add: dir'_def dir_ov_def dir_ov_count_def)
  have used' [simp]: "blk_used (blocks dir' b') = blk_used (blocks dir b')" for b'
    by (simp add: dir'_def cell_dir_block_increment_overflow_def Let_def blk_used_def)
  have entries': "dir_entries dir' m' base b' = dir_entries dir m base b' @ [e]" for b'
    by (simp add: dir_entries_def)
  have blk': "block_inv (blocks dir' b')" for b'
    using inv by (simp add: dir_inv_def block_inv_def blk_used_def dir'_def
        cell_dir_block_increment_overflow_def Let_def)
  have fresh_all: "de_checksum e \<notin> de_checksum ` set (dir_entries dir m base b')" for b'
  proof (cases "b' = b")
    case True
    with fresh show ?thesis by (simp add: dir_map_None b_def)
  next
    case False
    have "de_checksum e \<notin> de_checksum ` set (dir_ov dir m base)"
      using fresh by (auto simp: dir_map_None dir_entries_def)
    moreover have "de_checksum e \<notin> de_checksum ` set (blk_used (blocks dir b'))"
    proof
      assume "de_checksum e \<in> de_checksum ` set (blk_used (blocks dir b'))"
      then obtain x where "x \<in> set (blk_used (blocks dir b'))" "de_checksum x = de_checksum e" by auto
      moreover from this inv have "in_block b' x" by (auto simp: dir_inv_def)
      ultimately show False using False by (simp add: b_def in_block_def)
    qed
    ultimately show ?thesis by (auto simp: dir_entries_def)
  qed
  have "length (filter (in_block b) (dir_ov dir m base)) \<le> dir_ov_count dir"
    using length_filter_le [of "in_block b" "dir_ov dir m base"] by (simp add: dir_ov_def)
  with inv room have small: "unat (blk_overflow_count (blocks dir b)) + 1 < 4096"
    by (simp add: dir_inv_def)
  have "unat (blk_overflow_count (blocks dir' b')) =
      length (filter (in_block b') (dir_ov dir m base @ [e]))" for b'
    using inv small by (auto simp: dir'_def dir_inv_def cell_dir_block_increment_overflow_def Let_def
        in_block_def b_def word_nat)
  moreover have "distinct (map de_checksum (dir_entries dir' m' base b'))" for b'
    using inv fresh_all [of b'] by (simp add: entries' dir_inv_def)
  ultimately have inv': "dir_inv dir' m' base"
    using inv blk' base unfolding dir_inv_def ov' used' by blast
  moreover have "dir_map dir' m' base = (dir_map dir m base)(de_checksum e \<mapsto> de_offset e)"
    by (rule dir_map_upd [OF inv inv']) (auto simp: entries')
  ultimately show ?thesis by blast
qed

lemma dir_add_spec:
  assumes inv: "dir_inv dir m base" and e: "entry_is_set e" "wf_dir_entry e"
    and fresh: "dir_map dir m base (de_checksum e) = None"
    and room: "Suc (dir_ov_count dir) * sizeof_cell_dir_entry \<le> base" "Suc (dir_ov_count dir) < 4096"
  obtains dir' m' where
    "cell_dir_add dir m base e = Inr (dir', m')" "dir_inv dir' m' base"
    "dir_map dir' m' base = (dir_map dir m base)(de_checksum e \<mapsto> de_offset e)"
    "dir_ov_count dir' = dir_ov_count dir \<or> dir_ov_count dir' = Suc (dir_ov_count dir)"
    "mem_eq_on 0 (base - dir_ov_count dir' * sizeof_cell_dir_entry) m m'"
proof (cases "cell_dir_block_add (blocks dir (block_no (de_checksum e))) e")
  case (Pair found block)
  let ?b = "block_no (de_checksum e)"
  show ?thesis
  proof (cases found)
    case True
    let ?dir' = "dir\<lparr>blocks := (blocks dir)(?b := block)\<rparr>"
    have "cell_dir_add dir m base e = Inr (?dir', m)"
      using Pair True by (simp add: cell_dir_add_def Let_def)
    moreover have "dir_ov_count ?dir' = dir_ov_count dir" by (simp add: dir_ov_count_def)
    ultimately show ?thesis
      using dir_add_in_block [OF inv e fresh] Pair True that by auto
  next
    case False
    with Pair have "cell_dir_block_add (blocks dir ?b) e = (False, block)" by simp
    then have block: "block = blocks dir ?b" by (rule block_add_False)
    from room have r: "Suc (dir_ov_count dir) < 65536" by simp
    from overflow_add_spec [OF dir_ov_count_def [of dir] room(1) r e(2), of m] obtain r ovf m' where
      add: "cell_dir_overflow_add (overflow dir) m base e = Inr (r, ovf, m')"
      and ovf: "unat (ovf_overflow_count ovf) = Suc (dir_ov_count dir)"
        "ov_entries m' base (Suc (dir_ov_count dir)) = dir_ov dir m base @ [e]"
        "mem_eq_on 0 (base - Suc (dir_ov_count dir) * sizeof_cell_dir_entry) m m'"
      by (auto simp: dir_ov_def)
    let ?dir' = "dir\<lparr>blocks := (blocks dir)(?b := snd (cell_dir_block_increment_overflow (blocks dir ?b))),
                     overflow := ovf\<rparr>"
    have "cell_dir_add dir m base e = Inr (?dir', m')"
      using Pair False add block by (simp add: cell_dir_add_def Let_def split: prod.split)
    moreover have "dir_ov_count ?dir' = Suc (dir_ov_count dir)" using ovf(1) by (simp add: dir_ov_count_def)
    ultimately show ?thesis
      using dir_add_in_overflow [OF inv e(2) fresh room(2) ovf(1,2) room(1)] ovf(3) that by auto
  qed
qed

section \<open>Removing an entry\<close>

lemma dir_map_del:
  assumes inv: "dir_inv dir m base" and inv': "dir_inv dir' m' base"
    and mine: "c \<notin> de_checksum ` set (dir_entries dir' m' base (block_no c))"
    and others: "\<And>b x. de_checksum x \<noteq> c \<Longrightarrow>
       x \<in> set (dir_entries dir' m' base b) \<longleftrightarrow> x \<in> set (dir_entries dir m base b)"
  shows "dir_map dir' m' base = (dir_map dir m base)(c := None)"
proof
  fix k
  show "dir_map dir' m' base k = ((dir_map dir m base)(c := None)) k"
  proof (cases "k = c")
    case True
    with mine show ?thesis by (simp add: dir_map_None)
  next
    case False
    have "find (\<lambda>e. de_checksum e = k) (dir_entries dir' m' base (block_no k)) =
        find (\<lambda>e. de_checksum e = k) (dir_entries dir m base (block_no k))"
      by (rule find_key_cong) (use inv inv' others False in \<open>auto simp: dir_inv_def\<close>)
    with False show ?thesis by (simp add: dir_map_def)
  qed
qed

lemma dir_remove_absent:
  assumes inv: "dir_inv dir m base" and c: "wf_checksum c" "dir_map dir m base c = None"
  shows "cell_dir_remove dir m base c = Inr (False, dir, m)"
proof -
  let ?b = "block_no c"
  have out: "c \<notin> de_checksum ` set (blk_used (blocks dir ?b))"
      "c \<notin> de_checksum ` set (ov_entries m base (dir_ov_count dir))"
    using c(2) by (auto simp: dir_map_None dir_entries_def dir_ov_def)
  have "cell_dir_block_remove (blocks dir ?b) c = (False, blocks dir ?b)"
    using inv c(1) out(1) by (intro block_remove_absent) (simp_all add: dir_inv_def)
  moreover have "cell_dir_overflow_remove (overflow dir) m base c = Inr (False, overflow dir, m)"
    using inv c(1) out(2) by (intro overflow_remove_absent [of "dir_ov_count dir"])
      (simp_all add: dir_inv_def dir_ov_count_def)
  ultimately show ?thesis by (simp add: cell_dir_remove_def Let_def)
qed

lemma dir_remove_in_block:
  assumes inv: "dir_inv dir m base" and c: "wf_checksum c"
    and used: "blk_used (blocks dir (block_no c)) = xs @ e # ys" "de_checksum e = c"
      "blk_used block = xs @ ys" "block_inv block"
      "blk_overflow_count block = blk_overflow_count (blocks dir (block_no c))"
  defines "dir' \<equiv> dir\<lparr>blocks := (blocks dir)(block_no c := block)\<rparr>"
  shows "dir_inv dir' m base \<and> dir_map dir' m base = (dir_map dir m base)(c := None)"
proof -
  let ?b = "block_no c"
  have ov [simp]: "dir_ov dir' m base = dir_ov dir m base" "dir_ov_count dir' = dir_ov_count dir"
    by (simp_all add: dir'_def dir_ov_def dir_ov_count_def)
  have dist: "distinct (map de_checksum (dir_entries dir m base b))" for b
    using inv by (simp add: dir_inv_def)
  have mine: "dir_entries dir m base ?b = xs @ e # ys @ dir_ov dir m base"
      "dir_entries dir' m base ?b = xs @ ys @ dir_ov dir m base"
    using used by (simp_all add: dir_entries_def) (simp add: dir'_def)
  have other: "b \<noteq> ?b \<Longrightarrow> dir_entries dir' m base b = dir_entries dir m base b" for b
    by (simp add: dir_entries_def) (simp add: dir'_def)
  have "distinct (map de_checksum (dir_entries dir' m base b))" for b
    using dist [of b] distinct_map_delete [of de_checksum xs e "ys @ dir_ov dir m base"] mine other
    by (cases "b = ?b") metis+
  moreover have "\<forall>x \<in> set (blk_used block). in_block ?b x"
    using inv used unfolding dir_inv_def by (metis Un_iff list.set_intros(2) set_append)
  ultimately have inv': "dir_inv dir' m base"
    using inv used unfolding dir_inv_def ov by (simp add: dir'_def)
  moreover have "c \<notin> de_checksum ` set (dir_entries dir' m base ?b)"
    using dist [of ?b] used(2) unfolding mine by auto
  moreover have "x \<in> set (dir_entries dir' m base b) \<longleftrightarrow> x \<in> set (dir_entries dir m base b)"
    if "de_checksum x \<noteq> c" for b x
    using that used(2) mine other [of b] by (cases "b = ?b") auto
  ultimately show ?thesis using dir_map_del [OF inv inv'] by blast
qed

lemma dir_remove_in_overflow:
  assumes inv: "dir_inv dir m base" and c: "wf_checksum c" "de_checksum e = c"
    and ov: "mset (dir_ov dir m base) = add_mset e (mset (ov_entries m' base (unat (ovf_overflow_count ovf))))"
    and count: "dir_ov_count dir = Suc (unat (ovf_overflow_count ovf))"
  defines "dir' \<equiv> dir\<lparr>blocks := (blocks dir)(block_no c := (blocks dir (block_no c))
                       \<lparr>blk_overflow_count := blk_overflow_count (blocks dir (block_no c)) - 1\<rparr>),
                     overflow := ovf\<rparr>"
  shows "dir_inv dir' m' base \<and> dir_map dir' m' base = (dir_map dir m base)(c := None) \<and>
     cell_dir_block_overflowed (blocks dir (block_no c))"
proof -
  let ?b = "block_no c"
  have mset': "mset (dir_ov dir m base) = add_mset e (mset (dir_ov dir' m' base))"
    using ov by (simp add: dir'_def dir_ov_def dir_ov_count_def)
  have count': "dir_ov_count dir = Suc (dir_ov_count dir')"
    using count by (simp add: dir'_def dir_ov_count_def)
  have used' [simp]: "blk_used (blocks dir' b') = blk_used (blocks dir b')" for b'
    by (simp add: dir'_def blk_used_def)
  have blk': "block_inv (blocks dir' b')" for b'
    using inv by (simp add: dir_inv_def block_inv_def blk_used_def dir'_def)
  have entries: "mset (dir_entries dir m base b') = add_mset e (mset (dir_entries dir' m' base b'))" for b'
    using mset' by (simp add: dir_entries_def)
  have dist: "distinct (map de_checksum (e # dir_entries dir' m' base b'))" for b'
  proof -
    have "mset (map de_checksum (dir_entries dir m base b')) =
        mset (map de_checksum (e # dir_entries dir' m' base b'))" using entries [of b'] by simp
    then show ?thesis using inv unfolding dir_inv_def by (metis mset_eq_imp_distinct_iff)
  qed
  have flen: "length (filter (in_block b') (dir_ov dir m base)) =
      (if b' = ?b then 1 else 0) + length (filter (in_block b') (dir_ov dir' m' base))" for b'
  proof -
    have "mset (filter (in_block b') (dir_ov dir m base)) =
        mset (filter (in_block b') (e # dir_ov dir' m' base))" using mset' by simp
    then have "length (filter (in_block b') (dir_ov dir m base)) =
        length (filter (in_block b') (e # dir_ov dir' m' base))" by (rule mset_eq_length)
    then show ?thesis using c(2) by (simp add: in_block_def)
  qed
  then have pos: "0 < unat (blk_overflow_count (blocks dir ?b))"
    using inv by (simp add: dir_inv_def)
  have "unat (blk_overflow_count (blocks dir' b')) = length (filter (in_block b') (dir_ov dir' m' base))" for b'
    using inv flen [of b'] pos by (auto simp: dir'_def dir_inv_def word_nat)
  then have inv': "dir_inv dir' m' base"
    using inv blk' dist count' unfolding dir_inv_def used' by (auto simp: sizeof_cell_dir_entry_def)
  have "x \<in> set (dir_entries dir' m' base b) \<longleftrightarrow> x \<in> set (dir_entries dir m base b)"
    if "de_checksum x \<noteq> c" for b x
    using that c(2) entries [of b] by (metis insert_iff set_mset_add_mset_insert set_mset_mset)
  moreover have "c \<notin> de_checksum ` set (dir_entries dir' m' base ?b)"
    using dist [of ?b] c(2) by simp
  ultimately have "dir_map dir' m' base = (dir_map dir m base)(c := None)"
    using dir_map_del [OF inv inv'] by blast
  with inv' pos show ?thesis by (simp add: cell_dir_block_overflowed_def word_less_nat_alt)
qed

lemma dir_remove_spec:
  assumes inv: "dir_inv dir m base" and c: "wf_checksum c" "dir_map dir m base c \<noteq> None"
  obtains dir' m' where
    "cell_dir_remove dir m base c = Inr (True, dir', m')" "dir_inv dir' m' base"
    "dir_map dir' m' base = (dir_map dir m base)(c := None)"
    "dir_ov_count dir' = dir_ov_count dir \<or> dir_ov_count dir = Suc (dir_ov_count dir')"
    "mem_eq_on 0 (base - dir_ov_count dir * sizeof_cell_dir_entry) m m'"
proof (cases "c \<in> de_checksum ` set (blk_used (blocks dir (block_no c)))")
  case True
  have "block_inv (blocks dir (block_no c))" using inv by (simp add: dir_inv_def)
  from block_remove_present [OF this c(1) True] obtain block xs e ys where
    rem: "cell_dir_block_remove (blocks dir (block_no c)) c = (True, block)"
    and used: "blk_used (blocks dir (block_no c)) = xs @ e # ys" "de_checksum e = c"
      "blk_used block = xs @ ys" "block_inv block"
      "blk_overflow_count block = blk_overflow_count (blocks dir (block_no c))" by auto
  let ?dir' = "dir\<lparr>blocks := (blocks dir)(block_no c := block)\<rparr>"
  have "cell_dir_remove dir m base c = Inr (True, ?dir', m)"
    by (simp add: cell_dir_remove_def Let_def rem)
  moreover have "dir_ov_count ?dir' = dir_ov_count dir" by (simp add: dir_ov_count_def)
  ultimately show ?thesis
    using dir_remove_in_block [OF inv c(1) used] that by auto
next
  case False
  let ?b = "block_no c"
  have blk: "cell_dir_block_remove (blocks dir ?b) c = (False, blocks dir ?b)"
    using inv c(1) False by (intro block_remove_absent) (simp_all add: dir_inv_def)
  have "c \<in> de_checksum ` set (ov_entries m base (dir_ov_count dir))"
    using c(2) False by (auto simp: dir_map_None dir_entries_def dir_ov_def)
  moreover have "dir_ov_count dir * sizeof_cell_dir_entry \<le> base" using inv by (simp add: dir_inv_def)
  ultimately obtain ovf m' e where
    rem: "cell_dir_overflow_remove (overflow dir) m base c = Inr (True, ovf, m')"
    and ovf: "dir_ov_count dir = Suc (unat (ovf_overflow_count ovf))" "de_checksum e = c"
      "mset (dir_ov dir m base) = add_mset e (mset (ov_entries m' base (unat (ovf_overflow_count ovf))))"
      "mem_eq_on 0 (base - dir_ov_count dir * sizeof_cell_dir_entry) m m'"
    using overflow_remove_present [OF dir_ov_count_def [of dir] _ c(1)] by (metis dir_ov_def diff_Suc_1)
  let ?dir' = "dir\<lparr>blocks := (blocks dir)(?b := (blocks dir ?b)
                       \<lparr>blk_overflow_count := blk_overflow_count (blocks dir ?b) - 1\<rparr>),
                   overflow := ovf\<rparr>"
  note spec = dir_remove_in_overflow [OF inv c(1) ovf(2,3,1)]
  then have "cell_dir_block_overflowed (blocks dir ?b)" by blast
  then have "cell_dir_remove dir m base c = Inr (True, ?dir', m')"
    by (simp add: cell_dir_remove_def Let_def blk rem cell_dir_block_decrement_overflow_def
        cell_dir_block_overflowed_def)
  moreover have "dir_ov_count dir = Suc (dir_ov_count ?dir')" using ovf(1) by (simp add: dir_ov_count_def)
  ultimately show ?thesis using spec ovf(4) that by blast
qed

lemma dir_spill_le:
  assumes "dir_inv dir m base" "finite (dom (dir_map dir m base))"
  shows "dir_ov_count dir \<le> card (dom (dir_map dir m base))"
proof -
  have "distinct (map de_checksum (dir_ov dir m base))"
    using assms(1) by (simp add: dir_inv_def dir_entries_def)
  then have "card (de_checksum ` set (dir_ov dir m base)) = dir_ov_count dir"
    using distinct_card by (fastforce simp: dir_ov_def)
  then show ?thesis using card_mono [OF assms(2) dir_ov_dom] by simp
qed

section \<open>The interface the rest of the cell relies on\<close>

text \<open>
  What a cell needs from its directory: a lookup that agrees with an abstract map, insertion and
  removal that update that map, and a promise about memory: the directory touches no byte below
  its overflow area, and nobody else's writes below that area change its answers.
\<close>

locale directory =
  fixes inv :: "'d \<Rightarrow> mem \<Rightarrow> nat \<Rightarrow> bool"
    and lookup :: "'d \<Rightarrow> mem \<Rightarrow> nat \<Rightarrow> checksum \<Rightarrow> u31 option"
    and spill :: "'d \<Rightarrow> nat"
    and get :: "'d \<Rightarrow> mem \<Rightarrow> nat \<Rightarrow> checksum \<Rightarrow> cell_dir_entry \<Rightarrow> (bool \<times> cell_dir_entry) result"
    and add :: "'d \<Rightarrow> mem \<Rightarrow> nat \<Rightarrow> cell_dir_entry \<Rightarrow> ('d \<times> mem) result"
    and remove :: "'d \<Rightarrow> mem \<Rightarrow> nat \<Rightarrow> checksum \<Rightarrow> (bool \<times> 'd \<times> mem) result"
  assumes get_law: "inv d m base \<Longrightarrow> wf_checksum c \<Longrightarrow>
      \<exists>x. get d m base c e = Inr (lookup d m base c \<noteq> None, x) \<and>
          (case lookup d m base c of None \<Rightarrow> x = e | Some off \<Rightarrow> de_checksum x = c \<and> de_offset x = off)"
    and add_law: "inv d m base \<Longrightarrow> entry_is_set e \<Longrightarrow> wf_dir_entry e \<Longrightarrow>
      lookup d m base (de_checksum e) = None \<Longrightarrow>
      Suc (spill d) * sizeof_cell_dir_entry \<le> base \<Longrightarrow> Suc (spill d) < 4096 \<Longrightarrow>
      \<exists>d' m'. add d m base e = Inr (d', m') \<and> inv d' m' base \<and>
          lookup d' m' base = (lookup d m base)(de_checksum e \<mapsto> de_offset e) \<and>
          (spill d' = spill d \<or> spill d' = Suc (spill d)) \<and>
          mem_eq_on 0 (base - spill d' * sizeof_cell_dir_entry) m m'"
    and remove_law: "inv d m base \<Longrightarrow> wf_checksum c \<Longrightarrow> lookup d m base c \<noteq> None \<Longrightarrow>
      \<exists>d' m'. remove d m base c = Inr (True, d', m') \<and> inv d' m' base \<and>
          lookup d' m' base = (lookup d m base)(c := None) \<and>
          (spill d' = spill d \<or> spill d = Suc (spill d')) \<and>
          mem_eq_on 0 (base - spill d * sizeof_cell_dir_entry) m m'"
    and remove_absent_law: "inv d m base \<Longrightarrow> wf_checksum c \<Longrightarrow> lookup d m base c = None \<Longrightarrow>
      remove d m base c = Inr (False, d, m)"
    and frame_inv: "inv d m base \<Longrightarrow>
      mem_eq_on (base - spill d * sizeof_cell_dir_entry) base m m' \<Longrightarrow> inv d m' base"
    and frame_lookup: "inv d m base \<Longrightarrow>
      mem_eq_on (base - spill d * sizeof_cell_dir_entry) base m m' \<Longrightarrow>
      lookup d m' base = lookup d m base"
    and spill_fits: "inv d m base \<Longrightarrow> spill d * sizeof_cell_dir_entry \<le> base"
    and spill_le: "inv d m base \<Longrightarrow> finite (dom (lookup d m base)) \<Longrightarrow>
      spill d \<le> card (dom (lookup d m base))"
begin

lemma get_found: "inv d m base \<Longrightarrow> wf_checksum c \<Longrightarrow> lookup d m base c = Some off \<Longrightarrow>
    \<exists>x. get d m base c e = Inr (True, x) \<and> de_checksum x = c \<and> de_offset x = off"
  using get_law [of d m base c e] by auto

lemma get_missing: "inv d m base \<Longrightarrow> wf_checksum c \<Longrightarrow> lookup d m base c = None \<Longrightarrow>
    get d m base c e = Inr (False, e)"
  using get_law [of d m base c e] by auto

text \<open>An entry that was added is found, and removing it restores every answer.\<close>

lemma add_get_remove:
  assumes "inv d m base" "entry_is_set e" "wf_dir_entry e" "lookup d m base (de_checksum e) = None"
    and "Suc (spill d) * sizeof_cell_dir_entry \<le> base" "Suc (spill d) < 4096"
  shows "\<exists>d1 m1 d2 m2 x. add d m base e = Inr (d1, m1) \<and>
     get d1 m1 base (de_checksum e) e0 = Inr (True, x) \<and>
     de_checksum x = de_checksum e \<and> de_offset x = de_offset e \<and>
     remove d1 m1 base (de_checksum e) = Inr (True, d2, m2) \<and> lookup d2 m2 base = lookup d m base"
proof -
  from add_law [OF assms] obtain d1 m1 where
    add: "add d m base e = Inr (d1, m1)" and inv1: "inv d1 m1 base"
    and l1: "lookup d1 m1 base = (lookup d m base)(de_checksum e \<mapsto> de_offset e)" by blast
  have wf: "wf_checksum (de_checksum e)" using assms(3) by (simp add: wf_dir_entry_def)
  have hit: "lookup d1 m1 base (de_checksum e) = Some (de_offset e)" using l1 by simp
  from remove_law [OF inv1 wf] hit obtain d2 m2 where
    "remove d1 m1 base (de_checksum e) = Inr (True, d2, m2)"
    "lookup d2 m2 base = (lookup d1 m1 base)(de_checksum e := None)" by auto
  then show ?thesis
    using add get_found [OF inv1 wf hit] l1 assms(4) by (metis fun_upd_triv fun_upd_upd)
qed

end

interpretation dirs: directory dir_inv dir_map dir_ov_count cell_dir_get_chunk cell_dir_add cell_dir_remove
proof
  fix d m base c e
  assume "dir_inv d m base" "wf_checksum c"
  then show "\<exists>x. cell_dir_get_chunk d m base c e = Inr (dir_map d m base c \<noteq> None, x) \<and>
      (case dir_map d m base c of None \<Rightarrow> x = e | Some off \<Rightarrow> de_checksum x = c \<and> de_offset x = off)"
    by (cases "find (\<lambda>e. de_checksum e = c) (dir_entries d m base (block_no c))")
      (auto simp: dir_get_chunk_spec dir_map_def dest: find_SomeD)
next
  fix d m base e
  assume "dir_inv d m base" "entry_is_set e" "wf_dir_entry e" "dir_map d m base (de_checksum e) = None"
    "Suc (dir_ov_count d) * sizeof_cell_dir_entry \<le> base" "Suc (dir_ov_count d) < 4096"
  then show "\<exists>d' m'. cell_dir_add d m base e = Inr (d', m') \<and> dir_inv d' m' base \<and>
      dir_map d' m' base = (dir_map d m base)(de_checksum e \<mapsto> de_offset e) \<and>
      (dir_ov_count d' = dir_ov_count d \<or> dir_ov_count d' = Suc (dir_ov_count d)) \<and>
      mem_eq_on 0 (base - dir_ov_count d' * sizeof_cell_dir_entry) m m'"
    by (rule dir_add_spec) blast
next
  fix d m base c
  assume "dir_inv d m base" "wf_checksum c" "dir_map d m base c \<noteq> None"
  then show "\<exists>d' m'. cell_dir_remove d m base c = Inr (True, d', m') \<and> dir_inv d' m' base \<and>
      dir_map d' m' base = (dir_map d m base)(c := None) \<and>
      (dir_ov_count d' = dir_ov_count d \<or> dir_ov_count d = Suc (dir_ov_count d')) \<and>
      mem_eq_on 0 (base - dir_ov_count d * sizeof_cell_dir_entry) m m'"
    by (rule dir_remove_spec) blast
next
  fix d m base assume "dir_inv d m base"
  then show "dir_ov_count d * sizeof_cell_dir_entry \<le> base" by (simp add: dir_inv_def)
qed (use dir_remove_absent dir_frame dir_spill_le in blast)+

section \<open>The directory as a finite map\<close>

text \<open>
  C35: inserting an absent checksum never fails while the overflow area has room for one more entry; it
  keeps the invariant, adds exactly that binding, uses at most one more overflow entry, and writes to
  no byte below the overflow area.
\<close>

theorem dir_insert_correct:
  assumes "dir_inv d m base" "entry_is_set e" "wf_dir_entry e" "dir_map d m base (de_checksum e) = None"
    and "Suc (dir_ov_count d) * sizeof_cell_dir_entry \<le> base" "Suc (dir_ov_count d) < 4096"
  shows "\<exists>d' m'. cell_dir_add d m base e = Inr (d', m') \<and> dir_inv d' m' base \<and>
     dir_map d' m' base = (dir_map d m base)(de_checksum e \<mapsto> de_offset e) \<and>
     dir_ov_count d' \<le> Suc (dir_ov_count d) \<and>
     mem_eq_on 0 (base - dir_ov_count d' * sizeof_cell_dir_entry) m m'"
  using dirs.add_law [OF assms] by (metis le_Suc_eq order_refl)

lemma empty_dir_spill: "dir_ov_count cell_dir_init = 0"
  by (simp add: dir_ov_count_def cell_dir_init_def cell_dir_overflow_init_def)

lemma sample_dir_entry: "wf_dir_entry (cell_dir_entry_set cell_dir_entry_init checksum_init 72)"
  by (simp add: wf_dir_entry_def)

theorem dir_insert_correct_witness:
  "\<exists>d' m'. cell_dir_add cell_dir_init (\<lambda>_. 0) 36 (cell_dir_entry_set cell_dir_entry_init checksum_init 72) =
     Inr (d', m') \<and> dir_map d' m' 36 = [checksum_init \<mapsto> 72]"
proof -
  let ?e = "cell_dir_entry_set cell_dir_entry_init checksum_init 72"
  have "entry_is_set ?e" "dir_map cell_dir_init (\<lambda>_. 0) 36 (de_checksum ?e) = None"
    "Suc (dir_ov_count cell_dir_init) * sizeof_cell_dir_entry \<le> 36" "Suc (dir_ov_count cell_dir_init) < 4096"
    by (simp_all add: dir_map_init empty_dir_spill sizeof_cell_dir_entry_def)
  from dir_insert_correct [OF dir_inv_init this(1) sample_dir_entry this(2-4)]
  show ?thesis by (auto simp: dir_map_init)
qed

text \<open>
  C36: removing a checksum returns whether it was there, takes out exactly that binding, keeps the
  invariant, and never fails an assertion; an absent checksum leaves the directory untouched.
\<close>

theorem dir_delete_correct:
  assumes "dir_inv d m base" "wf_checksum c"
  shows "\<exists>d' m'. cell_dir_remove d m base c = Inr (dir_map d m base c \<noteq> None, d', m') \<and> dir_inv d' m' base \<and>
     dir_map d' m' base = (dir_map d m base)(c := None) \<and> dir_ov_count d' \<le> dir_ov_count d"
proof (cases "dir_map d m base c = None")
  case True
  then have "(dir_map d m base)(c := None) = dir_map d m base" by auto
  with dirs.remove_absent_law [OF assms True] assms(1) True show ?thesis by simp
next
  case False
  from dirs.remove_law [OF assms False] False show ?thesis by auto
qed

theorem dir_delete_correct_witness:
  "\<exists>d1 m1 d2 m2. cell_dir_add cell_dir_init (\<lambda>_. 0) 36 (cell_dir_entry_set cell_dir_entry_init checksum_init 72) = Inr (d1, m1) \<and>
     dir_map d1 m1 36 = [checksum_init \<mapsto> 72] \<and>
     cell_dir_remove d1 m1 36 checksum_init = Inr (True, d2, m2) \<and> dir_map d2 m2 36 = Map.empty"
proof -
  let ?e = "cell_dir_entry_set cell_dir_entry_init checksum_init 72"
  have "entry_is_set ?e" "dir_map cell_dir_init (\<lambda>_. 0) 36 (de_checksum ?e) = None"
    "Suc (dir_ov_count cell_dir_init) * sizeof_cell_dir_entry \<le> 36" "Suc (dir_ov_count cell_dir_init) < 4096"
    by (simp_all add: dir_map_init empty_dir_spill sizeof_cell_dir_entry_def)
  from dirs.add_law [OF dir_inv_init this(1) sample_dir_entry this(2-4)] obtain d1 m1 where
    d1: "cell_dir_add cell_dir_init (\<lambda>_. 0) 36 ?e = Inr (d1, m1)" "dir_inv d1 m1 36" "dir_map d1 m1 36 = [checksum_init \<mapsto> 72]"
    by (auto simp: dir_map_init)
  from dir_delete_correct [OF d1(2) wf_checksum_init] d1 show ?thesis by auto
qed

text \<open>An entry that was inserted is found with its offset, and deleting it restores every answer.\<close>

theorem dir_insert_find_delete:
  assumes "dir_inv d m base" "entry_is_set e" "wf_dir_entry e" "dir_map d m base (de_checksum e) = None"
    and "Suc (dir_ov_count d) * sizeof_cell_dir_entry \<le> base" "Suc (dir_ov_count d) < 4096"
  shows "\<exists>d1 m1 d2 m2 x. cell_dir_add d m base e = Inr (d1, m1) \<and>
     cell_dir_get_chunk d1 m1 base (de_checksum e) e0 = Inr (True, x) \<and>
     de_checksum x = de_checksum e \<and> de_offset x = de_offset e \<and>
     cell_dir_remove d1 m1 base (de_checksum e) = Inr (True, d2, m2) \<and>
     dir_map d2 m2 base = dir_map d m base"
  by (rule dirs.add_get_remove [OF assms])

theorem dir_insert_find_delete_witness:
  "\<exists>d1 m1 x. cell_dir_add cell_dir_init (\<lambda>_. 9) 72 (cell_dir_entry_set cell_dir_entry_init checksum_init 72) =
     Inr (d1, m1) \<and> cell_dir_get_chunk d1 m1 72 checksum_init cell_dir_entry_init = Inr (True, x) \<and>
     de_offset x = 72"
proof -
  let ?e = "cell_dir_entry_set cell_dir_entry_init checksum_init 72"
  have "entry_is_set ?e" "dir_map cell_dir_init (\<lambda>_. 9) 72 (de_checksum ?e) = None"
    "Suc (dir_ov_count cell_dir_init) * sizeof_cell_dir_entry \<le> 72" "Suc (dir_ov_count cell_dir_init) < 4096"
    by (simp_all add: dir_map_init empty_dir_spill sizeof_cell_dir_entry_def)
  from dir_insert_find_delete [OF dir_inv_init this(1) sample_dir_entry this(2-4), of cell_dir_entry_init]
  show ?thesis by auto
qed

end
