(* ===== verification/Cell_IC.thy ===== *)
theory Cell_IC
  imports Theo_Prelude
begin

text \<open>
  \<^verbatim>\<open>cell_ic.h\<close>, \<^verbatim>\<open>cell_ic.c\<close>: the integrity code of a cell.  An update bumps \<open>entry_code\<close> before it
  touches the cell and copies it to \<open>exit_code\<close> when it is done; the \<^verbatim>\<open>__sync_synchronize()\<close>
  barriers make the two stores visible in that order, which is the order of the model's steps.  A
  cell whose codes differ was interrupted in between.
\<close>

record cell_ic =
  entry_code :: u32
  exit_code :: u32

definition cell_ic_init :: cell_ic where
  "cell_ic_init = \<lparr>entry_code = 0, exit_code = 0\<rparr>"

definition cell_ic_sane :: "cell_ic \<Rightarrow> bool" where
  "cell_ic_sane ic \<longleftrightarrow> entry_code ic = exit_code ic"

definition cell_ic_on_entry :: "cell_ic \<Rightarrow> u32 \<times> cell_ic" where
  "cell_ic_on_entry ic =
     (let ic' = ic\<lparr>entry_code := entry_code ic + 1\<rparr> in (entry_code ic', ic'))"

definition cell_ic_on_exit :: "cell_ic \<Rightarrow> u32 \<times> cell_ic" where
  "cell_ic_on_exit ic =
     (let ic' = ic\<lparr>exit_code := entry_code ic\<rparr> in (exit_code ic', ic'))"

lemma sane_init: "cell_ic_sane cell_ic_init"
  by (simp add: cell_ic_sane_def cell_ic_init_def)

text \<open>Also where the 32-bit counter wraps around, one bump makes a sane cell insane.\<close>

lemma on_entry_insane:
  assumes "cell_ic_sane ic"
  shows "\<not> cell_ic_sane (snd (cell_ic_on_entry ic))"
proof -
  have "exit_code ic + 1 \<noteq> exit_code ic" by simp
  with assms show ?thesis by (simp add: cell_ic_sane_def cell_ic_on_entry_def Let_def)
qed

lemma on_exit_sane: "cell_ic_sane (snd (cell_ic_on_exit ic))"
  by (simp add: cell_ic_sane_def cell_ic_on_exit_def Let_def)

end
