(* ===== verification/Cell_Body_Entry.thy ===== *)
theory Cell_Body_Entry
  imports Checksum
begin

text \<open>
  \<^verbatim>\<open>cell_body_entry.h\<close>, \<^verbatim>\<open>cell_body_entry.c\<close>: the header in front of every chunk in the body of a
  cell, a checksum and one 32-bit storage unit of bit-fields (\<^verbatim>\<open>free_space:1\<close>, \<^verbatim>\<open>top_entry:1\<close>,
  \<^verbatim>\<open>size:15\<close>, \<^verbatim>\<open>previous_size:15\<close>, lowest bits first).  Body entries only exist as bytes of the
  slab; \<open>enc_body_entry\<close> and \<open>dec_body_entry\<close> are their layout.
\<close>

record cell_body_entry =
  be_checksum :: checksum
  be_free_space :: u1
  be_top_entry :: u1
  be_size :: u15
  be_previous_size :: u15

definition sizeof_cell_body_entry :: nat where
  "sizeof_cell_body_entry = 36"

definition cell_body_entry_init :: cell_body_entry where
  "cell_body_entry_init =
     \<lparr>be_checksum = checksum_init, be_free_space = 0, be_top_entry = 0, be_size = 0,
      be_previous_size = 0\<rparr>"

definition cell_body_entry_free :: "cell_body_entry \<Rightarrow> bool" where
  "cell_body_entry_free entry \<longleftrightarrow> be_free_space entry = 1"

definition cell_body_entry_top :: "cell_body_entry \<Rightarrow> bool" where
  "cell_body_entry_top entry \<longleftrightarrow> be_top_entry entry = 1"

section \<open>The byte layout\<close>

definition body_entry_word :: "cell_body_entry \<Rightarrow> u32" where
  "body_entry_word e = ucast (be_free_space e) OR push_bit 1 (ucast (be_top_entry e)) OR
     push_bit 2 (ucast (be_size e)) OR push_bit 17 (ucast (be_previous_size e))"

definition enc_body_entry :: "cell_body_entry \<Rightarrow> u8 list" where
  "enc_body_entry e = bytes (be_checksum e) @ le32 (body_entry_word e)"

definition dec_body_entry :: "u8 list \<Rightarrow> cell_body_entry" where
  "dec_body_entry bs =
     (let w = of_le32 (drop 32 bs)
      in \<lparr>be_checksum = \<lparr>bytes = take 32 bs\<rparr>, be_free_space = ucast w,
          be_top_entry = ucast (drop_bit 1 w), be_size = ucast (drop_bit 2 w),
          be_previous_size = ucast (drop_bit 17 w)\<rparr>)"

definition wf_body_entry :: "cell_body_entry \<Rightarrow> bool" where
  "wf_body_entry e \<longleftrightarrow> wf_checksum (be_checksum e)"

abbreviation load_body_entry :: "mem \<Rightarrow> nat \<Rightarrow> cell_body_entry" where
  "load_body_entry \<equiv> load_as dec_body_entry sizeof_cell_body_entry"

abbreviation store_body_entry :: "mem \<Rightarrow> nat \<Rightarrow> cell_body_entry \<Rightarrow> mem" where
  "store_body_entry \<equiv> store_as enc_body_entry"

lemma bit_field_u1:
  "bit (push_bit k (ucast (x :: u1) :: u32)) n \<longleftrightarrow> n < 32 \<and> n = k \<and> bit x 0"
  unfolding bit_push_bit_iff bit_ucast_iff using bit_imp_le_length [of x "n - k"]
  by (cases "n = k") auto

lemma bit_field_u15:
  "bit (push_bit k (ucast (x :: u15) :: u32)) n \<longleftrightarrow> n < 32 \<and> k \<le> n \<and> n < k + 15 \<and> bit x (n - k)"
  unfolding bit_push_bit_iff bit_ucast_iff using bit_imp_le_length [of x "n - k"]
  by auto

lemma bit_body_entry_word:
  "bit (body_entry_word e) n \<longleftrightarrow>
     n = 0 \<and> bit (be_free_space e) 0 \<or> n = 1 \<and> bit (be_top_entry e) 0 \<or>
     2 \<le> n \<and> n < 17 \<and> bit (be_size e) (n - 2) \<or>
     17 \<le> n \<and> n < 32 \<and> bit (be_previous_size e) (n - 17)"
  unfolding body_entry_word_def bit_or_iff bit_field_u15 bit_field_u1
    bit_field_u1 [of 0 "be_free_space e" n, unfolded push_bit_0_id id_apply]
  by (intro disj_cong refl) auto

lemma body_entry_word_fields:
  "ucast (body_entry_word e) = be_free_space e"
  "ucast (drop_bit (Suc 0) (body_entry_word e)) = be_top_entry e"
  "ucast (drop_bit 2 (body_entry_word e)) = be_size e"
  "ucast (drop_bit 17 (body_entry_word e)) = be_previous_size e"
  by (rule bit_word_eqI; simp add: bit_ucast_iff bit_drop_bit_eq bit_body_entry_word)+

interpretation body_entry: struct_layout enc_body_entry dec_body_entry sizeof_cell_body_entry wf_body_entry
proof
  fix e assume "wf_body_entry e"
  then have len: "length (bytes (be_checksum e)) = 32"
    by (simp add: wf_body_entry_def wf_checksum_def CHECKSUM_SIZE_def)
  then show "length (enc_body_entry e) = sizeof_cell_body_entry"
    by (simp add: enc_body_entry_def sizeof_cell_body_entry_def)
  from len show "dec_body_entry (enc_body_entry e) = e"
    by (simp add: dec_body_entry_def enc_body_entry_def Let_def body_entry_word_fields)
next
  fix bs :: "u8 list" assume "length bs = sizeof_cell_body_entry"
  then show "wf_body_entry (dec_body_entry bs)"
    by (simp add: wf_body_entry_def dec_body_entry_def wf_checksum_def CHECKSUM_SIZE_def
        sizeof_cell_body_entry_def Let_def)
qed

lemma wf_checksum_load_body [simp]: "wf_checksum (be_checksum (load_body_entry m a))"
  using body_entry.load_wf [of m a] by (simp add: wf_body_entry_def)

text \<open>
  A body entry written to memory is read back field by field, and no other byte changes; the four
  bit fields (two flags and two 15-bit sizes) share a word without disturbing each other.
\<close>

theorem body_entry_memory_roundtrip:
  assumes "wf_body_entry e"
  shows "load_body_entry (store_body_entry m a e) a = e \<and>
     (\<forall>b. b < a \<or> a + sizeof_cell_body_entry \<le> b \<longrightarrow> store_body_entry m a e b = m b)"
proof (intro conjI allI impI)
  show "load_body_entry (store_body_entry m a e) a = e" by (rule body_entry.load_store_same [OF assms])
next
  fix b assume "b < a \<or> a + sizeof_cell_body_entry \<le> b"
  then have "mem_eq_on b (Suc b) m (store_body_entry m a e)"
    by (intro body_entry.store_eq_on [OF assms]) auto
  then show "store_body_entry m a e b = m b" by (simp add: mem_eq_on_def)
qed

theorem body_entry_memory_roundtrip_witness:
  "load_body_entry (store_body_entry (\<lambda>_. 255) 36 (cell_body_entry_init\<lparr>be_size := 12345, be_top_entry := 1\<rparr>)) 36 =
     cell_body_entry_init\<lparr>be_size := 12345, be_top_entry := 1\<rparr>"
proof -
  have "wf_body_entry (cell_body_entry_init\<lparr>be_size := 12345, be_top_entry := 1\<rparr>)"
    by (simp add: wf_body_entry_def cell_body_entry_init_def)
  from body_entry_memory_roundtrip [OF this, of "\<lambda>_. 255" 36] show ?thesis by blast
qed

end
