(* ===== verification/Cell_Header.thy ===== *)
theory Cell_Header
  imports Cell_Dir Cell_IC Cell_Body_Entry
begin

text \<open>
  \<^verbatim>\<open>cell_header.h\<close>, \<^verbatim>\<open>cell_header.c\<close> and the data of \<^verbatim>\<open>cell_body.h\<close>, \<^verbatim>\<open>cell.h\<close>: the struct at the top
  of a cell's slab, the cell that owns both, and the header's directory and counter updates.

  A cell is a slab of \<open>slab_size\<close> bytes.  Its last \<^verbatim>\<open>sizeof(struct cell_header)\<close> = 28704 bytes are
  the header, kept here as the record \<open>cell_header\<close>; the bytes below it are \<open>slab\<close>, addressed by
  offset.  Every access to \<open>slab\<close> is checked against \<open>header_offset\<close>: one that would reach into the
  header is \<open>OutOfBounds\<close>, so the split of the two regions loses no behaviour of a run that does
  not fail.  \<^verbatim>\<open>cell_header_init\<close> needs \<^verbatim>\<open>cell_body_init\<close> and follows in \<open>Cell_Body\<close>.
\<close>

definition CELL_HEADER_MAGIC :: u32 where
  "CELL_HEADER_MAGIC = 26061973"

record cell_body =
  top_entry_offset :: u32
  next_entry_offset :: u32

record cell_header =
  hdr_magic :: u32
  hdr_entry_count :: u32
  hdr_byte_count :: u32
  hdr_cell_ic :: cell_ic
  hdr_cell_body :: cell_body
  hdr_cell_dir :: cell_dir

text \<open>\<^verbatim>\<open>entry_count\<close> and \<^verbatim>\<open>byte_count\<close> are \<^verbatim>\<open>int32_t\<close>: words whose sign the code reads with \<open>sint\<close>.\<close>

datatype mutex_state = MutexUninitialised | MutexUnlocked | MutexLocked

record cell =
  mutex :: mutex_state
  cell_header :: cell_header
  slab :: mem
  slab_size :: u32

definition sizeof_cell_header :: nat where
  "sizeof_cell_header = 28704"

definition header_offset :: "cell \<Rightarrow> nat" where
  "header_offset c = unat (slab_size c) - sizeof_cell_header"

section \<open>Access to the slab\<close>

definition body_load :: "cell \<Rightarrow> nat \<Rightarrow> cell_body_entry result" where
  "body_load c off =
     (if off + sizeof_cell_body_entry \<le> header_offset c then Inr (load_body_entry (slab c) off)
      else Inl OutOfBounds)"

text \<open>Assignments to fields of the entry at an offset.\<close>

definition body_update :: "cell \<Rightarrow> nat \<Rightarrow> (cell_body_entry \<Rightarrow> cell_body_entry) \<Rightarrow> cell result" where
  "body_update c off f =
     rbind (body_load c off) (\<lambda>e. Inr (c\<lparr>slab := store_body_entry (slab c) off (f e)\<rparr>))"

text \<open>\<^verbatim>\<open>memcpy\<close> of \<open>n\<close> bytes of a caller's buffer into the slab.\<close>

definition slab_memcpy :: "cell \<Rightarrow> nat \<Rightarrow> u8 list \<Rightarrow> nat \<Rightarrow> cell result" where
  "slab_memcpy c off buffer n =
     (if n \<le> length buffer \<and> off + n \<le> header_offset c
      then Inr (c\<lparr>slab := mem_write (slab c) off (take n buffer)\<rparr>)
      else Inl OutOfBounds)"

section \<open>Operations\<close>

definition cell_header_sane :: "cell_header \<Rightarrow> bool" where
  "cell_header_sane h \<longleftrightarrow>
     (if hdr_magic h \<noteq> CELL_HEADER_MAGIC then False else cell_ic_sane (hdr_cell_ic h))"

definition cell_header_bytes_used :: "cell_header \<Rightarrow> u32" where
  "cell_header_bytes_used h =
     of_nat (sizeof_cell_header +
       unat (ovf_overflow_count (overflow (hdr_cell_dir h))) * sizeof_cell_dir_entry)"

definition set_dir :: "cell \<Rightarrow> cell_dir \<Rightarrow> mem \<Rightarrow> cell" where
  "set_dir c dir m = c\<lparr>cell_header := (cell_header c)\<lparr>hdr_cell_dir := dir\<rparr>, slab := m\<rparr>"

text \<open>
  The C function receives a pointer into the body; it is the offset \<open>off\<close>, and the entry is read
  again after the directory has been changed, as \<^verbatim>\<open>cell_body_entry->size\<close> is.
\<close>

definition cell_header_remove :: "cell \<Rightarrow> nat \<Rightarrow> cell result" where
  "cell_header_remove c off =
     rbind (body_load c off) (\<lambda>entry.
     rbind (cell_dir_remove (hdr_cell_dir (cell_header c)) (slab c) (header_offset c) (be_checksum entry))
       (\<lambda>(ret, dir, m).
        ALWAYS ret
          (let c1 = set_dir c dir m;
               count = hdr_entry_count (cell_header c1) - 1
           in ALWAYS (0 < sint count)
                (rbind (body_load c1 off) (\<lambda>entry1.
                   let bytes_left = hdr_byte_count (cell_header c1) - ucast (be_size entry1)
                   in ALWAYS (0 < sint bytes_left)
                        (Inr (c1\<lparr>cell_header := (cell_header c1)
                                   \<lparr>hdr_entry_count := count, hdr_byte_count := bytes_left\<rparr>\<rparr>)))))))"

definition cell_header_add :: "cell \<Rightarrow> cell_dir_entry \<Rightarrow> u32 \<Rightarrow> cell result" where
  "cell_header_add c entry sz =
     rbind (cell_dir_add (hdr_cell_dir (cell_header c)) (slab c) (header_offset c) entry)
       (\<lambda>(dir, m).
        let c1 = set_dir c dir m
        in Inr (c1\<lparr>cell_header := (cell_header c1)
                     \<lparr>hdr_entry_count := hdr_entry_count (cell_header c1) + 1,
                      hdr_byte_count := hdr_byte_count (cell_header c1) + sz\<rparr>\<rparr>))"

definition cell_header_byte_count :: "cell_header \<Rightarrow> u32" where
  "cell_header_byte_count h = hdr_byte_count h"

definition cell_header_entry_count :: "cell_header \<Rightarrow> u32" where
  "cell_header_entry_count h = hdr_entry_count h"

lemma set_dir_simps [simp]:
  "slab_size (set_dir c d m) = slab_size c" "mutex (set_dir c d m) = mutex c"
  "slab (set_dir c d m) = m" "hdr_cell_dir (cell_header (set_dir c d m)) = d"
  "header_offset (set_dir c d m) = header_offset c"
  "hdr_cell_body (cell_header (set_dir c d m)) = hdr_cell_body (cell_header c)"
  "hdr_entry_count (cell_header (set_dir c d m)) = hdr_entry_count (cell_header c)"
  "hdr_byte_count (cell_header (set_dir c d m)) = hdr_byte_count (cell_header c)"
  "hdr_cell_ic (cell_header (set_dir c d m)) = hdr_cell_ic (cell_header c)"
  "hdr_magic (cell_header (set_dir c d m)) = hdr_magic (cell_header c)"
  by (simp_all add: set_dir_def header_offset_def)

lemma header_offset_slab [simp]: "header_offset (c\<lparr>slab := m\<rparr>) = header_offset c"
  by (simp add: header_offset_def)

lemma body_load_bound: "body_load c off = Inr e \<Longrightarrow> off + sizeof_cell_body_entry \<le> header_offset c"
  by (simp add: body_load_def split: if_splits)

lemma cell_header_remove_size: "cell_header_remove c off = Inr c' \<Longrightarrow> slab_size c' = slab_size c"
  by (auto simp: cell_header_remove_def rbind_eq_Inr ALWAYS_eq_Inr Let_def)

end
