(* ===== verification/Cell_Body.thy ===== *)
theory Cell_Body
  imports Cell_Header
begin

text \<open>
  \<^verbatim>\<open>cell_body.c\<close> (and \<^verbatim>\<open>cell_header_init\<close>): the body of a cell, a ring of variable-size entries.
  The entries tile the slab from offset 0 up to \<open>top_entry_offset\<close>, where a marker entry says that
  the rest is unused.  While there is room chunks are appended at the top; after that
  \<open>next_entry_offset\<close> walks the ring from the bottom and evicts what it runs over.

  The pointer \<^verbatim>\<open>cell_body\<close> of the C functions is always \<^verbatim>\<open>&cell->cell_header->cell_body\<close>, so it is not
  a separate argument; a \<^verbatim>\<open>struct cell_body_entry *\<close> is an offset into the slab.
\<close>

abbreviation top_off :: "cell \<Rightarrow> u32" where
  "top_off c \<equiv> top_entry_offset (hdr_cell_body (cell_header c))"

abbreviation next_off :: "cell \<Rightarrow> u32" where
  "next_off c \<equiv> next_entry_offset (hdr_cell_body (cell_header c))"

definition set_top_off :: "cell \<Rightarrow> u32 \<Rightarrow> cell" where
  "set_top_off c v = c\<lparr>cell_header := (cell_header c)
     \<lparr>hdr_cell_body := (hdr_cell_body (cell_header c))\<lparr>top_entry_offset := v\<rparr>\<rparr>\<rparr>"

definition set_next_off :: "cell \<Rightarrow> u32 \<Rightarrow> cell" where
  "set_next_off c v = c\<lparr>cell_header := (cell_header c)
     \<lparr>hdr_cell_body := (hdr_cell_body (cell_header c))\<lparr>next_entry_offset := v\<rparr>\<rparr>\<rparr>"

definition cell_body_set_top :: "cell_body_entry \<Rightarrow> cell_body_entry" where
  "cell_body_set_top entry = entry\<lparr>be_free_space := 1, be_top_entry := 1, be_size := 0\<rparr>"

definition cell_body_init :: "cell \<Rightarrow> cell result" where
  "cell_body_init c =
     rbind (body_update c 0 (\<lambda>e. (cell_body_set_top e)\<lparr>be_previous_size := 0\<rparr>))
       (\<lambda>c1. Inr (set_next_off (set_top_off c1 0) 0))"

definition cell_header_init :: "cell \<Rightarrow> cell result" where
  "cell_header_init c =
     rbind (cell_body_init
       (c\<lparr>cell_header := \<lparr>hdr_magic = 0, hdr_entry_count = 0, hdr_byte_count = 0,
            hdr_cell_ic = cell_ic_init,
            hdr_cell_body = \<lparr>top_entry_offset = 0, next_entry_offset = 0\<rparr>,
            hdr_cell_dir = cell_dir_init\<rparr>\<rparr>))
       (\<lambda>c1. Inr (c1\<lparr>cell_header := (cell_header c1)\<lparr>hdr_magic := CELL_HEADER_MAGIC\<rparr>\<rparr>))"

definition cell_body_write_chunk :: "cell \<Rightarrow> nat \<Rightarrow> checksum \<Rightarrow> u8 list \<Rightarrow> u32 \<Rightarrow> cell result" where
  "cell_body_write_chunk c off checksum buffer buffer_size =
     rbind (body_update c off
              (\<lambda>e. e\<lparr>be_checksum := checksum, be_size := ucast buffer_size, be_free_space := 0\<rparr>))
       (\<lambda>c1. slab_memcpy c1 (off + sizeof_cell_body_entry) buffer (unat buffer_size))"

definition cell_body_free_space :: "cell \<Rightarrow> u32" where
  "cell_body_free_space c =
     (let end_of_body = top_off c + of_nat sizeof_cell_body_entry
      in slab_size c - (end_of_body + cell_header_bytes_used (cell_header c)))"

definition cell_body_add_top ::
    "cell \<Rightarrow> checksum \<Rightarrow> u8 list \<Rightarrow> u32 \<Rightarrow> cell_dir_entry \<Rightarrow> (bool \<times> cell) result" where
  "cell_body_add_top c checksum buffer buffer_size dir_entry =
     (let required_space = buffer_size + of_nat sizeof_cell_body_entry + of_nat sizeof_cell_dir_entry;
          free_space = cell_body_free_space c
      in if free_space < required_space then Inr (False, c)
         else
           let ptr = unat (top_off c) in
           rbind (body_update c ptr (\<lambda>e. e\<lparr>be_free_space := 0, be_top_entry := 0,
                    be_size := ucast buffer_size, be_checksum := checksum\<rparr>)) (\<lambda>c1.
           rbind (slab_memcpy c1 (ptr + sizeof_cell_body_entry) buffer (unat buffer_size)) (\<lambda>c2.
           rbind (cell_header_add c2 (cell_dir_entry_set dir_entry checksum (top_off c2)) buffer_size) (\<lambda>c3.
           rbind (body_update c3 (ptr + sizeof_cell_body_entry + unat buffer_size)
                    (\<lambda>e. (cell_body_set_top e)\<lparr>be_previous_size := ucast buffer_size\<rparr>)) (\<lambda>c4.
           let c5 = set_top_off c4 (top_off c4 + (buffer_size + of_nat sizeof_cell_body_entry))
           in Inr (True, set_next_off c5 (top_off c5)))))))"

text \<open>The result of \<^verbatim>\<open>cell_body_add_top\<close> is not looked at, as in the C code.\<close>

definition cell_body_push_down_top ::
    "cell \<Rightarrow> nat \<Rightarrow> checksum \<Rightarrow> u8 list \<Rightarrow> u32 \<Rightarrow> cell_dir_entry \<Rightarrow> cell result" where
  "cell_body_push_down_top c off checksum buffer buffer_size dir_entry =
     rbind (body_update c off cell_body_set_top) (\<lambda>c1.
     rbind (cell_body_add_top (set_top_off c1 (next_off c1)) checksum buffer buffer_size dir_entry)
       (\<lambda>(_, c2). Inr c2))"

definition cell_body_next_entry_is_top :: "cell \<Rightarrow> nat \<Rightarrow> bool result" where
  "cell_body_next_entry_is_top c off =
     rbind (body_load c off) (\<lambda>e.
     rbind (body_load c (off + unat (be_size e) + sizeof_cell_body_entry)) (\<lambda>e'.
     Inr (cell_body_entry_top e')))"

definition cell_body_add_dir_entry :: "cell \<Rightarrow> cell_dir_entry \<Rightarrow> u32 \<Rightarrow> cell result" where
  "cell_body_add_dir_entry c dir_entry entry_size =
     (if cell_body_free_space c \<ge> of_nat sizeof_cell_dir_entry
      then cell_header_add c dir_entry entry_size
      else
        rbind (body_load c (unat (top_off c))) (\<lambda>top_entry.
        let offset = top_off c - (ucast (be_previous_size top_entry) + of_nat sizeof_cell_body_entry) in
        rbind (body_load c (unat offset)) (\<lambda>below.
        ALWAYS (\<not> cell_body_entry_free below)
          (rbind (cell_header_remove c (unat offset)) (\<lambda>c1.
           rbind (body_update c1 (unat offset) cell_body_set_top) (\<lambda>c2.
           let c3 = set_top_off c2 offset in
           ALWAYS (cell_body_free_space c3 \<ge> of_nat sizeof_cell_dir_entry)
             (cell_header_add c3 dir_entry entry_size)))))))"

subsection \<open>The eviction loop of \<^verbatim>\<open>cell_body_add_offset\<close>\<close>

text \<open>
  \<open>ptr\<close> is the entry reached so far, \<open>free_space\<close> the space gathered.  \<open>None\<close>: the loop ran into
  the top marker; \<open>Some (ptr, free_space)\<close>: it stopped with enough space.  The loop ends because
  every round moves \<open>ptr\<close> up by at least one entry header and no entry is read at or above the
  cell header.
\<close>

lemma rbind_cong [fundef_cong]:
  "r = r' \<Longrightarrow> (\<And>x. r' = Inr x \<Longrightarrow> f x = f' x) \<Longrightarrow> rbind r f = rbind r' f'"
  by (cases r') auto

function cell_body_evict ::
    "cell \<Rightarrow> nat \<Rightarrow> u32 \<Rightarrow> u32 \<Rightarrow> (cell \<times> (nat \<times> u32) option) result" where
  "cell_body_evict c ptr free_space required_space =
     (if free_space < required_space then
        rbind (body_load c ptr) (\<lambda>e.
        rbind (body_load c (ptr + unat (be_size e) + sizeof_cell_body_entry)) (\<lambda>e1.
        if cell_body_entry_top e1 then Inr (c, None)
        else
          rbind (if \<not> cell_body_entry_free e1
                 then cell_header_remove c (ptr + unat (be_size e) + sizeof_cell_body_entry)
                 else Inr c) (\<lambda>c1.
          rbind (body_load c1 (ptr + unat (be_size e) + sizeof_cell_body_entry)) (\<lambda>e2.
          cell_body_evict c1 (ptr + unat (be_size e) + sizeof_cell_body_entry)
            (free_space + (ucast (be_size e2) + of_nat sizeof_cell_body_entry)) required_space))))
      else Inr (c, Some (ptr, free_space)))"
  by pat_completeness auto
termination
proof (relation "measure (\<lambda>(c, ptr, _, _). header_offset c - ptr)", goal_cases)
  case 1
  show ?case by simp
next
  case (2 c ptr free_space required_space e e1 c1 e2)
  let ?p = "ptr + unat (be_size e) + sizeof_cell_body_entry"
  from 2 have "header_offset c1 = header_offset c"
    by (auto simp: header_offset_def dest: cell_header_remove_size split: if_splits)
  moreover from 2 have "?p + sizeof_cell_body_entry \<le> header_offset c"
    by (auto dest: body_load_bound)
  ultimately show ?case by (simp add: sizeof_cell_body_entry_def)
qed

declare cell_body_evict.simps [simp del]

definition cell_body_add_offset ::
    "cell \<Rightarrow> checksum \<Rightarrow> u8 list \<Rightarrow> u32 \<Rightarrow> cell_dir_entry \<Rightarrow> cell result" where
  "cell_body_add_offset c checksum buffer buffer_size dir_entry =
     (let off = unat (next_off c) in
      rbind (body_load c off) (\<lambda>entry.
      rbind (if \<not> cell_body_entry_free entry then cell_header_remove c off else Inr c) (\<lambda>c1.
      rbind (body_update c1 off (\<lambda>e. e\<lparr>be_free_space := 0\<rparr>)) (\<lambda>c2.
      rbind (body_load c2 off) (\<lambda>entry2.
      if ucast (be_size entry2) = buffer_size then
        rbind (cell_body_write_chunk c2 off checksum buffer buffer_size) (\<lambda>c3.
        rbind (cell_body_add_dir_entry c3 (cell_dir_entry_set dir_entry checksum (next_off c3)) buffer_size)
          (\<lambda>c4. Inr (set_next_off c4 (next_off c4 + (of_nat sizeof_cell_body_entry + buffer_size)))))
      else
        let required_space = buffer_size + of_nat sizeof_cell_body_entry in
        rbind (cell_body_evict c2 off (ucast (be_size entry2)) required_space) (\<lambda>(c3, stop).
        case stop of
          None \<Rightarrow> cell_body_push_down_top c3 off checksum buffer buffer_size dir_entry
        | Some (ptr, free_space) \<Rightarrow>
            rbind (cell_body_next_entry_is_top c3 ptr) (\<lambda>is_top.
            if is_top then cell_body_push_down_top c3 off checksum buffer buffer_size dir_entry
            else
              rbind (cell_body_write_chunk c3 off checksum buffer buffer_size) (\<lambda>c4.
              rbind (cell_body_add_dir_entry c4
                       (cell_dir_entry_set dir_entry checksum (next_off c4)) buffer_size) (\<lambda>c5.
              let left = free_space - required_space;
                  c6 = set_next_off c5 (next_off c5 + (of_nat sizeof_cell_body_entry + buffer_size));
                  hole = unat (next_off c6) in
              rbind (body_update c6 hole
                       (\<lambda>e. cell_body_entry_init\<lparr>be_previous_size := ucast buffer_size,
                              be_size := ucast left, be_free_space := 1, be_top_entry := 0\<rparr>)) (\<lambda>c7.
              body_update c7 (hole + sizeof_cell_body_entry + unat left)
                (\<lambda>e. e\<lparr>be_previous_size := ucast left\<rparr>))))))))))) "

definition cell_body_add ::
    "cell \<Rightarrow> checksum \<Rightarrow> u8 list \<Rightarrow> u32 \<Rightarrow> cell_dir_entry \<Rightarrow> cell result" where
  "cell_body_add c checksum buffer buffer_size dir_entry =
     rbind (body_load c (unat (next_off c))) (\<lambda>next_entry.
     if \<not> cell_body_entry_top next_entry
     then cell_body_add_offset c checksum buffer buffer_size dir_entry
     else
       rbind (cell_body_add_top c checksum buffer buffer_size dir_entry) (\<lambda>(added, c1).
       if \<not> added
       then cell_body_add_offset (set_next_off c1 0) checksum buffer buffer_size dir_entry
       else Inr c1))"

lemma set_off_simps [simp]:
  "top_off (set_top_off c v) = v" "next_off (set_top_off c v) = next_off c"
  "top_off (set_next_off c v) = top_off c" "next_off (set_next_off c v) = v"
  "slab (set_top_off c v) = slab c" "slab (set_next_off c v) = slab c"
  "slab_size (set_top_off c v) = slab_size c" "slab_size (set_next_off c v) = slab_size c"
  "mutex (set_top_off c v) = mutex c" "mutex (set_next_off c v) = mutex c"
  "header_offset (set_top_off c v) = header_offset c"
  "header_offset (set_next_off c v) = header_offset c"
  "hdr_cell_dir (cell_header (set_top_off c v)) = hdr_cell_dir (cell_header c)"
  "hdr_cell_dir (cell_header (set_next_off c v)) = hdr_cell_dir (cell_header c)"
  "hdr_entry_count (cell_header (set_top_off c v)) = hdr_entry_count (cell_header c)"
  "hdr_entry_count (cell_header (set_next_off c v)) = hdr_entry_count (cell_header c)"
  "hdr_byte_count (cell_header (set_top_off c v)) = hdr_byte_count (cell_header c)"
  "hdr_byte_count (cell_header (set_next_off c v)) = hdr_byte_count (cell_header c)"
  "hdr_cell_ic (cell_header (set_top_off c v)) = hdr_cell_ic (cell_header c)"
  "hdr_cell_ic (cell_header (set_next_off c v)) = hdr_cell_ic (cell_header c)"
  "hdr_magic (cell_header (set_top_off c v)) = hdr_magic (cell_header c)"
  "hdr_magic (cell_header (set_next_off c v)) = hdr_magic (cell_header c)"
  by (simp_all add: set_top_off_def set_next_off_def header_offset_def)

text \<open>Of the buffer a chunk comes in, only its first \<open>buffer_size\<close> bytes matter.\<close>

lemma slab_memcpy_take: "n \<le> length bs \<Longrightarrow> slab_memcpy c off (take n bs) n = slab_memcpy c off bs n"
  by (simp add: slab_memcpy_def)

lemma body_add_take:
  assumes "unat bs \<le> length buffer"
  shows "cell_body_add c ck (take (unat bs) buffer) bs de = cell_body_add c ck buffer bs de"
proof -
  note cp = slab_memcpy_take [OF assms]
  have top: "cell_body_add_top c ck (take (unat bs) buffer) bs de = cell_body_add_top c ck buffer bs de" for c de
    by (simp add: cell_body_add_top_def cp)
  have push: "cell_body_push_down_top c off ck (take (unat bs) buffer) bs de =
      cell_body_push_down_top c off ck buffer bs de" for c off de
    by (simp only: cell_body_push_down_top_def top)
  have wr: "cell_body_write_chunk c off ck (take (unat bs) buffer) bs = cell_body_write_chunk c off ck buffer bs" for c off
    by (simp only: cell_body_write_chunk_def cp)
  have "cell_body_add_offset c ck (take (unat bs) buffer) bs de = cell_body_add_offset c ck buffer bs de" for c de
    by (simp only: cell_body_add_offset_def push wr)
  then show ?thesis by (simp only: cell_body_add_def top)
qed

end
