(* ===== verification/Cell_Ring.thy ===== *)
theory Cell_Ring
  imports Cell_Body
begin

text \<open>
  The abstract view of a cell body: a ring of items.  An item is an entry of the body together
  with its offset and its data.  \<open>seg\<close> says that a list of items lies in memory from an address on,
  each with the back pointer to the size of its predecessor.  \<open>ring c pre s h post\<close> says that the
  bytes of the cell are

  \<^item> the items \<open>pre\<close> from offset 0 to \<open>next_entry_offset\<close>,
  \<^item> a hole from there to \<open>h\<close>, whose bytes nobody refers to,
  \<^item> the items \<open>post\<close> from \<open>h\<close> to \<open>top_entry_offset\<close> (the first one has back pointer \<open>s\<close>),
  \<^item> the top marker, and unused space up to the overflow area of the directory,

  and that directory and counters describe exactly \<open>pre @ post\<close>.  Between two operations the hole
  is empty or one free entry; inside an operation it is what the eviction loop has gathered.
\<close>

type_synonym item = "nat \<times> cell_body_entry \<times> u8 list"

abbreviation it_off :: "item \<Rightarrow> nat" where "it_off it \<equiv> fst it"
abbreviation it_entry :: "item \<Rightarrow> cell_body_entry" where "it_entry it \<equiv> fst (snd it)"
abbreviation it_data :: "item \<Rightarrow> u8 list" where "it_data it \<equiv> snd (snd it)"
abbreviation it_key :: "item \<Rightarrow> checksum" where "it_key it \<equiv> be_checksum (it_entry it)"
abbreviation it_size :: "item \<Rightarrow> nat" where "it_size it \<equiv> unat (be_size (it_entry it))"

definition it_span :: "item \<Rightarrow> nat" where
  "it_span it = sizeof_cell_body_entry + it_size it"

definition span :: "item list \<Rightarrow> nat" where
  "span its = sum_list (map it_span its)"

fun last_size :: "u15 \<Rightarrow> item list \<Rightarrow> u15" where
  "last_size p [] = p"
| "last_size p (it # its) = last_size (be_size (it_entry it)) its"

fun seg :: "mem \<Rightarrow> nat \<Rightarrow> u15 \<Rightarrow> item list \<Rightarrow> bool" where
  "seg m a p [] \<longleftrightarrow> True"
| "seg m a p (it # its) \<longleftrightarrow>
     it_off it = a \<and> it_entry it = load_body_entry m a \<and> be_top_entry (it_entry it) = 0 \<and>
     be_previous_size (it_entry it) = p \<and>
     it_data it = mem_read m (a + sizeof_cell_body_entry) (it_size it) \<and>
     seg m (a + it_span it) (be_size (it_entry it)) its"

lemma span_simps [simp]:
  "span [] = 0" "span (it # its) = it_span it + span its" "span (xs @ ys) = span xs + span ys"
  by (simp_all add: span_def)

lemma it_span_ge: "sizeof_cell_body_entry \<le> it_span it"
  by (simp add: it_span_def)

lemma last_size_append [simp]: "last_size p (xs @ ys) = last_size (last_size p xs) ys"
  by (induction xs arbitrary: p) auto

lemma seg_append [simp]:
  "seg m a p (xs @ ys) \<longleftrightarrow> seg m a p xs \<and> seg m (a + span xs) (last_size p xs) ys"
  by (induction xs arbitrary: a p) (auto simp: add.assoc)

lemma seg_snocI:
  assumes "seg m a p xs" "seg m (a + span xs) (last_size p xs) (y # ys)"
  shows "seg m a p (xs @ [y])"
  using assms unfolding seg_append seg.simps by blast

lemma seg_eq_on:
  assumes "mem_eq_on lo hi m m'" "lo \<le> a" "a + span its \<le> hi" "seg m a p its"
  shows "seg m' a p its"
  using assms(2-)
proof (induction its arbitrary: a p)
  case Nil
  then show ?case by simp
next
  case (Cons it its)
  from Cons.prems have bounds: "a + sizeof_cell_body_entry \<le> hi"
      "a + sizeof_cell_body_entry + it_size it \<le> hi"
    by (auto simp: it_span_def)
  from Cons.prems(3) have it: "it_off it = a" "it_entry it = load_body_entry m a"
      "be_top_entry (it_entry it) = 0" "be_previous_size (it_entry it) = p"
      "it_data it = mem_read m (a + sizeof_cell_body_entry) (it_size it)"
      "seg m (a + it_span it) (be_size (it_entry it)) its"
    by auto
  have "load_body_entry m a = load_body_entry m' a"
    using body_entry.load_eq_on [OF assms(1)] Cons.prems(1) bounds(1) by blast
  with it(2) have e: "it_entry it = load_body_entry m' a" by (rule trans)
  have "mem_read m (a + sizeof_cell_body_entry) (it_size it) =
      mem_read m' (a + sizeof_cell_body_entry) (it_size it)"
    using Cons.prems(1) bounds(2) by (intro mem_read_eq_on [OF assms(1)]) auto
  with it(5) have d: "it_data it = mem_read m' (a + sizeof_cell_body_entry) (it_size it)" by (rule trans)
  have "seg m' (a + it_span it) (be_size (it_entry it)) its"
    using Cons.prems it(6) by (intro Cons.IH) auto
  then show ?case unfolding seg.simps by (intro conjI it e d)
qed

lemma seg_item_bounds:
  assumes "seg m a p its" "it \<in> set its"
  shows "a \<le> it_off it \<and> it_off it + it_span it \<le> a + span its \<and>
     it_entry it = load_body_entry m (it_off it) \<and>
     it_data it = mem_read m (it_off it + sizeof_cell_body_entry) (it_size it)"
  using assms
proof (induction its arbitrary: a p)
  case Nil
  then show ?case by simp
next
  case (Cons x its)
  show ?case
  proof (cases "it = x")
    case True
    with Cons.prems show ?thesis by simp
  next
    case False
    with Cons.prems have "it \<in> set its" "seg m (a + it_span x) (be_size (it_entry x)) its" by auto
    from Cons.IH [OF this(2,1)] show ?thesis by auto
  qed
qed

section \<open>The ring invariant\<close>

text \<open>
  The sizes for which no field of the layout can overflow: entries of at least 214 bytes keep the
  number of directory entries within the 12-bit overflow counter of a block, and entries of at most
  32732 bytes keep every merged free entry within the 15-bit \<^verbatim>\<open>size\<close> field.  The chunker produces
  2048 to 24576 bytes.
\<close>

definition MIN_ENTRY :: nat where "MIN_ENTRY = 214"
definition MAX_ENTRY :: nat where "MAX_ENTRY = 32732"

definition ok_size :: "nat \<Rightarrow> bool" where
  "ok_size n \<longleftrightarrow> MIN_ENTRY \<le> n \<and> n \<le> MAX_ENTRY"

definition used_item :: "item \<Rightarrow> bool" where
  "used_item it \<longleftrightarrow> be_free_space (it_entry it) = 0 \<and> ok_size (it_size it)"

text \<open>Slab sizes large enough for the eviction argument; the cache uses 1048576.\<close>

definition ok_geometry :: "u32 \<Rightarrow> bool" where
  "ok_geometry sz \<longleftrightarrow> 291000 \<le> unat sz \<and> unat sz \<le> 1048576"

definition item_pair :: "item \<Rightarrow> checksum \<times> u31" where
  "item_pair it = (it_key it, of_nat (it_off it))"

definition item_dir :: "item list \<Rightarrow> checksum \<Rightarrow> u31 option" where
  "item_dir its = map_of (map item_pair its)"

abbreviation cell_dir_of :: "cell \<Rightarrow> cell_dir" where
  "cell_dir_of c \<equiv> hdr_cell_dir (cell_header c)"

abbreviation spill_of :: "cell \<Rightarrow> nat" where
  "spill_of c \<equiv> dir_ov_count (cell_dir_of c)"

definition is_top_marker :: "cell_body_entry \<Rightarrow> u15 \<Rightarrow> bool" where
  "is_top_marker e p \<longleftrightarrow>
     be_top_entry e = 1 \<and> be_free_space e = 1 \<and> be_size e = 0 \<and> be_previous_size e = p"

text \<open>The part of the invariant that is about the bytes.\<close>

definition ring_mem :: "mem \<Rightarrow> nat \<Rightarrow> nat \<Rightarrow> item list \<Rightarrow> u15 \<Rightarrow> nat \<Rightarrow> item list \<Rightarrow> bool" where
  "ring_mem m next topo pre s h post \<longleftrightarrow>
     seg m 0 0 pre \<and> span pre = next \<and> next \<le> h \<and> seg m h s post \<and> h + span post = topo \<and>
     is_top_marker (load_body_entry m topo) (last_size s post)"

text \<open>The part that is about the directory and the counters.\<close>

definition ring_dir :: "cell \<Rightarrow> item list \<Rightarrow> bool" where
  "ring_dir c its \<longleftrightarrow>
     dir_inv (cell_dir_of c) (slab c) (header_offset c) \<and>
     dir_map (cell_dir_of c) (slab c) (header_offset c) = item_dir its \<and>
     distinct (map it_key its) \<and> (\<forall>it \<in> set its. used_item it) \<and>
     unat (hdr_entry_count (cell_header c)) = length its \<and>
     unat (hdr_byte_count (cell_header c)) = sum_list (map it_size its)"

definition ring :: "cell \<Rightarrow> item list \<Rightarrow> u15 \<Rightarrow> nat \<Rightarrow> item list \<Rightarrow> bool" where
  "ring c pre s h post \<longleftrightarrow>
     ok_geometry (slab_size c) \<and>
     ring_mem (slab c) (unat (next_off c)) (unat (top_off c)) pre s h post \<and>
     ring_dir c (pre @ post) \<and>
     unat (top_off c) + sizeof_cell_body_entry + spill_of c * sizeof_cell_dir_entry \<le> header_offset c"

lemma ringI:
  assumes "ok_geometry (slab_size c)"
    and "ring_mem (slab c) (unat (next_off c)) (unat (top_off c)) pre s h post"
    and "ring_dir c (pre @ post)"
    and "unat (top_off c) + 36 + spill_of c * 36 \<le> header_offset c"
  shows "ring c pre s h post"
  using assms by (simp add: ring_def sizeof_cell_body_entry_def sizeof_cell_dir_entry_def)

lemma ringD:
  assumes "ring c pre s h post"
  shows "ok_geometry (slab_size c)"
    "ring_mem (slab c) (unat (next_off c)) (unat (top_off c)) pre s h post" "ring_dir c (pre @ post)"
  using assms by (simp_all add: ring_def)

section \<open>Counting\<close>

lemma span_size: "span its = sizeof_cell_body_entry * length its + sum_list (map it_size its)"
  by (induction its) (simp_all add: it_span_def)

lemma sum_size_bounds:
  assumes "\<forall>it \<in> set its. used_item it"
  shows "MIN_ENTRY * length its \<le> sum_list (map it_size its)"
    and "sum_list (map it_size its) \<le> MAX_ENTRY * length its"
  using assms by (induction its) (auto simp: used_item_def ok_size_def)

lemma span_used_bounds:
  assumes "\<forall>it \<in> set its. used_item it"
  shows "250 * length its \<le> span its" "span its \<le> 32768 * length its"
  using sum_size_bounds [OF assms]
  by (simp_all add: span_size sizeof_cell_body_entry_def MIN_ENTRY_def MAX_ENTRY_def)

lemma header_offset_bounds:
  assumes "ok_geometry (slab_size c)"
  shows "262296 \<le> header_offset c" "header_offset c \<le> 1019872"
    "unat (slab_size c) = header_offset c + sizeof_cell_header"
  using assms by (auto simp: header_offset_def ok_geometry_def sizeof_cell_header_def)

lemma item_dir_dom: "dom (item_dir its) = it_key ` set its"
  by (simp add: item_dir_def dom_map_of_conv_image_fst image_image item_pair_def)

lemma ring_dir_spill:
  assumes "ring_dir c its"
  shows "spill_of c \<le> length its"
proof -
  have dom: "dom (dir_map (cell_dir_of c) (slab c) (header_offset c)) = it_key ` set its"
    using assms by (simp add: ring_dir_def item_dir_dom)
  then have "spill_of c \<le> card (it_key ` set its)"
    using dirs.spill_le [of "cell_dir_of c" "slab c" "header_offset c"] assms
    by (simp add: ring_dir_def)
  also have "\<dots> \<le> length its"
    using card_image_le [of "set its" it_key] card_length [of its] by simp
  finally show ?thesis .
qed

text \<open>What the invariant says about the size of everything, as natural numbers.\<close>

lemma ring_bounds:
  assumes "ring c pre s h post"
  shows "unat (next_off c) \<le> h" "h + span post = unat (top_off c)" "span pre = unat (next_off c)"
    "unat (top_off c) + 36 + spill_of c * 36 \<le> header_offset c"
    "262296 \<le> header_offset c" "header_offset c \<le> 1019872"
    "unat (slab_size c) = header_offset c + 28704"
    "250 * length (pre @ post) \<le> span pre + span post"
    "span pre + span post \<le> 32768 * length (pre @ post)"
    "spill_of c \<le> length (pre @ post)"
proof -
  from assms have geo: "ok_geometry (slab_size c)" and dir: "ring_dir c (pre @ post)"
    by (simp_all add: ring_def)
  show "unat (next_off c) \<le> h" "h + span post = unat (top_off c)" "span pre = unat (next_off c)"
    using assms by (simp_all add: ring_def ring_mem_def)
  show "unat (top_off c) + 36 + spill_of c * 36 \<le> header_offset c"
    using assms by (simp add: ring_def sizeof_cell_body_entry_def sizeof_cell_dir_entry_def)
  show "262296 \<le> header_offset c" "header_offset c \<le> 1019872"
      "unat (slab_size c) = header_offset c + 28704"
    using header_offset_bounds [OF geo] by (simp_all add: sizeof_cell_header_def)
  show "250 * length (pre @ post) \<le> span pre + span post"
      "span pre + span post \<le> 32768 * length (pre @ post)"
    using span_used_bounds [of "pre @ post"] dir by (simp_all add: ring_dir_def)
  show "spill_of c \<le> length (pre @ post)" using ring_dir_spill [OF dir] .
qed

lemma ring_free_space:
  assumes "ring c pre s h post"
  shows "unat (cell_body_free_space c) =
     header_offset c - (unat (top_off c) + 36 + spill_of c * 36)"
proof -
  note b = ring_bounds [OF assms]
  have used: "unat (cell_header_bytes_used (cell_header c)) = 28704 + spill_of c * 36"
    using b by (simp add: cell_header_bytes_used_def sizeof_cell_header_def sizeof_cell_dir_entry_def
        word_nat dir_ov_count_def)
  have "unat (top_off c + 36) = unat (top_off c) + 36" using b by (simp add: word_nat)
  then have sum: "unat (top_off c + 36 + cell_header_bytes_used (cell_header c)) =
      unat (top_off c) + 36 + (28704 + spill_of c * 36)"
    using b used by (subst unat_add_small) simp_all
  then have "unat (slab_size c - (top_off c + 36 + cell_header_bytes_used (cell_header c))) =
      unat (slab_size c) - (unat (top_off c) + 36 + (28704 + spill_of c * 36))"
    using b by (subst unat_sub_small) simp_all
  then show ?thesis using b by (simp add: cell_body_free_space_def Let_def sizeof_cell_body_entry_def)
qed

end
