(* ===== verification/Cell_Ring_Steps.thy ===== *)
theory Cell_Ring_Steps
  imports Cell_Ring
begin

text \<open>
  How the building blocks of \<^verbatim>\<open>cell_header.c\<close> and \<^verbatim>\<open>cell_body.c\<close> act on the ring: taking an item out
  of the directory, writing inside the hole, moving the top down, and putting a new item in.
\<close>

section \<open>What an operation may not touch\<close>

definition same_meta :: "cell \<Rightarrow> cell \<Rightarrow> bool" where
  "same_meta c c' \<longleftrightarrow> mutex c' = mutex c \<and> slab_size c' = slab_size c \<and>
     hdr_magic (cell_header c') = hdr_magic (cell_header c) \<and>
     hdr_cell_ic (cell_header c') = hdr_cell_ic (cell_header c)"

lemma same_meta_refl [simp]: "same_meta c c"
  by (simp add: same_meta_def)

lemma same_meta_trans: "same_meta a b \<Longrightarrow> same_meta b c \<Longrightarrow> same_meta a c"
  by (simp add: same_meta_def)

lemma same_meta_upd [simp]:
  "same_meta c (c\<lparr>slab := m\<rparr>)" "same_meta c (set_top_off c v)" "same_meta c (set_next_off c v)"
  by (simp_all add: same_meta_def)

lemma same_meta_offset: "same_meta c c' \<Longrightarrow> header_offset c' = header_offset c"
  by (simp add: same_meta_def header_offset_def)

section \<open>Removing items from the directory\<close>

lemma item_dir_remove:
  assumes "distinct (map it_key (xs @ it # ys))"
  shows "item_dir (xs @ ys) = (item_dir (xs @ it # ys))(it_key it := None)"
  using map_of_remove_middle [of "map item_pair xs" "it_key it" "of_nat (it_off it)"
      "map item_pair ys"] assms
  by (simp add: item_dir_def comp_def item_pair_def)

lemma item_dir_insert:
  assumes "it_key it \<notin> it_key ` set (xs @ ys)"
  shows "item_dir (xs @ it # ys) = (item_dir (xs @ ys))(it_key it \<mapsto> of_nat (it_off it))"
  using map_of_insert_middle [of "it_key it" "map item_pair xs" "map item_pair ys"
      "of_nat (it_off it)"] assms
  by (simp add: item_dir_def image_image item_pair_def image_Un)

lemma item_dir_mem: "it \<in> set its \<Longrightarrow> item_dir its (it_key it) \<noteq> None"
  using item_dir_dom [of its] by (metis domIff image_eqI)

text \<open>The counters after an item has gone.\<close>

lemma counters_minus:
  assumes ec: "unat (ec :: u32) = length (xs @ it # ys)" and bc: "unat (bc :: u32) = sum_list (map it_size (xs @ it # ys))"
    and used: "\<forall>i \<in> set (xs @ it # ys). used_item i" and more: "xs @ ys \<noteq> []"
    and small: "sum_list (map it_size (xs @ it # ys)) < 2147483648" "length (xs @ it # ys) < 2147483648"
  shows "unat (ec - 1) = length (xs @ ys)" "0 < sint (ec - 1)"
    "unat (bc - ucast (be_size (it_entry it))) = sum_list (map it_size (xs @ ys))"
    "0 < sint (bc - ucast (be_size (it_entry it)))"
proof -
  show ec1: "unat (ec - 1) = length (xs @ ys)" using ec by (simp add: word_nat)
  have "length (xs @ ys) < 2147483648" using small(2) by simp
  then show "0 < sint (ec - 1)" using ec1 more by (subst sint_pos_iff) simp_all
  show bc1: "unat (bc - ucast (be_size (it_entry it))) = sum_list (map it_size (xs @ ys))"
    using bc unat_bound_u15 [of "be_size (it_entry it)"] by (simp add: word_nat)
  have "0 < MIN_ENTRY * length (xs @ ys)" using more by (simp add: MIN_ENTRY_def)
  also have "\<dots> \<le> sum_list (map it_size (xs @ ys))"
    by (rule sum_size_bounds(1)) (use used in auto)
  finally show "0 < sint (bc - ucast (be_size (it_entry it)))"
    using bc1 small(1) by (subst sint_pos_iff) simp_all
qed

text \<open>
  Taking one item out of the directory.  Memory changes only in the overflow area, the counters
  follow, and neither assertion of \<^verbatim>\<open>cell_header_remove\<close> fails as long as another item remains.
\<close>

lemma header_remove_item:
  assumes dir: "ring_dir c (xs @ it # ys)" and more: "xs @ ys \<noteq> []"
    and entry: "it_entry it = load_body_entry (slab c) (it_off it)"
    and low: "it_off it + sizeof_cell_body_entry \<le> header_offset c - spill_of c * sizeof_cell_dir_entry"
    and small: "sum_list (map it_size (xs @ it # ys)) < 2147483648" "length (xs @ it # ys) < 2147483648"
  obtains c' where "cell_header_remove c (it_off it) = Inr c'" "ring_dir c' (xs @ ys)" "same_meta c c'"
    "hdr_cell_body (cell_header c') = hdr_cell_body (cell_header c)"
    "mem_eq_on 0 (header_offset c - spill_of c * sizeof_cell_dir_entry) (slab c) (slab c')"
    "spill_of c' = spill_of c \<or> spill_of c = Suc (spill_of c')"
proof -
  let ?base = "header_offset c" and ?k = "it_key it"
  have inv: "dir_inv (cell_dir_of c) (slab c) ?base" and dist: "distinct (map it_key (xs @ it # ys))"
    and map: "dir_map (cell_dir_of c) (slab c) ?base = item_dir (xs @ it # ys)"
    and ec: "unat (hdr_entry_count (cell_header c)) = length (xs @ it # ys)"
    and bc: "unat (hdr_byte_count (cell_header c)) = sum_list (map it_size (xs @ it # ys))"
    and used: "\<forall>i \<in> set (xs @ it # ys). used_item i"
    using dir by (simp_all add: ring_dir_def)
  have present: "dir_map (cell_dir_of c) (slab c) ?base ?k \<noteq> None"
    using item_dir_mem [of it "xs @ it # ys"] map by simp
  have wf: "wf_checksum ?k" using entry by simp
  from dirs.remove_law [OF inv wf present] obtain d' m' where
    rem: "cell_dir_remove (cell_dir_of c) (slab c) ?base ?k = Inr (True, d', m')"
    and inv': "dir_inv d' m' ?base"
    and map': "dir_map d' m' ?base = (dir_map (cell_dir_of c) (slab c) ?base)(?k := None)"
    and spill: "dir_ov_count d' = spill_of c \<or> spill_of c = Suc (dir_ov_count d')"
    and eq: "mem_eq_on 0 (?base - spill_of c * sizeof_cell_dir_entry) (slab c) m'" by blast
  have load: "body_load c (it_off it) = Inr (it_entry it)"
    using low entry by (simp add: body_load_def)
  have "load_body_entry m' (it_off it) = it_entry it"
    using body_entry.load_eq_on [OF eq, of "it_off it"] low entry by simp
  then have load1: "body_load (set_dir c d' m') (it_off it) = Inr (it_entry it)"
    using low by (simp add: body_load_def)
  note n = counters_minus [OF ec bc used more small]
  let ?c' = "(set_dir c d' m')\<lparr>cell_header := (cell_header (set_dir c d' m'))
      \<lparr>hdr_entry_count := hdr_entry_count (cell_header c) - 1,
       hdr_byte_count := hdr_byte_count (cell_header c) - ucast (be_size (it_entry it))\<rparr>\<rparr>"
  have res: "cell_header_remove c (it_off it) = Inr ?c'"
    by (simp add: cell_header_remove_def load rem load1 Let_def n(2,4))
  have off: "header_offset ?c' = ?base" by (simp add: header_offset_def)
  have "ring_dir ?c' (xs @ ys)"
    using inv' map' map dist used n(1,3) item_dir_remove [OF dist] distinct_map_delete [OF dist]
    unfolding ring_dir_def off by simp
  moreover have "same_meta c ?c'" by (simp add: same_meta_def)
  ultimately show ?thesis using that [OF res] eq spill by simp
qed

section \<open>Adding an item to the directory\<close>

lemma header_add_item:
  assumes dir: "ring_dir c (xs @ ys)" and key: "it_key it \<notin> it_key ` set (xs @ ys)" "wf_checksum (it_key it)"
    and used: "used_item it"
    and off: "it_off it = unat (off :: u32)" "unat off < 2147483648" and sz: "it_size it = unat (sz :: u32)"
    and room: "Suc (spill_of c) * sizeof_cell_dir_entry \<le> header_offset c" "length (xs @ ys) < 4095"
    and small: "sum_list (map it_size (xs @ ys)) < 2147483648"
  obtains c' where "cell_header_add c (cell_dir_entry_set de (it_key it) off) sz = Inr c'"
    "ring_dir c' (xs @ it # ys)" "same_meta c c'"
    "hdr_cell_body (cell_header c') = hdr_cell_body (cell_header c)"
    "mem_eq_on 0 (header_offset c - spill_of c' * sizeof_cell_dir_entry) (slab c) (slab c')"
    "spill_of c' = spill_of c \<or> spill_of c' = Suc (spill_of c)"
proof -
  let ?base = "header_offset c" and ?e = "cell_dir_entry_set de (it_key it) off"
  have inv: "dir_inv (cell_dir_of c) (slab c) ?base" and dist: "distinct (map it_key (xs @ ys))"
    and map: "dir_map (cell_dir_of c) (slab c) ?base = item_dir (xs @ ys)"
    and ec: "unat (hdr_entry_count (cell_header c)) = length (xs @ ys)"
    and bc: "unat (hdr_byte_count (cell_header c)) = sum_list (map it_size (xs @ ys))"
    and used_all: "\<forall>i \<in> set (xs @ ys). used_item i"
    using dir by (simp_all add: ring_dir_def)
  have absent: "dir_map (cell_dir_of c) (slab c) ?base (de_checksum ?e) = None"
    using key(1) map item_dir_dom [of "xs @ ys"] by (metis cell_dir_entry_set_simps(1) domIff)
  have wf: "wf_dir_entry ?e" using key(2) by (simp add: wf_dir_entry_def)
  have "Suc (spill_of c) < 4096" using ring_dir_spill [OF dir] room(2) by simp
  from dirs.add_law [OF inv _ wf absent room(1) this] obtain d' m' where
    add: "cell_dir_add (cell_dir_of c) (slab c) ?base ?e = Inr (d', m')"
    and inv': "dir_inv d' m' ?base"
    and map': "dir_map d' m' ?base =
        (dir_map (cell_dir_of c) (slab c) ?base)(it_key it \<mapsto> ucast off)"
    and spill: "dir_ov_count d' = spill_of c \<or> dir_ov_count d' = Suc (spill_of c)"
    and eq: "mem_eq_on 0 (?base - dir_ov_count d' * sizeof_cell_dir_entry) (slab c) m'" by auto
  have "(of_nat (it_off it) :: u31) = ucast off"
    using off by (simp add: word_unat_eq_iff word_nat)
  then have map_it: "dir_map d' m' ?base = item_dir (xs @ it # ys)"
    using map map' item_dir_insert [OF key(1)] by simp
  let ?c' = "(set_dir c d' m')\<lparr>cell_header := (cell_header (set_dir c d' m'))
      \<lparr>hdr_entry_count := hdr_entry_count (cell_header c) + 1,
       hdr_byte_count := hdr_byte_count (cell_header c) + sz\<rparr>\<rparr>"
  have res: "cell_header_add c ?e sz = Inr ?c'"
    by (simp add: cell_header_add_def add Let_def)
  have ec1: "unat (hdr_entry_count (cell_header c) + 1) = length (xs @ it # ys)"
    using ec room(2) by (simp add: word_nat)
  have "unat sz < 32768" using sz unat_bound_u15 [of "be_size (it_entry it)"] by simp
  then have bc1: "unat (hdr_byte_count (cell_header c) + sz) = sum_list (map it_size (xs @ it # ys))"
    using bc small sz by (simp add: word_nat)
  have "header_offset ?c' = ?base" by (simp add: header_offset_def)
  then have "ring_dir ?c' (xs @ it # ys)"
    using inv' map_it distinct_map_insert [OF dist key(1)] used used_all ec1 bc1
    unfolding ring_dir_def by simp
  moreover have "same_meta c ?c'" by (simp add: same_meta_def)
  ultimately show ?thesis using that [OF res] eq spill by simp
qed

section \<open>Frames\<close>

lemma ring_dir_slab:
  assumes "ring_dir c its"
    and "mem_eq_on (header_offset c - spill_of c * sizeof_cell_dir_entry) (header_offset c) (slab c) m"
  shows "ring_dir (c\<lparr>slab := m\<rparr>) its"
proof -
  have inv: "dir_inv (cell_dir_of c) (slab c) (header_offset c)" using assms(1) by (simp add: ring_dir_def)
  have "header_offset (c\<lparr>slab := m\<rparr>) = header_offset c" by (simp add: header_offset_def)
  then show ?thesis
    using assms(1) dirs.frame_inv [OF inv assms(2)] dirs.frame_lookup [OF inv assms(2)]
    by (simp add: ring_dir_def)
qed

lemma ring_dir_set [simp]:
  "ring_dir (set_top_off c v) its = ring_dir c its" "ring_dir (set_next_off c v) its = ring_dir c its"
  by (simp_all add: ring_dir_def)

lemma is_top_marker_eq_on:
  assumes "mem_eq_on lo hi m m'" "lo \<le> a" "a + sizeof_cell_body_entry \<le> hi"
  shows "is_top_marker (load_body_entry m' a) p = is_top_marker (load_body_entry m a) p"
  using body_entry.load_eq_on [OF assms] by simp

text \<open>Writes inside the hole, or above the top marker, do not disturb the ring.\<close>

lemma ring_mem_hole:
  assumes "ring_mem m next topo pre s h post"
    and "mem_eq_on 0 next m m'" "mem_eq_on h (topo + sizeof_cell_body_entry) m m'"
  shows "ring_mem m' next topo pre s h post"
proof -
  have r: "seg m 0 0 pre" "span pre = next" "next \<le> h" "seg m h s post" "h + span post = topo"
      "is_top_marker (load_body_entry m topo) (last_size s post)"
    using assms(1) by (simp_all add: ring_mem_def)
  have "seg m' 0 0 pre" using r by (intro seg_eq_on [OF assms(2)]) simp_all
  moreover have "seg m' h s post" using r by (intro seg_eq_on [OF assms(3)]) simp_all
  moreover have "is_top_marker (load_body_entry m' topo) (last_size s post)"
    using r is_top_marker_eq_on [OF assms(3), of topo] by simp
  ultimately show ?thesis using r by (simp add: ring_mem_def)
qed

lemma ring_hole_write:
  assumes "ring c pre s h post"
    and "mem_eq_on 0 (unat (next_off c)) (slab c) m" "mem_eq_on h (header_offset c) (slab c) m"
  shows "ring (c\<lparr>slab := m\<rparr>) pre s h post"
proof -
  note b = ring_bounds [OF assms(1)]
  have "ring_dir (c\<lparr>slab := m\<rparr>) (pre @ post)"
    using assms(1) b by (intro ring_dir_slab mem_eq_on_sub [OF assms(3)])
      (simp_all add: ring_def sizeof_cell_dir_entry_def)
  moreover have "ring_mem m (unat (next_off c)) (unat (top_off c)) pre s h post"
    using assms(1) b
    by (intro ring_mem_hole [OF _ assms(2)] mem_eq_on_sub [OF assms(3)])
      (simp_all add: ring_def sizeof_cell_body_entry_def)
  ultimately show ?thesis using assms(1) by (simp add: ring_def header_offset_def)
qed

lemma ring_sums:
  assumes "ring c pre s h post"
  shows "sum_list (map it_size (pre @ post)) < 2147483648" "length (pre @ post) < 4095"
proof -
  note b = ring_bounds [OF assms]
  have "sum_list (map it_size (pre @ post)) \<le> span pre + span post"
    using span_size [of "pre @ post"] by simp
  then show "sum_list (map it_size (pre @ post)) < 2147483648" using b by simp
  show "length (pre @ post) < 4095" using b by simp
qed

section \<open>The ring loses an item\<close>

lemma ring_mem_drop:
  assumes "ring_mem m next topo pre s h (it # post)"
  shows "ring_mem m next topo pre (be_size (it_entry it)) (h + it_span it) post"
  using assms unfolding ring_mem_def seg.simps span_simps last_size.simps
  by (elim conjE, intro conjI) (assumption | arith)+

lemma ring_remove_first:
  assumes ring: "ring c pre s h (it # post)" and more: "pre @ post \<noteq> []"
  obtains c' where "cell_header_remove c h = Inr c'"
    "ring c' pre (be_size (it_entry it)) (h + it_span it) post" "same_meta c c'"
    "hdr_cell_body (cell_header c') = hdr_cell_body (cell_header c)"
    "mem_eq_on 0 (unat (top_off c) + sizeof_cell_body_entry) (slab c) (slab c')"
    "spill_of c' = spill_of c \<or> spill_of c = Suc (spill_of c')"
proof -
  note b = ring_bounds [OF ring]
  have rm: "ring_mem (slab c) (unat (next_off c)) (unat (top_off c)) pre s h (it # post)"
    using ring by (simp add: ring_def)
  then have it: "it_off it = h" "it_entry it = load_body_entry (slab c) h" by (simp_all add: ring_mem_def)
  have "it_off it + sizeof_cell_body_entry \<le> header_offset c - spill_of c * sizeof_cell_dir_entry"
    using b it(1) it_span_ge [of it] by (simp add: sizeof_cell_body_entry_def sizeof_cell_dir_entry_def)
  then obtain c' where c': "cell_header_remove c h = Inr c'" "ring_dir c' (pre @ post)" "same_meta c c'"
    "hdr_cell_body (cell_header c') = hdr_cell_body (cell_header c)"
    "mem_eq_on 0 (header_offset c - spill_of c * sizeof_cell_dir_entry) (slab c) (slab c')"
    "spill_of c' = spill_of c \<or> spill_of c = Suc (spill_of c')"
    using header_remove_item [of c pre it post] more ring ring_sums [OF ring] it
    by (auto simp: ring_def)
  have eq: "mem_eq_on 0 (unat (top_off c) + sizeof_cell_body_entry) (slab c) (slab c')"
    using b by (intro mem_eq_on_sub [OF c'(5)]) (auto simp: sizeof_cell_body_entry_def sizeof_cell_dir_entry_def)
  have "ring_mem (slab c') (unat (next_off c)) (unat (top_off c)) pre s h (it # post)"
    using b by (intro ring_mem_hole [OF rm] mem_eq_on_sub [OF eq]) simp_all
  then have "ring_mem (slab c') (unat (next_off c)) (unat (top_off c)) pre
      (be_size (it_entry it)) (h + it_span it) post"
    by (rule ring_mem_drop)
  then have "ring c' pre (be_size (it_entry it)) (h + it_span it) post"
    using ring c' b same_meta_offset [OF c'(3)]
    by (auto simp: ring_def same_meta_def sizeof_cell_body_entry_def sizeof_cell_dir_entry_def)
  then show ?thesis using that c' eq by blast
qed

lemma ring_top_marker:
  assumes "ring c pre s h post"
  shows "body_load c (unat (top_off c)) = Inr (load_body_entry (slab c) (unat (top_off c)))"
    "is_top_marker (load_body_entry (slab c) (unat (top_off c))) (last_size s post)"
  using assms ring_bounds [OF assms]
  by (simp_all add: ring_def ring_mem_def body_load_def sizeof_cell_body_entry_def)

text \<open>Writing a top marker over an entry keeps its back pointer.\<close>

lemma set_top_marker:
  assumes "off + sizeof_cell_body_entry \<le> header_offset c"
    and "be_previous_size (load_body_entry (slab c) off) = p"
  obtains m where "body_update c off cell_body_set_top = Inr (c\<lparr>slab := m\<rparr>)"
    "is_top_marker (load_body_entry m off) p" "mem_eq_on 0 off (slab c) m"
    "mem_eq_on (off + sizeof_cell_body_entry) (header_offset c) (slab c) m"
proof -
  let ?e = "cell_body_set_top (load_body_entry (slab c) off)"
  let ?m = "store_body_entry (slab c) off ?e"
  have wf: "wf_body_entry ?e" by (simp add: wf_body_entry_def cell_body_set_top_def)
  have "body_update c off cell_body_set_top = Inr (c\<lparr>slab := ?m\<rparr>)"
    using assms(1) by (simp add: body_update_def body_load_def)
  moreover have "is_top_marker (load_body_entry ?m off) p"
    using assms(2) wf by (simp add: body_entry.load_store_same is_top_marker_def cell_body_set_top_def)
  ultimately show ?thesis
    using that wf by (simp add: body_entry.store_eq_on)
qed

text \<open>The last item leaves the directory; its entry stays in memory and becomes the new top marker.\<close>

lemma ring_last_leaves_dir:
  assumes ring: "ring c pre s h (post @ [it])" and more: "pre @ post \<noteq> []"
  obtains c1 where "cell_header_remove c (it_off it) = Inr c1" "ring_dir c1 (pre @ post)" "same_meta c c1"
    "hdr_cell_body (cell_header c1) = hdr_cell_body (cell_header c)"
    "mem_eq_on 0 (it_off it + sizeof_cell_body_entry) (slab c) (slab c1)"
    "spill_of c1 = spill_of c \<or> spill_of c = Suc (spill_of c1)"
    "be_previous_size (load_body_entry (slab c1) (it_off it)) = last_size s post"
    "it_off it = h + span post"
    "it_off it + sizeof_cell_body_entry + spill_of c * sizeof_cell_dir_entry \<le> header_offset c"
proof -
  note b = ring_bounds [OF ring]
  have it: "it_off it = h + span post" "it_entry it = load_body_entry (slab c) (it_off it)"
      "be_previous_size (it_entry it) = last_size s post"
    using ringD(2) [OF ring] by (auto simp: ring_mem_def)
  have low: "it_off it + sizeof_cell_body_entry + spill_of c * sizeof_cell_dir_entry \<le> header_offset c"
    using b it(1) it_span_ge [of it] by (simp add: sizeof_cell_body_entry_def sizeof_cell_dir_entry_def)
  then have "it_off it + sizeof_cell_body_entry \<le> header_offset c - spill_of c * sizeof_cell_dir_entry" by simp
  then obtain c1 where c1: "cell_header_remove c (it_off it) = Inr c1" "ring_dir c1 (pre @ post)" "same_meta c c1"
    "hdr_cell_body (cell_header c1) = hdr_cell_body (cell_header c)"
    "mem_eq_on 0 (header_offset c - spill_of c * sizeof_cell_dir_entry) (slab c) (slab c1)"
    "spill_of c1 = spill_of c \<or> spill_of c = Suc (spill_of c1)"
    using header_remove_item [of c "pre @ post" it "[]"] more ring ring_sums [OF ring] it
    by (auto simp: ring_def)
  have eq: "mem_eq_on 0 (it_off it + sizeof_cell_body_entry) (slab c) (slab c1)"
    using low by (intro mem_eq_on_sub [OF c1(5)]) simp_all
  then have "load_body_entry (slab c1) (it_off it) = it_entry it"
    using body_entry.load_eq_on [OF eq, of "it_off it"] it(2) by simp
  then show ?thesis using that [OF c1(1-4) eq c1(6)] it(1,3) low by simp
qed

lemma ring_remove_last:
  assumes ring: "ring c pre s h (post @ [it])" and more: "pre @ post \<noteq> []"
  obtains c1 m where "cell_header_remove c (it_off it) = Inr c1"
    "body_update c1 (it_off it) cell_body_set_top = Inr (c1\<lparr>slab := m\<rparr>)"
    "ring (set_top_off (c1\<lparr>slab := m\<rparr>) (of_nat (it_off it))) pre s h post"
    "same_meta c c1" "hdr_cell_body (cell_header c1) = hdr_cell_body (cell_header c)"
    "mem_eq_on 0 (it_off it) (slab c) m"
    "spill_of c1 = spill_of c \<or> spill_of c = Suc (spill_of c1)"
proof -
  note b = ring_bounds [OF ring]
  from ring_last_leaves_dir [OF ring more] obtain c1 where
    c1: "cell_header_remove c (it_off it) = Inr c1" "ring_dir c1 (pre @ post)" "same_meta c c1"
      "hdr_cell_body (cell_header c1) = hdr_cell_body (cell_header c)"
      "mem_eq_on 0 (it_off it + sizeof_cell_body_entry) (slab c) (slab c1)"
      "spill_of c1 = spill_of c \<or> spill_of c = Suc (spill_of c1)"
    and prev: "be_previous_size (load_body_entry (slab c1) (it_off it)) = last_size s post"
    and off: "it_off it = h + span post"
      "it_off it + sizeof_cell_body_entry + spill_of c * sizeof_cell_dir_entry \<le> header_offset c" .
  have off1: "header_offset c1 = header_offset c" using same_meta_offset c1(3) .
  have "it_off it + sizeof_cell_body_entry \<le> header_offset c1" using off(2) off1 by simp
  then obtain m where m: "body_update c1 (it_off it) cell_body_set_top = Inr (c1\<lparr>slab := m\<rparr>)"
    "is_top_marker (load_body_entry m (it_off it)) (last_size s post)"
    "mem_eq_on 0 (it_off it) (slab c1) m"
    "mem_eq_on (it_off it + sizeof_cell_body_entry) (header_offset c1) (slab c1) m"
    using set_top_marker [OF _ prev] by blast
  have below: "mem_eq_on 0 (it_off it) (slab c) m"
    by (intro mem_eq_on_trans [OF mem_eq_on_sub [OF c1(5)] m(3)]) auto
  have spill: "spill_of c1 \<le> spill_of c" using c1(6) by auto
  then have room: "it_off it + 36 + spill_of c1 * 36 \<le> header_offset c1"
    using off(2) off1 by (simp add: sizeof_cell_body_entry_def sizeof_cell_dir_entry_def)
  have "ring_dir (c1\<lparr>slab := m\<rparr>) (pre @ post)"
    using room by (intro ring_dir_slab [OF c1(2)] mem_eq_on_sub [OF m(4)])
      (auto simp: sizeof_cell_body_entry_def sizeof_cell_dir_entry_def)
  moreover have "ring_mem m (unat (next_off c)) (it_off it) pre s h post"
  proof -
    have "seg m 0 0 pre" "seg m h s post"
      using ringD(2) [OF ring] b off(1) by (auto simp: ring_mem_def intro!: seg_eq_on [OF below])
    then show ?thesis using ringD(2) [OF ring] m(2) off(1) by (simp add: ring_mem_def)
  qed
  moreover have "unat (of_nat (it_off it) :: u32) = it_off it" using off(2) b by (simp add: word_nat)
  moreover have "ok_geometry (slab_size c1)" using ringD(1) [OF ring] c1(3) by (simp add: same_meta_def)
  ultimately have "ring (set_top_off (c1\<lparr>slab := m\<rparr>) (of_nat (it_off it))) pre s h post"
    using c1(4) room by (intro ringI) simp_all
  then show ?thesis using that c1 m(1) below by blast
qed

text \<open>Everything from the hole on is given up: the top moves down to \<open>next_entry_offset\<close>.\<close>

lemma ring_push_down:
  assumes ring: "ring c pre s h []"
    and prev: "be_previous_size (load_body_entry (slab c) (unat (next_off c))) = last_size 0 pre"
  obtains m where "body_update c (unat (next_off c)) cell_body_set_top = Inr (c\<lparr>slab := m\<rparr>)"
    "ring (set_top_off (c\<lparr>slab := m\<rparr>) (next_off c)) pre (last_size 0 pre) (unat (next_off c)) []"
proof -
  note b = ring_bounds [OF ring]
  have "unat (next_off c) + sizeof_cell_body_entry \<le> header_offset c"
    using b by (simp add: sizeof_cell_body_entry_def)
  then obtain m where m: "body_update c (unat (next_off c)) cell_body_set_top = Inr (c\<lparr>slab := m\<rparr>)"
    "is_top_marker (load_body_entry m (unat (next_off c))) (last_size 0 pre)"
    "mem_eq_on 0 (unat (next_off c)) (slab c) m"
    "mem_eq_on (unat (next_off c) + sizeof_cell_body_entry) (header_offset c) (slab c) m"
    using set_top_marker [OF _ prev] by blast
  have "ring_dir (c\<lparr>slab := m\<rparr>) pre"
    using ring b by (intro ring_dir_slab mem_eq_on_sub [OF m(4)])
      (auto simp: ring_def sizeof_cell_body_entry_def sizeof_cell_dir_entry_def)
  moreover have "ring_mem m (unat (next_off c)) (unat (next_off c)) pre (last_size 0 pre) (unat (next_off c)) []"
    using ring m b by (auto simp: ring_def ring_mem_def intro!: seg_eq_on [OF m(3)])
  moreover have "unat (next_off c) + 36 + spill_of c * 36 \<le> header_offset c" using b by simp
  ultimately have "ring (set_top_off (c\<lparr>slab := m\<rparr>) (next_off c)) pre (last_size 0 pre) (unat (next_off c)) []"
    using ringD(1) [OF ring] by (intro ringI) simp_all
  with m(1) show ?thesis using that by blast
qed

section \<open>The ring gains an item\<close>

text \<open>An entry header is changed in place and its data copied behind it.\<close>

lemma put_entry:
  assumes room: "off + 36 + n \<le> header_offset c" "n \<le> length buffer"
    and wf: "wf_checksum (be_checksum (f (load_body_entry (slab c) off)))"
  obtains m1 m where "body_update c off f = Inr (c\<lparr>slab := m1\<rparr>)"
    "slab_memcpy (c\<lparr>slab := m1\<rparr>) (off + sizeof_cell_body_entry) buffer n = Inr (c\<lparr>slab := m\<rparr>)"
    "load_body_entry m off = f (load_body_entry (slab c) off)"
    "mem_read m (off + sizeof_cell_body_entry) n = take n buffer"
    "mem_eq_on 0 off (slab c) m" "mem_eq_on (off + 36 + n) (header_offset c) (slab c) m"
proof -
  let ?m1 = "store_body_entry (slab c) off (f (load_body_entry (slab c) off))"
  let ?m = "mem_write ?m1 (off + sizeof_cell_body_entry) (take n buffer)"
  have we: "wf_body_entry (f (load_body_entry (slab c) off))" using wf by (simp add: wf_body_entry_def)
  have "body_update c off f = Inr (c\<lparr>slab := ?m1\<rparr>)"
    using room by (simp add: body_update_def body_load_def sizeof_cell_body_entry_def)
  moreover have "slab_memcpy (c\<lparr>slab := ?m1\<rparr>) (off + sizeof_cell_body_entry) buffer n =
      Inr (c\<lparr>slab := ?m\<rparr>)"
    using room by (simp add: slab_memcpy_def sizeof_cell_body_entry_def)
  moreover have "load_body_entry ?m off = f (load_body_entry (slab c) off)"
    using we by (simp add: body_entry.load_write_other body_entry.load_store_same)
  moreover have "mem_read ?m (off + sizeof_cell_body_entry) n = take n buffer"
    using room(2) by simp
  moreover have "mem_eq_on 0 off (slab c) ?m"
    using we by (intro mem_eq_on_write_trans body_entry.store_eq_on) simp_all
  moreover have "mem_eq_on (off + 36 + n) (header_offset c) (slab c) ?m"
    using we room(2) by (intro mem_eq_on_write_trans body_entry.store_eq_on)
      (simp_all add: sizeof_cell_body_entry_def)
  ultimately show ?thesis by (rule that)
qed

text \<open>A complete item at the start of the hole is entered into the directory.\<close>

lemma ring_insert:
  fixes bs :: u32
  assumes ring: "ring c pre s h post" and key: "it_key it \<notin> it_key ` set (pre @ post)"
    and used: "used_item it" and sz: "it_size it = unat bs"
    and seg: "seg (slab c) (unat (next_off c)) (last_size 0 pre) [it]"
    and fits: "unat (next_off c) + it_span it \<le> h"
    and room: "unat (top_off c) + 36 + Suc (spill_of c) * 36 \<le> header_offset c"
  obtains c1 where
    "cell_header_add c (cell_dir_entry_set de (it_key it) (next_off c)) bs = Inr c1"
    "ring (set_next_off c1 (next_off c + (36 + bs))) (pre @ [it]) s h post"
    "same_meta c c1" "hdr_cell_body (cell_header c1) = hdr_cell_body (cell_header c)"
    "mem_eq_on 0 (unat (top_off c) + 36) (slab c) (slab c1)"
proof -
  note b = ring_bounds [OF ring]
  have it: "it_off it = unat (next_off c)" "it_entry it = load_body_entry (slab c) (unat (next_off c))"
    using seg by simp_all
  then have wf: "wf_checksum (it_key it)" by simp
  have "unat (next_off c) < 2147483648" using b by simp
  moreover have "Suc (spill_of c) * sizeof_cell_dir_entry \<le> header_offset c"
    using room by (simp add: sizeof_cell_dir_entry_def)
  ultimately obtain c1 where
    c1: "cell_header_add c (cell_dir_entry_set de (it_key it) (next_off c)) bs = Inr c1"
    "ring_dir c1 (pre @ it # post)" "same_meta c c1"
    "hdr_cell_body (cell_header c1) = hdr_cell_body (cell_header c)"
    "mem_eq_on 0 (header_offset c - spill_of c1 * sizeof_cell_dir_entry) (slab c) (slab c1)"
    "spill_of c1 = spill_of c \<or> spill_of c1 = Suc (spill_of c)"
    using header_add_item [OF ringD(3) [OF ring] key wf used it(1) _ sz _ ring_sums(2) [OF ring]
        ring_sums(1) [OF ring], of de] by blast
  have top1: "unat (top_off c) + 36 + spill_of c1 * 36 \<le> header_offset c"
    using c1(6) room by auto
  then have eq: "mem_eq_on 0 (unat (top_off c) + 36) (slab c) (slab c1)"
    by (intro mem_eq_on_sub [OF c1(5)]) (auto simp: sizeof_cell_dir_entry_def)
  have "ring_mem (slab c1) (unat (next_off c)) (unat (top_off c)) pre s h post"
    using b by (intro ring_mem_hole [OF ringD(2) [OF ring]] mem_eq_on_sub [OF eq])
      (simp_all add: sizeof_cell_body_entry_def)
  moreover have "seg (slab c1) (unat (next_off c)) (last_size 0 pre) [it]"
    using b fits by (intro seg_eq_on [OF eq _ _ seg]) simp_all
  moreover have next1: "unat (next_off c + (36 + bs)) = unat (next_off c) + it_span it"
  proof -
    have "unat bs < 32768" using sz unat_bound_u15 [of "be_size (it_entry it)"] by simp
    then have "unat (36 + bs) = 36 + unat bs" by (simp add: word_nat)
    moreover have "unat (next_off c) + (36 + unat bs) < 4294967296"
      using b \<open>unat bs < 32768\<close> by simp
    ultimately show ?thesis using sz by (simp add: word_nat it_span_def sizeof_cell_body_entry_def)
  qed
  ultimately have "ring_mem (slab c1) (unat (next_off c + (36 + bs))) (unat (top_off c)) (pre @ [it]) s h post"
    using fits by (auto simp: ring_mem_def)
  then have "ring (set_next_off c1 (next_off c + (36 + bs))) (pre @ [it]) s h post"
    using ringD(1) [OF ring] c1 top1 same_meta_offset [OF c1(3)]
    by (intro ringI) (simp_all add: same_meta_def)
  then show ?thesis using that c1 eq by blast
qed

text \<open>The entry behind the hole gets a new back pointer.\<close>

definition with_back :: "u15 \<Rightarrow> item list \<Rightarrow> item list" where
  "with_back p post = (case post of [] \<Rightarrow> []
     | it # its \<Rightarrow> (it_off it, (it_entry it)\<lparr>be_previous_size := p\<rparr>, it_data it) # its)"

lemma with_back_simps [simp]:
  "with_back p [] = []"
  "with_back p (it # its) = (it_off it, (it_entry it)\<lparr>be_previous_size := p\<rparr>, it_data it) # its"
  by (simp_all add: with_back_def)

lemma ring_dir_with_back: "ring_dir c (pre @ with_back p post) = ring_dir c (pre @ post)"
  by (cases post) (simp_all add: ring_dir_def item_dir_def item_pair_def used_item_def)

lemma ring_mem_back_pointer:
  assumes rm: "ring_mem m nxt topo pre s h post"
    and below: "mem_eq_on 0 h m m'" and above: "mem_eq_on (h + 36) (topo + 36) m m'"
    and load: "load_body_entry m' h = (load_body_entry m h)\<lparr>be_previous_size := p\<rparr>"
  shows "ring_mem m' nxt topo pre p h (with_back p post)"
proof -
  have r: "seg m 0 0 pre" "span pre = nxt" "nxt \<le> h" "seg m h s post" "h + span post = topo"
      "is_top_marker (load_body_entry m topo) (last_size s post)"
    using rm by (simp_all add: ring_mem_def)
  have "seg m' h p (with_back p post) \<and> h + span (with_back p post) = topo \<and>
      is_top_marker (load_body_entry m' topo) (last_size p (with_back p post))"
  proof (cases post)
    case Nil
    with r load show ?thesis by (simp add: is_top_marker_def)
  next
    case (Cons it its)
    have it: "it_off it = h" "it_entry it = load_body_entry m h" "be_top_entry (it_entry it) = 0"
        "it_data it = mem_read m (h + sizeof_cell_body_entry) (it_size it)"
        "seg m (h + it_span it) (be_size (it_entry it)) its"
      using r(4) Cons by auto
    have top: "h + it_span it + span its = topo" using r(5) Cons by simp
    have "it_data it = mem_read m' (h + sizeof_cell_body_entry) (it_size it)"
      using it(4) mem_read_eq_on [OF above, of "h + sizeof_cell_body_entry" "it_size it"] top
      by (simp add: sizeof_cell_body_entry_def it_span_def)
    moreover have "seg m' (h + it_span it) (be_size (it_entry it)) its"
      using it(5) top it_span_ge [of it]
      by (intro seg_eq_on [OF above]) (simp_all add: sizeof_cell_body_entry_def)
    moreover have "is_top_marker (load_body_entry m' topo) (last_size s post)"
      using r(6) is_top_marker_eq_on [OF above, of topo] top it_span_ge [of it]
      by (simp add: sizeof_cell_body_entry_def)
    ultimately show ?thesis using Cons load it(1-3) top by (simp add: it_span_def)
  qed
  moreover have "seg m' 0 0 pre" using r by (intro seg_eq_on [OF below]) simp_all
  ultimately show ?thesis using r by (simp add: ring_mem_def)
qed

lemma ring_back_pointer:
  assumes ring: "ring c pre s h post"
  obtains m where "body_update c h (\<lambda>e. e\<lparr>be_previous_size := p\<rparr>) = Inr (c\<lparr>slab := m\<rparr>)"
    "ring (c\<lparr>slab := m\<rparr>) pre p h (with_back p post)" "mem_eq_on 0 h (slab c) m"
proof -
  note b = ring_bounds [OF ring]
  let ?e = "(load_body_entry (slab c) h)\<lparr>be_previous_size := p\<rparr>"
  let ?m = "store_body_entry (slab c) h ?e"
  have wf: "wf_body_entry ?e" by (simp add: wf_body_entry_def)
  have fit: "h + 36 \<le> unat (top_off c) + 36" using b by simp
  have upd: "body_update c h (\<lambda>e. e\<lparr>be_previous_size := p\<rparr>) = Inr (c\<lparr>slab := ?m\<rparr>)"
    using b fit by (simp add: body_update_def body_load_def sizeof_cell_body_entry_def)
  have below: "mem_eq_on 0 h (slab c) ?m" and above: "mem_eq_on (h + 36) x (slab c) ?m" for x
    using wf by (simp_all add: body_entry.store_eq_on sizeof_cell_body_entry_def)
  have load: "load_body_entry ?m h = ?e" using wf by (simp add: body_entry.load_store_same)
  have "ring_dir (c\<lparr>slab := ?m\<rparr>) (pre @ with_back p post)"
    unfolding ring_dir_with_back
    using b fit by (intro ring_dir_slab [OF ringD(3) [OF ring]] mem_eq_on_sub [OF above])
      (simp_all add: sizeof_cell_dir_entry_def)
  then have "ring (c\<lparr>slab := ?m\<rparr>) pre p h (with_back p post)"
    using ring_mem_back_pointer [OF ringD(2) [OF ring] below above load] b(4) ringD(1) [OF ring]
    by (intro ringI) simp_all
  with upd below show ?thesis using that by blast
qed

end
