(* ===== verification/Cell_Body_Correct.thy ===== *)
theory Cell_Body_Correct
  imports Cell_Ring_Steps
begin

text \<open>
  Correctness of the operations of \<^verbatim>\<open>cell_body.c\<close> on rings: appending at the top, making room for a
  directory entry, the eviction loop, replacing at the offset, and \<^verbatim>\<open>cell_body_add\<close> as a whole.
\<close>

definition chunk_ok :: "checksum \<Rightarrow> u8 list \<Rightarrow> u32 \<Rightarrow> bool" where
  "chunk_ok checksum buffer buffer_size \<longleftrightarrow>
     wf_checksum checksum \<and> ok_size (unat buffer_size) \<and> unat buffer_size \<le> length buffer"

definition holds_chunk :: "item \<Rightarrow> checksum \<Rightarrow> u8 list \<Rightarrow> u32 \<Rightarrow> bool" where
  "holds_chunk it checksum buffer buffer_size \<longleftrightarrow>
     used_item it \<and> it_key it = checksum \<and> it_size it = unat buffer_size \<and>
     it_data it = take (unat buffer_size) buffer"

lemma chunk_ok_bounds:
  assumes "chunk_ok ck buffer bs"
  shows "214 \<le> unat bs" "unat bs \<le> 32732" "unat bs \<le> length buffer" "wf_checksum ck"
    "unat (ucast bs :: u15) = unat bs" "unat (bs + 36) = unat bs + 36" "unat (bs + 72) = unat bs + 72"
    "unat (36 + bs) = 36 + unat bs"
  using assms by (simp_all add: chunk_ok_def ok_size_def MIN_ENTRY_def MAX_ENTRY_def word_nat)

section \<open>Appending at the top\<close>

lemma add_top_no_room:
  assumes "ring c pre s h post" "chunk_ok ck buffer bs"
    and "header_offset c < unat (top_off c) + 36 + spill_of c * 36 + (unat bs + 72)"
  shows "cell_body_add_top c ck buffer bs de = Inr (False, c)"
proof -
  have "unat (cell_body_free_space c) < unat (bs + 72)"
    using ring_free_space [OF assms(1)] chunk_ok_bounds [OF assms(2)] assms(3) ring_bounds(4) [OF assms(1)]
    by simp
  then show ?thesis
    by (simp add: cell_body_add_top_def Let_def sizeof_cell_body_entry_def sizeof_cell_dir_entry_def
        word_less_nat_alt add.assoc)
qed

text \<open>A fresh top marker behind a complete run of items.\<close>

lemma new_top_marker:
  assumes geo: "ok_geometry (slab_size c)" and dir: "ring_dir c its" and seg: "seg (slab c) 0 0 its"
    and fit: "span its + 36 + spill_of c * 36 \<le> header_offset c"
    and last: "last_size 0 its = sz" and q: "unat q = span its"
  obtains m where
    "body_update c (span its) (\<lambda>e. (cell_body_set_top e)\<lparr>be_previous_size := sz\<rparr>) = Inr (c\<lparr>slab := m\<rparr>)"
    "ring (set_next_off (set_top_off (c\<lparr>slab := m\<rparr>) q) q) its sz (span its) []"
proof -
  let ?e = "(cell_body_set_top (load_body_entry (slab c) (span its)))\<lparr>be_previous_size := sz\<rparr>"
  let ?m = "store_body_entry (slab c) (span its) ?e"
  have wf: "wf_body_entry ?e" by (simp add: wf_body_entry_def cell_body_set_top_def)
  have upd: "body_update c (span its) (\<lambda>e. (cell_body_set_top e)\<lparr>be_previous_size := sz\<rparr>) = Inr (c\<lparr>slab := ?m\<rparr>)"
    using fit by (simp add: body_update_def body_load_def sizeof_cell_body_entry_def)
  have "seg ?m 0 0 its"
    using seg_eq_on [OF body_entry.store_eq_on [OF wf], of "span its" "span its" 0] seg by simp
  moreover have "is_top_marker (load_body_entry ?m (span its)) sz"
    using wf by (simp add: body_entry.load_store_same is_top_marker_def cell_body_set_top_def)
  ultimately have "ring_mem ?m (span its) (span its) its sz (span its) []"
    by (simp add: ring_mem_def)
  moreover have "ring_dir (c\<lparr>slab := ?m\<rparr>) its"
    using fit by (intro ring_dir_slab [OF dir] body_entry.store_eq_on [OF wf])
      (simp add: sizeof_cell_dir_entry_def sizeof_cell_body_entry_def)
  ultimately have "ring (set_next_off (set_top_off (c\<lparr>slab := ?m\<rparr>) q) q) its sz (span its) []"
    using geo fit q by (intro ringI) simp_all
  with upd show ?thesis using that by blast
qed

text \<open>The item written over the old top marker, and the directory entry for it.\<close>

lemma write_at_top:
  assumes ring: "ring c pre (last_size 0 pre) (unat (top_off c)) []" and nxt: "next_off c = top_off c"
    and ok: "chunk_ok ck buffer bs" and key: "ck \<notin> it_key ` set pre"
    and room: "unat (top_off c) + 36 + spill_of c * 36 + (unat bs + 72) \<le> header_offset c"
  obtains c1 c2 c3 it where
    "body_update c (unat (top_off c)) (\<lambda>e. e\<lparr>be_free_space := 0, be_top_entry := 0,
        be_size := ucast bs, be_checksum := ck\<rparr>) = Inr c1"
    "slab_memcpy c1 (unat (top_off c) + sizeof_cell_body_entry) buffer (unat bs) = Inr c2"
    "cell_header_add c2 (cell_dir_entry_set de ck (top_off c2)) bs = Inr c3"
    "holds_chunk it ck buffer bs" "ring_dir c3 (pre @ [it])" "seg (slab c3) 0 0 (pre @ [it])"
    "span (pre @ [it]) = unat (top_off c) + 36 + unat bs" "be_size (it_entry it) = ucast bs"
    "same_meta c c3" "top_off c3 = top_off c" "spill_of c3 \<le> Suc (spill_of c)"
proof -
  note b = ring_bounds [OF ring] and k = chunk_ok_bounds [OF ok]
  let ?ptr = "unat (top_off c)" and ?n = "unat bs"
  let ?f = "\<lambda>e. e\<lparr>be_free_space := 0, be_top_entry := 0, be_size := ucast bs, be_checksum := ck\<rparr>"
  let ?it = "(?ptr, ?f (load_body_entry (slab c) ?ptr), take ?n buffer)"
  have "?ptr + 36 + ?n \<le> header_offset c" using room by simp
  then obtain m1 m2 where
    m1: "body_update c ?ptr ?f = Inr (c\<lparr>slab := m1\<rparr>)"
      "slab_memcpy (c\<lparr>slab := m1\<rparr>) (?ptr + sizeof_cell_body_entry) buffer ?n = Inr (c\<lparr>slab := m2\<rparr>)"
    and m2: "load_body_entry m2 ?ptr = ?f (load_body_entry (slab c) ?ptr)"
      "mem_read m2 (?ptr + sizeof_cell_body_entry) ?n = take ?n buffer"
      "mem_eq_on 0 ?ptr (slab c) m2" "mem_eq_on (?ptr + 36 + ?n) (header_offset c) (slab c) m2"
    using put_entry [of ?ptr ?n c buffer ?f] k by auto
  let ?c2 = "c\<lparr>slab := m2\<rparr>"
  have rd2: "ring_dir ?c2 (pre @ [])"
    using ringD(3) [OF ring] room
    by (intro ring_dir_slab mem_eq_on_sub [OF m2(4)]) (simp_all add: sizeof_cell_dir_entry_def)
  have holds: "holds_chunk ?it ck buffer bs"
    using ok k by (simp add: holds_chunk_def used_item_def chunk_ok_def)
  have "Suc (spill_of ?c2) * sizeof_cell_dir_entry \<le> header_offset ?c2"
    using room by (simp add: sizeof_cell_dir_entry_def)
  then obtain c3 where
    c3: "cell_header_add ?c2 (cell_dir_entry_set de ck (top_off c)) bs = Inr c3"
    "ring_dir c3 (pre @ [?it])" "same_meta ?c2 c3"
    "hdr_cell_body (cell_header c3) = hdr_cell_body (cell_header c)"
    "mem_eq_on 0 (header_offset c - spill_of c3 * sizeof_cell_dir_entry) m2 (slab c3)"
    "spill_of c3 = spill_of c \<or> spill_of c3 = Suc (spill_of c)"
    using header_add_item [OF rd2, of ?it "top_off c" bs de] holds key k b ring_sums [OF ring]
    by (auto simp: holds_chunk_def)
  have p: "seg (slab c) 0 0 pre" "span pre = ?ptr"
      "is_top_marker (load_body_entry (slab c) ?ptr) (last_size 0 pre)"
    using ringD(2) [OF ring] nxt by (simp_all add: ring_mem_def)
  then have sp: "span (pre @ [?it]) = ?ptr + 36 + ?n"
    using k by (simp add: it_span_def sizeof_cell_body_entry_def)
  have "seg m2 0 0 pre" using p by (intro seg_eq_on [OF m2(3)]) simp_all
  then have sg2: "seg m2 0 0 (pre @ [?it])" using m2 p k by (simp add: is_top_marker_def)
  have "0 + span (pre @ [?it]) \<le> header_offset c - spill_of c3 * sizeof_cell_dir_entry"
    using sp c3(6) room by (auto simp: sizeof_cell_dir_entry_def)
  from seg_eq_on [OF c3(5) le0 this sg2] have sg: "seg (slab c3) 0 0 (pre @ [?it])" .
  have "same_meta c c3" using c3(3) by (simp add: same_meta_def)
  then show ?thesis
    using that [OF m1, of c3 ?it] c3 holds sg sp by auto
qed

lemma add_top_room:
  assumes ring: "ring c pre (last_size 0 pre) (unat (top_off c)) []" and nxt: "next_off c = top_off c"
    and ok: "chunk_ok ck buffer bs" and key: "ck \<notin> it_key ` set pre"
    and room: "unat (top_off c) + 36 + spill_of c * 36 + (unat bs + 72) \<le> header_offset c"
  obtains c' it where "cell_body_add_top c ck buffer bs de = Inr (True, c')"
    "ring c' (pre @ [it]) (last_size 0 (pre @ [it])) (unat (top_off c')) []" "next_off c' = top_off c'"
    "holds_chunk it ck buffer bs" "same_meta c c'"
proof -
  note k = chunk_ok_bounds [OF ok]
  from write_at_top [OF assms, of de] obtain c1 c2 c3 it where
    steps: "body_update c (unat (top_off c)) (\<lambda>e. e\<lparr>be_free_space := 0, be_top_entry := 0,
        be_size := ucast bs, be_checksum := ck\<rparr>) = Inr c1"
      "slab_memcpy c1 (unat (top_off c) + sizeof_cell_body_entry) buffer (unat bs) = Inr c2"
      "cell_header_add c2 (cell_dir_entry_set de ck (top_off c2)) bs = Inr c3"
    and it: "holds_chunk it ck buffer bs" "ring_dir c3 (pre @ [it])" "seg (slab c3) 0 0 (pre @ [it])"
      "span (pre @ [it]) = unat (top_off c) + 36 + unat bs" "be_size (it_entry it) = ucast bs"
    and c3: "same_meta c c3" "top_off c3 = top_off c" "spill_of c3 \<le> Suc (spill_of c)" .
  let ?q = "top_off c + (bs + 36)"
  have q: "unat ?q = span (pre @ [it])"
    using it(4) k ring_bounds [OF ring] by (simp add: word_nat)
  have "span (pre @ [it]) + 36 + spill_of c3 * 36 \<le> header_offset c3"
    using it(4) c3(3) room same_meta_offset [OF c3(1)] by simp
  moreover have "ok_geometry (slab_size c3)" using c3(1) ringD(1) [OF ring] by (simp add: same_meta_def)
  ultimately obtain m where m:
    "body_update c3 (span (pre @ [it])) (\<lambda>e. (cell_body_set_top e)\<lparr>be_previous_size := ucast bs\<rparr>) = Inr (c3\<lparr>slab := m\<rparr>)"
    "ring (set_next_off (set_top_off (c3\<lparr>slab := m\<rparr>) ?q) ?q) (pre @ [it]) (ucast bs) (span (pre @ [it])) []"
    using new_top_marker [OF _ it(2,3), of "ucast bs" ?q] it(5) q by auto
  let ?c' = "set_next_off (set_top_off (c3\<lparr>slab := m\<rparr>) ?q) ?q"
  have "\<not> cell_body_free_space c < bs + 72"
    using ring_free_space [OF ring] k room by (simp add: word_less_nat_alt)
  then have "cell_body_add_top c ck buffer bs de = Inr (True, ?c')"
    using steps m(1) it(4) c3(2)
    by (simp add: cell_body_add_top_def Let_def sizeof_cell_body_entry_def sizeof_cell_dir_entry_def
        add.assoc add.commute)
  moreover have "same_meta c ?c'" using c3(1) by (simp add: same_meta_def)
  ultimately show ?thesis using that [of ?c' it] m(2) q it(1,5) by simp
qed

section \<open>Making room for the directory entry\<close>

text \<open>
  The situation in which \<^verbatim>\<open>cell_body_add_dir_entry\<close> is called: the new item is complete in memory at
  the start of the hole, but the directory does not know it yet.
\<close>

definition new_in_hole :: "cell \<Rightarrow> item list \<Rightarrow> nat \<Rightarrow> item list \<Rightarrow> item \<Rightarrow> u32 \<Rightarrow> bool" where
  "new_in_hole c pre h post it bs \<longleftrightarrow>
     seg (slab c) (unat (next_off c)) (last_size 0 pre) [it] \<and> used_item it \<and> it_size it = unat bs \<and>
     it_key it \<notin> it_key ` set (pre @ post) \<and> unat (next_off c) + it_span it \<le> h"

lemma new_in_holeD:
  assumes "new_in_hole c pre h post it bs"
  shows "it_key it \<notin> it_key ` set (pre @ post)" "used_item it" "it_size it = unat bs"
    "seg (slab c) (unat (next_off c)) (last_size 0 pre) [it]" "unat (next_off c) + it_span it \<le> h"
  using assms unfolding new_in_hole_def by blast+

lemma free_space_ge_36:
  assumes "ring c pre s h post"
  shows "(36 \<le> cell_body_free_space c) \<longleftrightarrow> unat (top_off c) + 36 + Suc (spill_of c) * 36 \<le> header_offset c"
  using ring_free_space [OF assms] ring_bounds(4) [OF assms] by (auto simp: word_le_nat_alt)

lemma add_dir_entry_room:
  assumes ring: "ring c pre s h post" and new: "new_in_hole c pre h post it bs"
    and room: "unat (top_off c) + 36 + Suc (spill_of c) * 36 \<le> header_offset c"
  obtains c1 where
    "cell_body_add_dir_entry c (cell_dir_entry_set de (it_key it) (next_off c)) bs = Inr c1"
    "ring (set_next_off c1 (next_off c + (36 + bs))) (pre @ [it]) s h post"
    "same_meta c c1" "hdr_cell_body (cell_header c1) = hdr_cell_body (cell_header c)"
proof -
  have "36 \<le> cell_body_free_space c" using free_space_ge_36 [OF ring] room by simp
  then have "cell_body_add_dir_entry c e bs = cell_header_add c e bs" for e
    by (simp add: cell_body_add_dir_entry_def sizeof_cell_dir_entry_def)
  then show ?thesis
    using ring_insert [OF ring new_in_holeD [OF new] room, of de] that by metis
qed

text \<open>The entry below the top is found through the back pointer of the top marker.\<close>

lemma below_top_offset:
  assumes ring: "ring c pre s h (post @ [x])"
  shows "top_off c - (ucast (be_previous_size (load_body_entry (slab c) (unat (top_off c)))) + 36) =
     of_nat (it_off x)" "unat (of_nat (it_off x) :: u32) = it_off x"
    "body_load c (it_off x) = Inr (it_entry x)" "\<not> cell_body_entry_free (it_entry x)"
proof -
  note b = ring_bounds [OF ring]
  have x: "it_off x = h + span post" "it_entry x = load_body_entry (slab c) (it_off x)"
    using ringD(2) [OF ring] by (auto simp: ring_mem_def)
  have prev: "be_previous_size (load_body_entry (slab c) (unat (top_off c))) = be_size (it_entry x)"
    using ring_top_marker(2) [OF ring] by (simp add: is_top_marker_def)
  have sz: "unat (ucast (be_size (it_entry x)) :: u32) = it_size x"
    using unat_bound_u15 [of "be_size (it_entry x)"] by (simp add: word_nat)
  then have bk: "unat (ucast (be_size (it_entry x)) + 36 :: u32) = it_size x + 36"
    using unat_bound_u15 [of "be_size (it_entry x)"] by (simp add: word_nat)
  have top: "unat (top_off c) = it_off x + (it_size x + 36)"
    using b x(1) by (simp add: it_span_def sizeof_cell_body_entry_def)
  show off: "unat (of_nat (it_off x) :: u32) = it_off x" using top b by (simp add: word_nat)
  show "top_off c - (ucast (be_previous_size (load_body_entry (slab c) (unat (top_off c)))) + 36) =
      of_nat (it_off x)"
    unfolding prev word_unat_eq_iff off using top bk by (simp add: word_nat)
  show "body_load c (it_off x) = Inr (it_entry x)"
    using top b x(2) by (simp add: body_load_def sizeof_cell_body_entry_def)
  have "used_item x" using ringD(3) [OF ring] by (simp add: ring_dir_def)
  then show "\<not> cell_body_entry_free (it_entry x)" by (simp add: used_item_def cell_body_entry_free_def)
qed

lemma add_dir_entry_evicts:
  assumes ring: "ring c pre s h (post @ [x])" and new: "new_in_hole c pre h (post @ [x]) it bs"
    and full: "header_offset c < unat (top_off c) + 36 + Suc (spill_of c) * 36"
    and more: "pre @ post \<noteq> []"
  obtains c1 where
    "cell_body_add_dir_entry c (cell_dir_entry_set de (it_key it) (next_off c)) bs = Inr c1"
    "ring (set_next_off c1 (next_off c + (36 + bs))) (pre @ [it]) s h post"
    "same_meta c c1" "next_off c1 = next_off c"
proof -
  from ring_remove_last [OF ring more] obtain c1 m where
    rem: "cell_header_remove c (it_off x) = Inr c1"
    and upd: "body_update c1 (it_off x) cell_body_set_top = Inr (c1\<lparr>slab := m\<rparr>)"
    and ring1: "ring (set_top_off (c1\<lparr>slab := m\<rparr>) (of_nat (it_off x))) pre s h post"
    and c1: "same_meta c c1" "hdr_cell_body (cell_header c1) = hdr_cell_body (cell_header c)"
      "mem_eq_on 0 (it_off x) (slab c) m"
      "spill_of c1 = spill_of c \<or> spill_of c = Suc (spill_of c1)" .
  let ?c3 = "set_top_off (c1\<lparr>slab := m\<rparr>) (of_nat (it_off x))"
  note off = below_top_offset [OF ring]
  have "h \<le> it_off x" using ringD(2) [OF ring] by (auto simp: ring_mem_def)
  then have "seg m (unat (next_off c)) (last_size 0 pre) [it]"
    using new by (intro seg_eq_on [OF c1(3)]) (auto simp: new_in_hole_def)
  then have new3: "new_in_hole ?c3 pre h post it bs"
    using new_in_holeD [OF new] c1(2) by (simp add: new_in_hole_def del: seg.simps)
  have room: "unat (top_off ?c3) + 36 + Suc (spill_of ?c3) * 36 \<le> header_offset ?c3"
    using ring_bounds(2,4) [OF ring] ring_bounds(2) [OF ring1] c1(4) off(2) it_span_ge [of x]
      same_meta_offset [OF c1(1)]
    by (auto simp: sizeof_cell_body_entry_def)
  then have enough: "36 \<le> cell_body_free_space ?c3" using free_space_ge_36 [OF ring1] by simp
  from ring_insert [OF ring1 new_in_holeD [OF new3] room, of de] obtain c4 where
    c4: "cell_header_add ?c3 (cell_dir_entry_set de (it_key it) (next_off ?c3)) bs = Inr c4"
      "ring (set_next_off c4 (next_off ?c3 + (36 + bs))) (pre @ [it]) s h post"
      "same_meta ?c3 c4" "hdr_cell_body (cell_header c4) = hdr_cell_body (cell_header ?c3)" by blast
  have "\<not> 36 \<le> cell_body_free_space c" using free_space_ge_36 [OF ring] full by simp
  then have "cell_body_add_dir_entry c (cell_dir_entry_set de (it_key it) (next_off c)) bs = Inr c4"
    using ring_top_marker(1) [OF ring] off rem upd enough c4(1) c1(2)
    by (simp add: cell_body_add_dir_entry_def sizeof_cell_dir_entry_def sizeof_cell_body_entry_def Let_def)
  moreover have "same_meta c c4" using c1(1) c4(3) by (simp add: same_meta_def)
  ultimately show ?thesis using that [of c4] c4(2,4) c1(2) by simp
qed

text \<open>
  When the new item itself is the entry below the top, the code deletes it before it is in the
  directory, and the assertion of \<^verbatim>\<open>cell_header_remove\<close> fails.
\<close>

lemma add_dir_entry_self:
  assumes ring: "ring c pre (be_size (it_entry it)) h []" and new: "new_in_hole c pre h [] it bs"
    and full: "header_offset c < unat (top_off c) + 36 + Suc (spill_of c) * 36"
    and last: "h = unat (next_off c) + it_span it"
  shows "cell_body_add_dir_entry c de bs = Inl AssertFailed"
proof -
  note b = ring_bounds [OF ring]
  let ?m = "load_body_entry (slab c) (unat (top_off c))"
  have it: "it_entry it = load_body_entry (slab c) (unat (next_off c))" "used_item it"
    "it_key it \<notin> it_key ` set pre" "it_off it = unat (next_off c)"
    using new_in_holeD(1,2) [OF new] new_in_holeD(4) [OF new] by simp_all
  have top: "unat (top_off c) = unat (next_off c) + (it_size it + 36)"
    using b last by (simp add: it_span_def sizeof_cell_body_entry_def)
  have bk: "unat (ucast (be_size (it_entry it)) + 36 :: u32) = it_size it + 36"
    using unat_bound_u15 [of "be_size (it_entry it)"] by (simp add: word_nat)
  have prev: "be_previous_size ?m = be_size (it_entry it)"
    using ring_top_marker(2) [OF ring] by (simp add: is_top_marker_def)
  have off: "top_off c - (ucast (be_previous_size ?m) + 36) = next_off c"
    unfolding prev word_unat_eq_iff using top bk by (simp add: word_nat)
  have load: "body_load c (unat (next_off c)) = Inr (it_entry it)"
    using top b it(1) by (simp add: body_load_def sizeof_cell_body_entry_def)
  have inv: "dir_inv (cell_dir_of c) (slab c) (header_offset c)"
    and "dir_map (cell_dir_of c) (slab c) (header_offset c) (it_key it) = None"
    using ringD(3) [OF ring] it(3) item_dir_dom [of pre] by (auto simp: ring_dir_def domIff)
  then have "cell_dir_remove (cell_dir_of c) (slab c) (header_offset c) (it_key it) =
      Inr (False, cell_dir_of c, slab c)"
    using it(1) by (intro dirs.remove_absent_law) simp_all
  then have "cell_header_remove c (unat (next_off c)) = Inl AssertFailed"
    by (simp add: cell_header_remove_def load)
  moreover have "\<not> 36 \<le> cell_body_free_space c" using free_space_ge_36 [OF ring] full by simp
  moreover have "\<not> cell_body_entry_free (it_entry it)"
    using it(2) by (simp add: used_item_def cell_body_entry_free_def)
  ultimately show ?thesis
    using ring_top_marker(1) [OF ring] off load
    by (simp add: cell_body_add_dir_entry_def sizeof_cell_dir_entry_def sizeof_cell_body_entry_def Let_def)
qed

end
