(* ===== verification/Cell_Body_Evict.thy ===== *)
theory Cell_Body_Evict
  imports Cell_Body_Correct
begin

text \<open>
  The eviction loop of \<^verbatim>\<open>cell_body_add_offset\<close>.  The hole starts at \<open>next_entry_offset\<close> and consists
  of the entries \<open>ms @ [l]\<close> gathered so far, \<open>l\<close> being the one the pointer of the loop is at.  Every
  round takes the first item of \<open>post\<close> out of the directory and adds it to the hole.
\<close>

definition gathered :: "cell \<Rightarrow> item list \<Rightarrow> item list \<Rightarrow> item \<Rightarrow> item list \<Rightarrow> bool" where
  "gathered c pre ms l post \<longleftrightarrow>
     ring c pre (be_size (it_entry l)) (unat (next_off c) + span (ms @ [l])) post \<and>
     seg (slab c) (unat (next_off c)) (last_size 0 pre) (ms @ [l])"

lemma gatheredD:
  assumes "gathered c pre ms l post"
  shows "ring c pre (be_size (it_entry l)) (unat (next_off c) + span (ms @ [l])) post"
    "seg (slab c) (unat (next_off c)) (last_size 0 pre) (ms @ [l])"
  using assms unfolding gathered_def by blast+

text \<open>The pointer of the loop and the entry behind it.\<close>

lemma gathered_ptr:
  assumes g: "gathered c pre ms l post"
  shows "body_load c (it_off l) = Inr (it_entry l)" "it_off l = unat (next_off c) + span ms"
    "it_off l + it_size l + sizeof_cell_body_entry = unat (next_off c) + span (ms @ [l])"
    "post = [] \<Longrightarrow> \<exists>e. body_load c (unat (next_off c) + span (ms @ [l])) = Inr e \<and> cell_body_entry_top e"
    "post = x # rest \<Longrightarrow> body_load c (unat (next_off c) + span (ms @ [l])) = Inr (it_entry x) \<and>
       \<not> cell_body_entry_top (it_entry x) \<and> \<not> cell_body_entry_free (it_entry x) \<and> it_span x \<le> 32768"
proof -
  note r = gatheredD [OF g] and b = ring_bounds [OF gatheredD(1) [OF g]]
  have l: "it_off l = unat (next_off c) + span ms" "it_entry l = load_body_entry (slab c) (it_off l)"
    using r(2) by simp_all
  show "it_off l = unat (next_off c) + span ms" by (fact l(1))
  show "it_off l + it_size l + sizeof_cell_body_entry = unat (next_off c) + span (ms @ [l])"
    using l(1) by (simp add: it_span_def)
  show "body_load c (it_off l) = Inr (it_entry l)"
    using b l it_span_ge [of l] by (simp add: body_load_def sizeof_cell_body_entry_def)
  show "\<exists>e. body_load c (unat (next_off c) + span (ms @ [l])) = Inr e \<and> cell_body_entry_top e"
    if "post = []"
    using ring_top_marker [OF r(1)] b that by (auto simp: is_top_marker_def cell_body_entry_top_def)
  show "body_load c (unat (next_off c) + span (ms @ [l])) = Inr (it_entry x) \<and>
       \<not> cell_body_entry_top (it_entry x) \<and> \<not> cell_body_entry_free (it_entry x) \<and> it_span x \<le> 32768"
    if post: "post = x # rest"
  proof -
    have x: "it_entry x = load_body_entry (slab c) (unat (next_off c) + span (ms @ [l]))"
        "be_top_entry (it_entry x) = 0"
      using ringD(2) [OF r(1)] unfolding ring_mem_def post seg.simps by blast+
    have "used_item x" using ringD(3) [OF r(1)] post by (simp add: ring_dir_def)
    then show ?thesis
      using x b post it_span_ge [of x]
      by (simp add: body_load_def used_item_def cell_body_entry_free_def cell_body_entry_top_def
          it_span_def sizeof_cell_body_entry_def ok_size_def MAX_ENTRY_def)
  qed
qed

text \<open>One round: the first item of \<open>post\<close> joins the hole.\<close>

lemma gathered_step:
  assumes g: "gathered c pre ms l (x # rest)" and more: "pre @ rest \<noteq> []"
  obtains c1 where "cell_header_remove c (unat (next_off c) + span (ms @ [l])) = Inr c1"
    "gathered c1 pre (ms @ [l]) x rest" "same_meta c c1"
    "hdr_cell_body (cell_header c1) = hdr_cell_body (cell_header c)" "spill_of c1 \<le> spill_of c"
proof -
  note r = gatheredD [OF g] and b = ring_bounds [OF gatheredD(1) [OF g]]
  let ?h = "unat (next_off c) + span (ms @ [l])"
  from ring_remove_first [OF r(1) more] obtain c1 where
    c1: "cell_header_remove c ?h = Inr c1"
      "ring c1 pre (be_size (it_entry x)) (?h + it_span x) rest" "same_meta c c1"
      "hdr_cell_body (cell_header c1) = hdr_cell_body (cell_header c)"
      "mem_eq_on 0 (unat (top_off c) + sizeof_cell_body_entry) (slab c) (slab c1)"
      "spill_of c1 = spill_of c \<or> spill_of c = Suc (spill_of c1)" .
  have "seg (slab c) ?h (be_size (it_entry l)) (x # rest)"
    using ringD(2) [OF r(1)] by (simp only: ring_mem_def)
  then have sg: "seg (slab c) (unat (next_off c)) (last_size 0 pre) ((ms @ [l]) @ [x])"
    by (intro seg_snocI [OF r(2)]) (simp del: seg.simps)
  have "seg (slab c1) (unat (next_off c)) (last_size 0 pre) ((ms @ [l]) @ [x])"
    using b by (intro seg_eq_on [OF c1(5) _ _ sg]) simp_all
  then have "gathered c1 pre (ms @ [l]) x rest"
    using c1(2,4) unfolding gathered_def by (simp add: add.assoc del: seg_append)
  then show ?thesis using that c1 by auto
qed

lemma evict_enough:
  "\<not> fs < req \<Longrightarrow> cell_body_evict c ptr fs req = Inr (c, Some (ptr, fs))"
  by (simp add: cell_body_evict.simps)

lemma evict_hits_top:
  assumes "gathered c pre ms l []" "fs < req"
  shows "cell_body_evict c (it_off l) fs req = Inr (c, None)"
  using gathered_ptr(1,3,4) [OF assms(1)] assms(2) by (auto simp: cell_body_evict.simps)

lemma evict_round:
  assumes g: "gathered c pre ms l (x # rest)" and less: "fs < req" and more: "pre @ rest \<noteq> []"
  obtains c1 where
    "cell_body_evict c (it_off l) fs req =
       cell_body_evict c1 (it_off x) (fs + (ucast (be_size (it_entry x)) + 36)) req"
    "gathered c1 pre (ms @ [l]) x rest" "same_meta c c1"
    "hdr_cell_body (cell_header c1) = hdr_cell_body (cell_header c)" "spill_of c1 \<le> spill_of c"
proof -
  from gathered_step [OF g more] obtain c1 where
    c1: "cell_header_remove c (unat (next_off c) + span (ms @ [l])) = Inr c1"
    "gathered c1 pre (ms @ [l]) x rest" "same_meta c c1"
    "hdr_cell_body (cell_header c1) = hdr_cell_body (cell_header c)" "spill_of c1 \<le> spill_of c" .
  note p = gathered_ptr(1-3) [OF g] gathered_ptr(5) [OF g refl] and q = gathered_ptr(1,2) [OF c1(2)]
  have off: "unat (next_off c) + span (ms @ [l]) = it_off x" using q(2) c1(4) by simp
  have "(of_nat sizeof_cell_body_entry :: u32) = 36" by (simp add: sizeof_cell_body_entry_def)
  then have "cell_body_evict c (it_off l) fs req =
       cell_body_evict c1 (it_off x) (fs + (ucast (be_size (it_entry x)) + 36)) req"
    using p(1,3,4) c1(1) q(1) less unfolding off
    by (subst cell_body_evict.simps) simp
  then show ?thesis using that c1 by blast
qed

text \<open>
  The whole loop.  It stops with enough space, or at the top with everything behind
  \<open>next_entry_offset\<close> evicted; never does an assertion fail, because a ring that is full enough keeps
  an item outside the hole.
\<close>

definition evict_outcome :: "cell \<Rightarrow> item list \<Rightarrow> item list \<Rightarrow> u32 \<Rightarrow> cell \<Rightarrow> (nat \<times> u32) option \<Rightarrow>
    item list \<Rightarrow> item \<Rightarrow> item list \<Rightarrow> bool" where
  "evict_outcome c pre post req c' stop ms' l' post' \<longleftrightarrow>
     gathered c' pre ms' l' post' \<and> (\<exists>gone. post = gone @ post') \<and> same_meta c c' \<and>
     hdr_cell_body (cell_header c') = hdr_cell_body (cell_header c) \<and> spill_of c' \<le> spill_of c \<and>
     (case stop of
        None \<Rightarrow> post' = [] \<and> span (ms' @ [l']) < unat req + 36
      | Some (ptr, fs) \<Rightarrow> ptr = it_off l' \<and> unat fs + 36 = span (ms' @ [l']) \<and> req \<le> fs \<and>
          unat fs < unat req + 32768)"

lemma evict_outcome_step:
  assumes "evict_outcome c1 pre rest req c' stop ms l post'" "same_meta c c1"
    and "hdr_cell_body (cell_header c1) = hdr_cell_body (cell_header c)" "spill_of c1 \<le> spill_of c"
  shows "evict_outcome c pre (x # rest) req c' stop ms l post'"
proof -
  from assms(1) obtain gone where "rest = gone @ post'" by (auto simp: evict_outcome_def)
  then have "x # rest = (x # gone) @ post'" by simp
  then show ?thesis
    using assms same_meta_trans [OF assms(2)] unfolding evict_outcome_def by fastforce
qed

text \<open>A round that has not gathered enough is not the last: some item stays outside the hole.\<close>

lemma evict_round_enough:
  assumes g: "gathered c pre ms l (x # rest)" and fs: "unat (fs :: u32) + 36 = span (ms @ [l])" "fs < req"
    and req: "unat req \<le> 32768" and fill: "65572 \<le> unat (top_off c)"
  shows "pre @ rest \<noteq> []"
    "unat (fs + (ucast (be_size (it_entry x)) + 36)) + 36 = span ((ms @ [l]) @ [x])"
    "unat (fs + (ucast (be_size (it_entry x)) + 36)) < unat req + 32768"
proof -
  note b = ring_bounds [OF gatheredD(1) [OF g]]
  have x: "it_span x \<le> 32768" using gathered_ptr(5) [OF g refl] by blast
  have lt: "unat fs < unat req" using fs(2) by (simp add: word_less_nat_alt)
  show "pre @ rest \<noteq> []" using b fs(1) req fill lt x by auto
  have "unat (ucast (be_size (it_entry x)) + 36 :: u32) = it_span x"
    using unat_bound_u15 [of "be_size (it_entry x)"]
    by (simp add: word_nat it_span_def sizeof_cell_body_entry_def)
  then have fs1: "unat (fs + (ucast (be_size (it_entry x)) + 36)) = unat fs + it_span x"
    using x lt req by (simp add: word_nat)
  show "unat (fs + (ucast (be_size (it_entry x)) + 36)) + 36 = span ((ms @ [l]) @ [x])"
    using fs1 fs(1) by simp
  show "unat (fs + (ucast (be_size (it_entry x)) + 36)) < unat req + 32768" using fs1 lt x by simp
qed

lemma evict_loop:
  assumes "gathered c pre ms l post" and "unat fs + 36 = span (ms @ [l])"
    and "unat fs < unat req + 32768" "unat req \<le> 32768" and "65572 \<le> unat (top_off c)"
  shows "\<exists>c' stop ms' l' post'. cell_body_evict c (it_off l) fs req = Inr (c', stop) \<and>
     evict_outcome c pre post req c' stop ms' l' post'"
  using assms
proof (induction post arbitrary: c ms l fs)
  case Nil
  show ?case
  proof (cases "fs < req")
    case True
    with Nil.prems have "evict_outcome c pre [] req c None ms l []"
      by (simp add: evict_outcome_def word_less_nat_alt)
    then show ?thesis using evict_hits_top [OF Nil.prems(1) True] by blast
  next
    case False
    with Nil.prems have "evict_outcome c pre [] req c (Some (it_off l, fs)) ms l []"
      by (simp add: evict_outcome_def)
    then show ?thesis using evict_enough [OF False, of c "it_off l"] by blast
  qed
next
  case (Cons x rest)
  show ?case
  proof (cases "fs < req")
    case False
    with Cons.prems have "evict_outcome c pre (x # rest) req c (Some (it_off l, fs)) ms l (x # rest)"
      by (simp add: evict_outcome_def)
    then show ?thesis using evict_enough [OF False, of c "it_off l"] by blast
  next
    case True
    note e = evict_round_enough [OF Cons.prems(1,2) True Cons.prems(4,5)]
    from evict_round [OF Cons.prems(1) True e(1)] obtain c1 where
      c1: "cell_body_evict c (it_off l) fs req =
         cell_body_evict c1 (it_off x) (fs + (ucast (be_size (it_entry x)) + 36)) req"
      "gathered c1 pre (ms @ [l]) x rest" "same_meta c c1"
      "hdr_cell_body (cell_header c1) = hdr_cell_body (cell_header c)" "spill_of c1 \<le> spill_of c" .
    have "65572 \<le> unat (top_off c1)" using Cons.prems(5) c1(4) by simp
    from Cons.IH [OF c1(2) e(2,3) Cons.prems(4) this] obtain c' stop ms' l' post' where
      r: "cell_body_evict c1 (it_off x) (fs + (ucast (be_size (it_entry x)) + 36)) req = Inr (c', stop)"
      "evict_outcome c1 pre rest req c' stop ms' l' post'" by blast
    show ?thesis using r(1) evict_outcome_step [OF r(2) c1(3-5)] unfolding c1(1) by blast
  qed
qed

end
