(* ===== verification/Cell_Body_Offset.thy ===== *)
theory Cell_Body_Offset
  imports Cell_Body_Evict
begin

text \<open>
  \<^verbatim>\<open>cell_body_add_offset\<close> as a whole: reuse of an entry of the same size, pushing the top down, and
  replacing several entries by the new one and a free entry for what is left.
\<close>

section \<open>The state between two operations\<close>

text \<open>The hole is empty or one free entry.\<close>

definition cell_view :: "cell \<Rightarrow> item list \<Rightarrow> item list \<Rightarrow> item list \<Rightarrow> bool" where
  "cell_view c pre mid post \<longleftrightarrow>
     ring c pre (last_size (last_size 0 pre) mid) (unat (next_off c) + span mid) post \<and>
     seg (slab c) (unat (next_off c)) (last_size 0 pre) mid \<and>
     (mid = [] \<or> (\<exists>f. mid = [f] \<and> be_free_space (it_entry f) = 1))"

text \<open>
  Once \<open>next_entry_offset\<close> has left the top the ring is well filled, so that the items evicted by one
  operation are never all the items there are.
\<close>

definition ring_filled :: "cell \<Rightarrow> bool" where
  "ring_filled c \<longleftrightarrow> next_off c = top_off c \<or> 98341 \<le> unat (top_off c)"

abbreviation it_kd :: "item \<Rightarrow> checksum \<times> u8 list" where
  "it_kd it \<equiv> (it_key it, it_data it)"

text \<open>
  What an addition may do: the new chunk is the only thing that can appear, and what was written
  since \<open>next_entry_offset\<close> was last at the bottom (\<open>pre\<close>) stays.
\<close>

definition added :: "cell \<Rightarrow> item list \<Rightarrow> item list \<Rightarrow> checksum \<times> u8 list \<Rightarrow> cell \<Rightarrow> item list \<Rightarrow> bool" where
  "added c keep its kd c' its' \<longleftrightarrow>
     (\<exists>pre mid post. cell_view c' pre mid post \<and> its' = pre @ post) \<and> ring_filled c' \<and> same_meta c c' \<and>
     it_kd ` set keep \<subseteq> it_kd ` set its' \<and> it_kd ` set its' \<subseteq> insert kd (it_kd ` set its)"

lemma addedI:
  assumes "cell_view c' pre mid post" "ring_filled c'" "same_meta c c'"
    and "it_kd ` set keep \<subseteq> it_kd ` set (pre @ post)"
    and "it_kd ` set (pre @ post) \<subseteq> insert kd (it_kd ` set its)"
  shows "added c keep its kd c' (pre @ post)"
  using assms unfolding added_def by blast

lemma added_trans:
  assumes "added c1 keep its1 kd c' its'" "same_meta c c1" "set its1 \<subseteq> set its"
  shows "added c keep its kd c' its'"
proof -
  have "it_kd ` set its1 \<subseteq> it_kd ` set its" using assms(3) by blast
  then have "insert kd (it_kd ` set its1) \<subseteq> insert kd (it_kd ` set its)" by (rule insert_mono)
  then show ?thesis
    using assms(1) same_meta_trans [OF assms(2)] unfolding added_def
    by (elim conjE, intro conjI) (assumption | erule subset_trans)+
qed

section \<open>Claiming the entry at \<open>next_entry_offset\<close>\<close>

lemma update_entry_only:
  assumes "off + 36 \<le> header_offset c" "wf_checksum (be_checksum (f (load_body_entry (slab c) off)))"
  obtains m where "body_update c off f = Inr (c\<lparr>slab := m\<rparr>)"
    "load_body_entry m off = f (load_body_entry (slab c) off)"
    "mem_eq_on 0 off (slab c) m" "mem_eq_on (off + 36) (header_offset c) (slab c) m"
proof -
  let ?m = "store_body_entry (slab c) off (f (load_body_entry (slab c) off))"
  have wf: "wf_body_entry (f (load_body_entry (slab c) off))" using assms(2) by (simp add: wf_body_entry_def)
  show ?thesis
  proof (rule that)
    show "body_update c off f = Inr (c\<lparr>slab := ?m\<rparr>)"
      using assms(1) by (simp add: body_update_def body_load_def sizeof_cell_body_entry_def)
    show "load_body_entry ?m off = f (load_body_entry (slab c) off)"
      using wf by (rule body_entry.load_store_same)
    show "mem_eq_on 0 off (slab c) ?m" "mem_eq_on (off + 36) (header_offset c) (slab c) ?m"
      using wf by (simp_all add: body_entry.store_eq_on sizeof_cell_body_entry_def)
  qed
qed

text \<open>The free bit of the first entry of the hole is cleared.\<close>

lemma gathered_claim:
  assumes g: "gathered c pre [] l post"
  obtains m l' where "body_update c (unat (next_off c)) (\<lambda>e. e\<lparr>be_free_space := 0\<rparr>) = Inr (c\<lparr>slab := m\<rparr>)"
    "gathered (c\<lparr>slab := m\<rparr>) pre [] l' post" "be_size (it_entry l') = be_size (it_entry l)"
proof -
  note r = gatheredD [OF g] and b = ring_bounds [OF gatheredD(1) [OF g]]
  let ?n = "unat (next_off c)" and ?f = "\<lambda>e. e\<lparr>be_free_space := 0\<rparr>"
  have l: "it_entry l = load_body_entry (slab c) ?n" "be_top_entry (it_entry l) = 0"
      "be_previous_size (it_entry l) = last_size 0 pre"
    using r(2) unfolding append_Nil seg.simps by blast+
  have "?n + 36 \<le> header_offset c" using b by simp
  then obtain m where m: "body_update c ?n ?f = Inr (c\<lparr>slab := m\<rparr>)"
    "load_body_entry m ?n = ?f (load_body_entry (slab c) ?n)"
    "mem_eq_on 0 ?n (slab c) m" "mem_eq_on (?n + 36) (header_offset c) (slab c) m"
    using update_entry_only [of ?n c ?f] by auto
  let ?l = "(?n, ?f (it_entry l), mem_read m (?n + sizeof_cell_body_entry) (it_size l))"
  have sz: "it_span ?l = it_span l" by (simp add: it_span_def)
  have "ring (c\<lparr>slab := m\<rparr>) pre (be_size (it_entry l)) (?n + it_span l) post"
    using r(1) it_span_ge [of l]
    by (intro ring_hole_write m mem_eq_on_sub [OF m(4)]) (simp_all add: sizeof_cell_body_entry_def)
  moreover have "seg m ?n (last_size 0 pre) [?l]"
    using l m(2) by simp
  ultimately have "gathered (c\<lparr>slab := m\<rparr>) pre [] ?l post"
    using sz by (simp add: gathered_def del: seg.simps)
  then show ?thesis using that [OF m(1), of ?l] by simp
qed

text \<open>A used entry at \<open>next_entry_offset\<close> leaves the directory first.\<close>

lemma claim_used:
  assumes ring: "ring c pre s (unat (next_off c)) (x # rest)" and prev: "s = last_size 0 pre"
    and fill: "65573 \<le> unat (top_off c)"
  obtains c1 where "body_load c (unat (next_off c)) = Inr (it_entry x)"
    "\<not> cell_body_entry_free (it_entry x)" "cell_header_remove c (unat (next_off c)) = Inr c1"
    "gathered c1 pre [] x rest" "same_meta c c1"
    "hdr_cell_body (cell_header c1) = hdr_cell_body (cell_header c)" "spill_of c1 \<le> spill_of c"
proof -
  note b = ring_bounds [OF ring]
  have x: "seg (slab c) (unat (next_off c)) s (x # rest)" "used_item x"
    using ringD(2,3) [OF ring] unfolding ring_mem_def ring_dir_def by (simp_all del: seg.simps)
  from x(1) have sg: "seg (slab c) (unat (next_off c)) s [x]" unfolding seg.simps by blast
  have ld: "body_load c (unat (next_off c)) = Inr (it_entry x)"
    using x(1) b by (simp add: body_load_def sizeof_cell_body_entry_def)
  have "it_span x \<le> 32768"
    using x(2) by (simp add: used_item_def it_span_def ok_size_def MAX_ENTRY_def sizeof_cell_body_entry_def)
  then have "pre @ rest \<noteq> []" using b(2,3) fill by auto
  from ring_remove_first [OF ring this] obtain c1 where
    c1: "cell_header_remove c (unat (next_off c)) = Inr c1"
      "ring c1 pre (be_size (it_entry x)) (unat (next_off c) + it_span x) rest" "same_meta c c1"
      "hdr_cell_body (cell_header c1) = hdr_cell_body (cell_header c)"
      "mem_eq_on 0 (unat (top_off c) + sizeof_cell_body_entry) (slab c) (slab c1)"
      "spill_of c1 = spill_of c \<or> spill_of c = Suc (spill_of c1)" .
  have "seg (slab c1) (unat (next_off c)) s [x]"
    using b by (intro seg_eq_on [OF c1(5) _ _ sg]) simp_all
  then have "gathered c1 pre [] x rest" using c1(2,4) prev by (simp add: gathered_def del: seg.simps)
  moreover have "\<not> cell_body_entry_free (it_entry x)"
    using x(2) by (simp add: used_item_def cell_body_entry_free_def)
  moreover have "spill_of c1 \<le> spill_of c" using c1(6) by auto
  ultimately show ?thesis using that ld c1(1,3,4) by blast
qed

lemma offset_start:
  assumes view: "cell_view c pre mid post" and fill: "65573 \<le> unat (top_off c)"
    and room: "next_off c \<noteq> top_off c"
  obtains c1 c2 entry l post' where
    "body_load c (unat (next_off c)) = Inr entry"
    "(if \<not> cell_body_entry_free entry then cell_header_remove c (unat (next_off c)) else Inr c) = Inr c1"
    "body_update c1 (unat (next_off c)) (\<lambda>e. e\<lparr>be_free_space := 0\<rparr>) = Inr c2"
    "gathered c2 pre [] l post'" "be_size (it_entry l) = be_size entry" "set post' \<subseteq> set post"
    "same_meta c c2" "hdr_cell_body (cell_header c2) = hdr_cell_body (cell_header c)"
    "spill_of c2 \<le> spill_of c"
proof -
  have ring: "ring c pre (last_size (last_size 0 pre) mid) (unat (next_off c) + span mid) post"
    and seg: "seg (slab c) (unat (next_off c)) (last_size 0 pre) mid"
    using view by (simp_all add: cell_view_def)
  show ?thesis
  proof (cases mid)
    case (Cons f fs)
    then have f: "mid = [f]" "be_free_space (it_entry f) = 1" using view by (auto simp: cell_view_def)
    have g: "gathered c pre [] f post" using ring seg f(1) by (simp add: gathered_def del: seg.simps)
    have ld: "body_load c (unat (next_off c)) = Inr (it_entry f)" using gathered_ptr(1,2) [OF g] by simp
    from gathered_claim [OF g] obtain m l where
      m: "body_update c (unat (next_off c)) (\<lambda>e. e\<lparr>be_free_space := 0\<rparr>) = Inr (c\<lparr>slab := m\<rparr>)"
      "gathered (c\<lparr>slab := m\<rparr>) pre [] l post" "be_size (it_entry l) = be_size (it_entry f)" .
    show ?thesis by (rule that [OF ld _ m]) (simp_all add: f cell_body_entry_free_def)
  next
    case Nil
    have "post \<noteq> []" using ring_bounds(2) [OF ring] Nil room by (auto simp: word_unat_eq_iff)
    then obtain x rest where post: "post = x # rest" by (cases post) auto
    have "ring c pre (last_size 0 pre) (unat (next_off c)) (x # rest)" using ring Nil post by simp
    from claim_used [OF this refl fill] obtain c1 where
      c1: "body_load c (unat (next_off c)) = Inr (it_entry x)"
      "\<not> cell_body_entry_free (it_entry x)" "cell_header_remove c (unat (next_off c)) = Inr c1"
      "gathered c1 pre [] x rest" "same_meta c c1"
      "hdr_cell_body (cell_header c1) = hdr_cell_body (cell_header c)" "spill_of c1 \<le> spill_of c" .
    from gathered_claim [OF c1(4), unfolded c1(6)] obtain m l where
      m: "body_update c1 (unat (next_off c)) (\<lambda>e. e\<lparr>be_free_space := 0\<rparr>) = Inr (c1\<lparr>slab := m\<rparr>)"
      "gathered (c1\<lparr>slab := m\<rparr>) pre [] l rest" "be_size (it_entry l) = be_size (it_entry x)" .
    have "same_meta c (c1\<lparr>slab := m\<rparr>)" using c1(5) by (simp add: same_meta_def)
    then show ?thesis by (intro that [OF c1(1) _ m]) (simp_all add: c1 post subset_insertI)
  qed
qed

section \<open>Pushing the top down\<close>

text \<open>The first entry of the hole keeps its back pointer and is not a top marker.\<close>

lemma gathered_first:
  assumes "gathered c pre ms l post"
  shows "be_previous_size (load_body_entry (slab c) (unat (next_off c))) = last_size 0 pre"
    "be_top_entry (load_body_entry (slab c) (unat (next_off c))) = 0"
proof -
  obtain x xs where "ms @ [l] = x # xs" by (cases ms) auto
  then have "seg (slab c) (unat (next_off c)) (last_size 0 pre) (x # xs)"
    using gatheredD(2) [OF assms] by (simp del: seg.simps seg_append)
  then show "be_previous_size (load_body_entry (slab c) (unat (next_off c))) = last_size 0 pre"
    "be_top_entry (load_body_entry (slab c) (unat (next_off c))) = 0" by auto
qed

lemma view_at_top:
  assumes "ring c pre (last_size 0 pre) (unat (top_off c)) []" "next_off c = top_off c"
  shows "cell_view c pre [] []" "ring_filled c"
  using assms by (simp_all add: cell_view_def ring_filled_def)

text \<open>
  The space from \<open>next_entry_offset\<close> up becomes the unused top, and the chunk is appended there if it
  fits.  If it does not fit, nothing is stored.
\<close>

lemma push_down_add:
  assumes g: "gathered c pre ms l []" and ok: "chunk_ok ck buffer bs" and key: "ck \<notin> it_key ` set pre"
  obtains c' its' where
    "cell_body_push_down_top c (unat (next_off c)) ck buffer bs de = Inr c'"
    "added c pre pre (ck, take (unat bs) buffer) c' its'"
    "ck \<in> it_key ` set its' \<longleftrightarrow>
       unat (next_off c) + 36 + spill_of c * 36 + (unat bs + 72) \<le> header_offset c"
    "next_off c' = top_off c'"
proof -
  from ring_push_down [OF gatheredD(1) [OF g] gathered_first(1) [OF g]] obtain m where
    m: "body_update c (unat (next_off c)) cell_body_set_top = Inr (c\<lparr>slab := m\<rparr>)"
    "ring (set_top_off (c\<lparr>slab := m\<rparr>) (next_off c)) pre (last_size 0 pre) (unat (next_off c)) []" .
  let ?d = "set_top_off (c\<lparr>slab := m\<rparr>) (next_off c)"
  let ?room = "unat (next_off c) + 36 + spill_of c * 36 + (unat bs + 72) \<le> header_offset c"
  have meta: "same_meta c ?d" by (simp add: same_meta_def)
  have ringd: "ring ?d pre (last_size 0 pre) (unat (top_off ?d)) []" using m(2) by simp
  have nxt: "next_off ?d = top_off ?d" by simp
  show ?thesis
  proof (cases ?room)
    case True
    then have "unat (top_off ?d) + 36 + spill_of ?d * 36 + (unat bs + 72) \<le> header_offset ?d" by simp
    from add_top_room [OF ringd nxt ok key this, of de] obtain c' it where
      c': "cell_body_add_top ?d ck buffer bs de = Inr (True, c')"
        "ring c' (pre @ [it]) (last_size 0 (pre @ [it])) (unat (top_off c')) []"
        "next_off c' = top_off c'" "holds_chunk it ck buffer bs" "same_meta ?d c'" .
    have "cell_body_push_down_top c (unat (next_off c)) ck buffer bs de = Inr c'"
      using m(1) c'(1) by (simp add: cell_body_push_down_top_def)
    moreover have "added c pre pre (ck, take (unat bs) buffer) c' ((pre @ [it]) @ [])"
      using view_at_top [OF c'(2,3)] same_meta_trans [OF meta c'(5)] c'(4)
      by (intro addedI) (auto simp: holds_chunk_def)
    moreover have "ck \<in> it_key ` set ((pre @ [it]) @ [])" using c'(4) by (auto simp: holds_chunk_def)
    ultimately show ?thesis using that True c'(3) by blast
  next
    case False
    then have "cell_body_add_top ?d ck buffer bs de = Inr (False, ?d)"
      by (intro add_top_no_room [OF ringd ok]) simp
    then have "cell_body_push_down_top c (unat (next_off c)) ck buffer bs de = Inr ?d"
      using m(1) by (simp add: cell_body_push_down_top_def)
    moreover have "added c pre pre (ck, take (unat bs) buffer) ?d (pre @ [])"
      using view_at_top [OF ringd nxt] meta by (intro addedI) auto
    ultimately show ?thesis using that [of ?d "pre @ []"] False key nxt by auto
  qed
qed

section \<open>Writing the chunk into the hole\<close>

lemma write_in_hole:
  assumes g: "gathered c pre ms l post" and ok: "chunk_ok ck buffer bs"
    and key: "ck \<notin> it_key ` set (pre @ post)" and fits: "unat bs + 36 \<le> span (ms @ [l])"
  obtains m it where
    "cell_body_write_chunk c (unat (next_off c)) ck buffer bs = Inr (c\<lparr>slab := m\<rparr>)"
    "ring (c\<lparr>slab := m\<rparr>) pre (be_size (it_entry l)) (unat (next_off c) + span (ms @ [l])) post"
    "new_in_hole (c\<lparr>slab := m\<rparr>) pre (unat (next_off c) + span (ms @ [l])) post it bs"
    "holds_chunk it ck buffer bs" "be_size (it_entry it) = ucast bs"
proof -
  note b = ring_bounds [OF gatheredD(1) [OF g]] and k = chunk_ok_bounds [OF ok]
  let ?n = "unat (next_off c)" and ?h = "unat (next_off c) + span (ms @ [l])"
  let ?f = "\<lambda>e. e\<lparr>be_checksum := ck, be_size := ucast bs, be_free_space := 0\<rparr>"
  have "?n + 36 + unat bs \<le> header_offset c" using b fits by simp
  moreover have "wf_checksum (be_checksum (?f (load_body_entry (slab c) ?n)))" using k by simp
  ultimately obtain m1 m where
    m: "body_update c ?n ?f = Inr (c\<lparr>slab := m1\<rparr>)"
      "slab_memcpy (c\<lparr>slab := m1\<rparr>) (?n + sizeof_cell_body_entry) buffer (unat bs) = Inr (c\<lparr>slab := m\<rparr>)"
      "load_body_entry m ?n = ?f (load_body_entry (slab c) ?n)"
      "mem_read m (?n + sizeof_cell_body_entry) (unat bs) = take (unat bs) buffer"
      "mem_eq_on 0 ?n (slab c) m" "mem_eq_on (?n + 36 + unat bs) (header_offset c) (slab c) m"
    using put_entry [of ?n "unat bs" c buffer ?f] k(3) by blast
  let ?it = "(?n, ?f (load_body_entry (slab c) ?n), take (unat bs) buffer)"
  have w: "cell_body_write_chunk c ?n ck buffer bs = Inr (c\<lparr>slab := m\<rparr>)"
    using m(1,2) by (simp add: cell_body_write_chunk_def)
  have r: "ring (c\<lparr>slab := m\<rparr>) pre (be_size (it_entry l)) ?h post"
    using fits by (intro ring_hole_write [OF gatheredD(1) [OF g] m(5)] mem_eq_on_sub [OF m(6)]) simp_all
  have holds: "holds_chunk ?it ck buffer bs"
    using ok k by (simp add: holds_chunk_def used_item_def chunk_ok_def)
  have "seg m ?n (last_size 0 pre) [?it]" using m(3,4) gathered_first [OF g] k by simp
  then have "new_in_hole (c\<lparr>slab := m\<rparr>) pre ?h post ?it bs"
    using holds key fits unfolding new_in_hole_def holds_chunk_def it_span_def sizeof_cell_body_entry_def
    by (simp del: seg.simps)
  then show ?thesis using that [OF w r _ holds] by simp
qed

text \<open>The directory entry of the new item; the item below the top may have to go for it.\<close>

lemma spill_fill:
  assumes "ring c pre s h post" "header_offset c < unat (top_off c) + 32912 + Suc (spill_of c) * 36"
  shows "131109 \<le> unat (top_off c)"
  using ring_bounds [OF assms(1)] assms(2) by simp

lemma enter_new:
  assumes ring: "ring c pre s h post" and new: "new_in_hole c pre h post it bs"
    and fill: "98341 \<le> unat (top_off c)" and hole: "h < unat (next_off c) + 65572"
    and able: "post \<noteq> [] \<or> unat (top_off c) + 36 + Suc (spill_of c) * 36 \<le> header_offset c"
  obtains c1 post' where
    "cell_body_add_dir_entry c (cell_dir_entry_set de (it_key it) (next_off c)) bs = Inr c1"
    "ring (set_next_off c1 (next_off c + (36 + bs))) (pre @ [it]) s h post'"
    "same_meta c c1" "next_off c1 = next_off c" "98341 \<le> unat (top_off c1)" "set post' \<subseteq> set post"
proof (cases "unat (top_off c) + 36 + Suc (spill_of c) * 36 \<le> header_offset c")
  case True
  from add_dir_entry_room [OF ring new True, of de] obtain c1 where
    "cell_body_add_dir_entry c (cell_dir_entry_set de (it_key it) (next_off c)) bs = Inr c1"
    "ring (set_next_off c1 (next_off c + (36 + bs))) (pre @ [it]) s h post"
    "same_meta c c1" "hdr_cell_body (cell_header c1) = hdr_cell_body (cell_header c)" .
  then show ?thesis using that [of c1 post] fill by simp
next
  case False
  with able obtain post' x where post: "post = post' @ [x]" by (metis rev_exhaust)
  note b = ring_bounds [OF ring]
  have x: "it_span x \<le> 32768"
    using ringD(3) [OF ring] post by (simp add: ring_dir_def used_item_def it_span_def ok_size_def
        MAX_ENTRY_def sizeof_cell_body_entry_def)
  then have "pre @ post' \<noteq> []" using b(2,3) fill hole post by auto
  from add_dir_entry_evicts [OF ring [unfolded post] new [unfolded post] _ this, of de] False obtain c1 where
    c1: "cell_body_add_dir_entry c (cell_dir_entry_set de (it_key it) (next_off c)) bs = Inr c1"
    "ring (set_next_off c1 (next_off c + (36 + bs))) (pre @ [it]) s h post'"
    "same_meta c c1" "next_off c1 = next_off c" by (metis not_less)
  have "131109 \<le> unat (top_off c)" using spill_fill [OF ring] False by simp
  moreover have "unat (top_off c1) + it_span x = unat (top_off c)"
    using ring_bounds(2) [OF c1(2)] b(2) post by simp
  ultimately have "98341 \<le> unat (top_off c1)" using x by simp
  then show ?thesis using that [OF c1(1,2,3,4)] post by auto
qed

section \<open>Reusing an entry of the same size\<close>

lemma holds_kd: "holds_chunk it ck buffer bs \<Longrightarrow> it_kd it = (ck, take (unat bs) buffer) \<and> it_key it = ck"
  by (simp add: holds_chunk_def)

lemma reuse_span:
  assumes "ucast (be_size (it_entry l)) = (bs :: u32)"
  shows "span ([] @ [l]) = 36 + unat bs" "be_size (it_entry l) = ucast bs"
proof -
  have "unat (ucast (be_size (it_entry l)) :: u32) = it_size l"
    using unat_bound_u15 [of "be_size (it_entry l)"] by (simp add: word_nat)
  then show "span ([] @ [l]) = 36 + unat bs"
    using assms by (simp add: it_span_def sizeof_cell_body_entry_def)
  then show "be_size (it_entry l) = ucast bs"
    using unat_bound_u15 [of "be_size (it_entry l)"]
    by (simp add: word_unat_eq_iff word_nat it_span_def sizeof_cell_body_entry_def)
qed

lemma reuse_branch:
  assumes g: "gathered c pre [] l post" and sz: "ucast (be_size (it_entry l)) = bs"
    and ok: "chunk_ok ck buffer bs" and key: "ck \<notin> it_key ` set (pre @ post)"
    and fill: "98341 \<le> unat (top_off c)"
    and able: "post \<noteq> [] \<or> unat (top_off c) + 36 + Suc (spill_of c) * 36 \<le> header_offset c"
  obtains c3 c4 its' where
    "cell_body_write_chunk c (unat (next_off c)) ck buffer bs = Inr c3" "next_off c3 = next_off c"
    "cell_body_add_dir_entry c3 (cell_dir_entry_set de ck (next_off c)) bs = Inr c4"
    "added c pre (pre @ post) (ck, take (unat bs) buffer)
       (set_next_off c4 (next_off c4 + (36 + bs))) its'"
    "ck \<in> it_key ` set its'"
proof -
  note sp = reuse_span [OF sz] and k = chunk_ok_bounds [OF ok]
  from write_in_hole [OF g ok key] sp(1) obtain m it where
    w: "cell_body_write_chunk c (unat (next_off c)) ck buffer bs = Inr (c\<lparr>slab := m\<rparr>)"
    "ring (c\<lparr>slab := m\<rparr>) pre (be_size (it_entry l)) (unat (next_off c) + span ([] @ [l])) post"
    "new_in_hole (c\<lparr>slab := m\<rparr>) pre (unat (next_off c) + span ([] @ [l])) post it bs"
    "holds_chunk it ck buffer bs" "be_size (it_entry it) = ucast bs" by (metis add.commute order_refl)
  let ?c3 = "c\<lparr>slab := m\<rparr>"
  have "unat (next_off c) + span ([] @ [l]) < unat (next_off ?c3) + 65572" using sp(1) k by simp
  moreover have "98341 \<le> unat (top_off ?c3)"
    and "post \<noteq> [] \<or> unat (top_off ?c3) + 36 + Suc (spill_of ?c3) * 36 \<le> header_offset ?c3"
    using fill able by simp_all
  ultimately obtain c4 post' where
    c4: "cell_body_add_dir_entry ?c3 (cell_dir_entry_set de (it_key it) (next_off ?c3)) bs = Inr c4"
    "ring (set_next_off c4 (next_off ?c3 + (36 + bs))) (pre @ [it]) (be_size (it_entry l))
       (unat (next_off c) + span ([] @ [l])) post'"
    "same_meta ?c3 c4" "next_off c4 = next_off ?c3" "98341 \<le> unat (top_off c4)" "set post' \<subseteq> set post"
    using enter_new [OF w(2,3), of de] by blast
  note kd = holds_kd [OF w(4)]
  let ?c' = "set_next_off c4 (next_off c4 + (36 + bs))"
  have "unat (next_off ?c') = unat (next_off c) + span ([] @ [l])"
    using ring_bounds(3) [OF c4(2)] ring_bounds(3) [OF w(2)] c4(4) sp(1) w(4)
    by (simp add: it_span_def holds_chunk_def sizeof_cell_body_entry_def)
  then have "cell_view ?c' (pre @ [it]) [] post'"
    using c4(2,4) w(5) sp(2) by (simp add: cell_view_def)
  moreover have "same_meta c ?c'" using c4(3) by (simp add: same_meta_def)
  moreover have "ring_filled ?c'" using c4(5) by (simp add: ring_filled_def)
  ultimately have "added c pre (pre @ post) (ck, take (unat bs) buffer) ?c' ((pre @ [it]) @ post')"
    using c4(6) kd by (intro addedI) auto
  moreover have "ck \<in> it_key ` set ((pre @ [it]) @ post')" using kd by auto
  ultimately show ?thesis using that [OF w(1)] c4(1) kd by auto
qed

lemma reuse_self:
  assumes g: "gathered c pre [] l []" and sz: "ucast (be_size (it_entry l)) = bs"
    and ok: "chunk_ok ck buffer bs" and key: "ck \<notin> it_key ` set pre"
    and full: "header_offset c < unat (top_off c) + 36 + Suc (spill_of c) * 36"
  obtains c3 where "cell_body_write_chunk c (unat (next_off c)) ck buffer bs = Inr c3"
    "\<forall>de'. cell_body_add_dir_entry c3 de' bs = Inl AssertFailed"
proof -
  note sp = reuse_span [OF sz]
  from write_in_hole [OF g ok] key sp(1) obtain m it where
    w: "cell_body_write_chunk c (unat (next_off c)) ck buffer bs = Inr (c\<lparr>slab := m\<rparr>)"
    "ring (c\<lparr>slab := m\<rparr>) pre (be_size (it_entry l)) (unat (next_off c) + span ([] @ [l])) []"
    "new_in_hole (c\<lparr>slab := m\<rparr>) pre (unat (next_off c) + span ([] @ [l])) [] it bs"
    "holds_chunk it ck buffer bs" "be_size (it_entry it) = ucast bs"
    by (metis add.commute order_refl append_Nil2)
  have "cell_body_add_dir_entry (c\<lparr>slab := m\<rparr>) de' bs = Inl AssertFailed" for de'
    using w sp full
    by (intro add_dir_entry_self [OF _ w(3)]) (simp_all add: holds_chunk_def it_span_def sizeof_cell_body_entry_def)
  then show ?thesis using that w(1) by blast
qed

end
