(* ===== verification/Cell_Body_Add.thy ===== *)
theory Cell_Body_Add
  imports Cell_Body_Offset
begin

text \<open>
  The last branch of \<^verbatim>\<open>cell_body_add_offset\<close>, which replaces several entries by the new one and a free
  entry, and then \<^verbatim>\<open>cell_body_add_offset\<close> and \<^verbatim>\<open>cell_body_add\<close> on every branch.
\<close>

section \<open>Replacing several entries\<close>

text \<open>What is left of the hole behind the new item becomes a free entry.\<close>

lemma leave_free_entry:
  assumes ring: "ring c pre s h post" and hole: "unat (next_off c) + 36 + unat left = h"
    and small: "unat (left :: u32) < 32768" and prev: "last_size 0 pre = p"
  obtains m1 m2 f post' where
    "body_update c (unat (next_off c)) (\<lambda>e. cell_body_entry_init\<lparr>be_previous_size := p,
       be_size := ucast left, be_free_space := 1, be_top_entry := 0\<rparr>) = Inr (c\<lparr>slab := m1\<rparr>)"
    "body_update (c\<lparr>slab := m1\<rparr>) h (\<lambda>e. e\<lparr>be_previous_size := ucast left\<rparr>) = Inr (c\<lparr>slab := m2\<rparr>)"
    "cell_view (c\<lparr>slab := m2\<rparr>) pre [f] post'" "it_kd ` set post' = it_kd ` set post"
proof -
  note b = ring_bounds [OF ring]
  let ?n = "unat (next_off c)"
  let ?e = "cell_body_entry_init\<lparr>be_previous_size := p, be_size := ucast left,
      be_free_space := 1, be_top_entry := 0\<rparr>"
  have "?n + 36 \<le> header_offset c" using b by simp
  moreover have "wf_checksum (be_checksum ?e)" by (simp add: cell_body_entry_init_def)
  ultimately obtain m1 where
    m1: "body_update c ?n (\<lambda>e. ?e) = Inr (c\<lparr>slab := m1\<rparr>)" "load_body_entry m1 ?n = ?e"
      "mem_eq_on 0 ?n (slab c) m1" "mem_eq_on (?n + 36) (header_offset c) (slab c) m1"
    using update_entry_only [of ?n c "\<lambda>e. ?e"] by blast
  let ?c1 = "c\<lparr>slab := m1\<rparr>"
  have r1: "ring ?c1 pre s h post"
    using hole by (intro ring_hole_write [OF ring m1(3)] mem_eq_on_sub [OF m1(4)]) simp_all
  from ring_back_pointer [OF r1, of "ucast left"] obtain m2 where
    m2: "body_update ?c1 h (\<lambda>e. e\<lparr>be_previous_size := ucast left\<rparr>) = Inr (?c1\<lparr>slab := m2\<rparr>)"
      "ring (?c1\<lparr>slab := m2\<rparr>) pre (ucast left) h (with_back (ucast left) post)"
      "mem_eq_on 0 h (slab ?c1) m2" .
  let ?post = "with_back (ucast left) post"
  let ?f = "(?n, ?e, mem_read m1 (?n + sizeof_cell_body_entry) (unat (ucast left :: u15)))"
  have left: "unat (ucast left :: u15) = unat left" using small by (simp add: word_nat)
  then have spf: "?n + span [?f] = h" using hole by (simp add: it_span_def sizeof_cell_body_entry_def)
  have sg: "seg (slab ?c1) ?n (last_size 0 pre) [?f]" using m1(2) prev by simp
  have "seg m2 ?n (last_size 0 pre) [?f]"
    using spf by (intro seg_eq_on [OF m2(3) _ _ sg]) simp_all
  then have "cell_view (c\<lparr>slab := m2\<rparr>) pre [?f] ?post"
    using m2(2) spf by (simp add: cell_view_def del: seg.simps)
  moreover have "it_kd ` set ?post = it_kd ` set post" by (cases post) auto
  ultimately show ?thesis using that [OF m1(1), of m2 ?f ?post] m2(1) by simp
qed

lemma replace_branch:
  assumes g: "gathered c pre ms l post" and ne: "post \<noteq> []"
    and fs: "unat fs + 36 = span (ms @ [l])" "bs + 36 \<le> fs" "unat fs < unat (bs + 36) + 32768"
    and ok: "chunk_ok ck buffer bs" and key: "ck \<notin> it_key ` set (pre @ post)"
    and fill: "98341 \<le> unat (top_off c)"
  obtains c4 c5 c7 c8 its' where
    "cell_body_write_chunk c (unat (next_off c)) ck buffer bs = Inr c4" "next_off c4 = next_off c"
    "cell_body_add_dir_entry c4 (cell_dir_entry_set de ck (next_off c)) bs = Inr c5"
    "body_update (set_next_off c5 (next_off c5 + (36 + bs))) (unat (next_off c5 + (36 + bs)))
       (\<lambda>e. cell_body_entry_init\<lparr>be_previous_size := ucast bs, be_size := ucast (fs - (bs + 36)),
          be_free_space := 1, be_top_entry := 0\<rparr>) = Inr c7"
    "body_update c7 (unat (next_off c5 + (36 + bs)) + 36 + unat (fs - (bs + 36)))
       (\<lambda>e. e\<lparr>be_previous_size := ucast (fs - (bs + 36))\<rparr>) = Inr c8"
    "added c pre (pre @ post) (ck, take (unat bs) buffer) c8 its'" "ck \<in> it_key ` set its'"
proof -
  note k = chunk_ok_bounds [OF ok]
  let ?h = "unat (next_off c) + span (ms @ [l])" and ?left = "fs - (bs + 36)"
  have left: "unat ?left = unat fs - (unat bs + 36)" and ge: "unat bs + 36 \<le> unat fs"
    using fs(2) k by (simp_all add: word_le_nat_alt unat_sub_small)
  then have small: "unat ?left < 32768" using fs(3) k by simp
  have "unat bs + 36 \<le> span (ms @ [l])" using ge fs(1) by simp
  from write_in_hole [OF g ok key this] obtain m it where
    w: "cell_body_write_chunk c (unat (next_off c)) ck buffer bs = Inr (c\<lparr>slab := m\<rparr>)"
    "ring (c\<lparr>slab := m\<rparr>) pre (be_size (it_entry l)) ?h post"
    "new_in_hole (c\<lparr>slab := m\<rparr>) pre ?h post it bs"
    "holds_chunk it ck buffer bs" "be_size (it_entry it) = ucast bs" .
  let ?c4 = "c\<lparr>slab := m\<rparr>"
  have "?h < unat (next_off ?c4) + 65572" using fs k by simp
  moreover have "98341 \<le> unat (top_off ?c4)" using fill by simp
  ultimately obtain c5 post' where
    c5: "cell_body_add_dir_entry ?c4 (cell_dir_entry_set de (it_key it) (next_off ?c4)) bs = Inr c5"
    "ring (set_next_off c5 (next_off ?c4 + (36 + bs))) (pre @ [it]) (be_size (it_entry l)) ?h post'"
    "same_meta ?c4 c5" "next_off c5 = next_off ?c4" "98341 \<le> unat (top_off c5)" "set post' \<subseteq> set post"
    using enter_new [OF w(2,3), of de] ne by blast
  note kd = holds_kd [OF w(4)]
  let ?c6 = "set_next_off c5 (next_off c5 + (36 + bs))"
  have r6: "ring ?c6 (pre @ [it]) (be_size (it_entry l)) ?h post'" using c5(2,4) by simp
  have n6: "unat (next_off ?c6) = unat (next_off c) + (36 + unat bs)"
    using ring_bounds(3) [OF r6] ring_bounds(3) [OF w(2)] w(4)
    by (simp add: it_span_def holds_chunk_def sizeof_cell_body_entry_def)
  have hole: "unat (next_off ?c6) + 36 + unat ?left = ?h" using n6 left ge fs(1) by simp
  have "last_size 0 (pre @ [it]) = ucast bs" using w(5) by simp
  from leave_free_entry [OF r6 hole small this] obtain m1 m2 f post'' where
    m: "body_update ?c6 (unat (next_off ?c6)) (\<lambda>e. cell_body_entry_init\<lparr>be_previous_size := ucast bs,
       be_size := ucast ?left, be_free_space := 1, be_top_entry := 0\<rparr>) = Inr (?c6\<lparr>slab := m1\<rparr>)"
    "body_update (?c6\<lparr>slab := m1\<rparr>) ?h (\<lambda>e. e\<lparr>be_previous_size := ucast ?left\<rparr>) = Inr (?c6\<lparr>slab := m2\<rparr>)"
    "cell_view (?c6\<lparr>slab := m2\<rparr>) (pre @ [it]) [f] post''" "it_kd ` set post'' = it_kd ` set post'" .
  let ?c8 = "?c6\<lparr>slab := m2\<rparr>"
  have "same_meta c ?c8" using c5(3) by (simp add: same_meta_def)
  moreover have "ring_filled ?c8" using c5(5) by (simp add: ring_filled_def)
  moreover have "it_kd ` set post'' \<subseteq> it_kd ` set post" using m(4) c5(6) by blast
  ultimately have "added c pre (pre @ post) (ck, take (unat bs) buffer) ?c8 ((pre @ [it]) @ post'')"
    using kd by (intro addedI [OF m(3)]) (auto simp: image_Un)
  moreover have "ck \<in> it_key ` set ((pre @ [it]) @ post'')" using kd by auto
  moreover have "body_update (?c6\<lparr>slab := m1\<rparr>) (unat (next_off c5 + (36 + bs)) + 36 + unat ?left)
       (\<lambda>e. e\<lparr>be_previous_size := ucast ?left\<rparr>) = Inr ?c8"
    using m(2) hole by simp
  ultimately show ?thesis using that [OF w(1)] c5(1) m(1) kd by simp
qed

section \<open>The branches of \<^verbatim>\<open>cell_body_add_offset\<close>\<close>

text \<open>\<open>claimed\<close> is the state the function has reached when it compares the sizes.\<close>

definition claimed :: "cell \<Rightarrow> cell \<Rightarrow> cell_body_entry \<Rightarrow> item list \<Rightarrow> item \<Rightarrow> item list \<Rightarrow> bool" where
  "claimed c c2 entry pre l post \<longleftrightarrow>
     body_load c (unat (next_off c)) = Inr entry \<and>
     (\<exists>c1. (if \<not> cell_body_entry_free entry then cell_header_remove c (unat (next_off c)) else Inr c) = Inr c1 \<and>
        body_update c1 (unat (next_off c)) (\<lambda>e. e\<lparr>be_free_space := 0\<rparr>) = Inr c2) \<and>
     gathered c2 pre [] l post \<and> be_size (it_entry l) = be_size entry \<and> same_meta c c2 \<and>
     hdr_cell_body (cell_header c2) = hdr_cell_body (cell_header c) \<and> spill_of c2 \<le> spill_of c"

lemma claimedD:
  assumes "claimed c c2 entry pre l post"
  shows "gathered c2 pre [] l post" "be_size (it_entry l) = be_size entry" "same_meta c c2"
    "hdr_cell_body (cell_header c2) = hdr_cell_body (cell_header c)" "spill_of c2 \<le> spill_of c"
    "it_off l = unat (next_off c)" "body_load c2 (unat (next_off c)) = Inr (it_entry l)"
    "body_load c (unat (next_off c)) = Inr entry"
proof -
  show g: "gathered c2 pre [] l post" "be_size (it_entry l) = be_size entry" "same_meta c c2"
    "hdr_cell_body (cell_header c2) = hdr_cell_body (cell_header c)" "spill_of c2 \<le> spill_of c"
    "body_load c (unat (next_off c)) = Inr entry"
    using assms unfolding claimed_def by blast+
  show "it_off l = unat (next_off c)" using gathered_ptr(2) [OF g(1)] g(4) by simp
  then show "body_load c2 (unat (next_off c)) = Inr (it_entry l)" using gathered_ptr(1) [OF g(1)] by simp
qed

text \<open>The rest of the function from there.\<close>

lemma add_offset_claimed:
  assumes cl: "claimed c c2 entry pre l post"
  shows "cell_body_add_offset c ck buffer bs de =
     (if ucast (be_size entry) = bs then
        rbind (cell_body_write_chunk c2 (unat (next_off c)) ck buffer bs) (\<lambda>c3.
        rbind (cell_body_add_dir_entry c3 (cell_dir_entry_set de ck (next_off c3)) bs)
          (\<lambda>c4. Inr (set_next_off c4 (next_off c4 + (36 + bs)))))
      else
        rbind (cell_body_evict c2 (unat (next_off c)) (ucast (be_size entry)) (bs + 36)) (\<lambda>(c3, stop).
        case stop of
          None \<Rightarrow> cell_body_push_down_top c3 (unat (next_off c)) ck buffer bs de
        | Some (ptr, fs) \<Rightarrow>
            rbind (cell_body_next_entry_is_top c3 ptr) (\<lambda>is_top.
            if is_top then cell_body_push_down_top c3 (unat (next_off c)) ck buffer bs de
            else
              rbind (cell_body_write_chunk c3 (unat (next_off c)) ck buffer bs) (\<lambda>c4.
              rbind (cell_body_add_dir_entry c4 (cell_dir_entry_set de ck (next_off c4)) bs) (\<lambda>c5.
              rbind (body_update (set_next_off c5 (next_off c5 + (36 + bs))) (unat (next_off c5 + (36 + bs)))
                (\<lambda>e. cell_body_entry_init\<lparr>be_previous_size := ucast bs, be_size := ucast (fs - (bs + 36)),
                   be_free_space := 1, be_top_entry := 0\<rparr>)) (\<lambda>c7.
              body_update c7 (unat (next_off c5 + (36 + bs)) + 36 + unat (fs - (bs + 36)))
                (\<lambda>e. e\<lparr>be_previous_size := ucast (fs - (bs + 36))\<rparr>)))))))"
proof -
  from cl obtain c1 where
    "body_load c (unat (next_off c)) = Inr entry"
    "(if \<not> cell_body_entry_free entry then cell_header_remove c (unat (next_off c)) else Inr c) = Inr c1"
    "body_update c1 (unat (next_off c)) (\<lambda>e. e\<lparr>be_free_space := 0\<rparr>) = Inr c2"
    unfolding claimed_def by blast
  then show ?thesis
    using claimedD(2,7) [OF cl]
    by (simp add: cell_body_add_offset_def Let_def sizeof_cell_body_entry_def
        cong: option.case_cong if_cong)
qed

text \<open>The check for the top behind the gathered entries.\<close>

lemma next_is_top:
  assumes "gathered c pre ms l post"
  shows "cell_body_next_entry_is_top c (it_off l) = Inr (post = [])"
proof (cases post)
  case Nil
  then show ?thesis
    using gathered_ptr(1,3,4) [OF assms] by (auto simp: cell_body_next_entry_is_top_def)
next
  case (Cons x rest)
  then show ?thesis
    using gathered_ptr(1,3,5) [OF assms] by (auto simp: cell_body_next_entry_is_top_def)
qed

section \<open>The outcome of \<^verbatim>\<open>cell_body_add_offset\<close>\<close>

text \<open>
  \<open>stored_or_dropped\<close>: the chunk is in the result unless what is left from \<open>next_entry_offset\<close> to the
  top is too small for it and, once the top is pushed down, what is left to the directory is too small as well.
\<close>

definition stored_or_dropped :: "cell \<Rightarrow> checksum \<Rightarrow> u32 \<Rightarrow> item list \<Rightarrow> bool" where
  "stored_or_dropped c ck bs its' \<longleftrightarrow>
     (ck \<notin> it_key ` set its' \<longrightarrow>
        unat (top_off c) < unat (next_off c) + unat bs + 72 \<and>
        header_offset c < unat (next_off c) + unat bs + 108 + spill_of c * 36) \<and>
     (unat (top_off c) < unat (next_off c) + unat bs + 72 \<and>
        header_offset c < unat (next_off c) + unat bs + 108 \<longrightarrow> ck \<notin> it_key ` set its')"

text \<open>Whether the entry at \<open>next_entry_offset\<close> has the size of the chunk; then it is simply reused.\<close>

definition reuses :: "cell \<Rightarrow> u32 \<Rightarrow> bool" where
  "reuses c bs \<longleftrightarrow> ucast (be_size (load_body_entry (slab c) (unat (next_off c)))) = bs"

lemma claimed_reuses: "claimed c c2 entry pre l post \<Longrightarrow> reuses c bs \<longleftrightarrow> ucast (be_size entry) = bs"
  using claimedD(8) [of c c2 entry pre l post] by (auto simp: reuses_def body_load_def split: if_splits)

lemma stored_or_droppedI:
  assumes "ck \<in> it_key ` set its'" "unat (next_off c) + unat bs + 72 \<le> unat (top_off c)"
  shows "stored_or_dropped c ck bs its'"
  using assms by (simp add: stored_or_dropped_def)

lemma claimed_evict:
  assumes cl: "claimed c c2 entry pre l post" and ok: "chunk_ok ck buffer bs"
    and fill: "98341 \<le> unat (top_off c)"
  obtains c3 stop ms l' post' where
    "cell_body_evict c2 (unat (next_off c)) (ucast (be_size entry)) (bs + 36) = Inr (c3, stop)"
    "evict_outcome c2 pre post (bs + 36) c3 stop ms l' post'"
proof -
  note d = claimedD [OF cl] and k = chunk_ok_bounds [OF ok]
  let ?fs = "ucast (be_size entry) :: u32"
  have fs: "unat ?fs = it_size l" "unat ?fs < 32768"
    using d(2) unat_bound_u15 [of "be_size entry"] by (simp_all add: word_nat)
  then have "unat ?fs + 36 = span ([] @ [l])" by (simp add: it_span_def sizeof_cell_body_entry_def)
  moreover have "unat ?fs < unat (bs + 36) + 32768" "unat (bs + 36) \<le> 32768" using fs(2) k by simp_all
  moreover have "65572 \<le> unat (top_off c2)" using fill d(4) by simp
  ultimately have "\<exists>c' stop ms' l' post'. cell_body_evict c2 (it_off l) ?fs (bs + 36) = Inr (c', stop) \<and>
     evict_outcome c2 pre post (bs + 36) c' stop ms' l' post'"
    by (rule evict_loop [OF d(1)])
  then show ?thesis using that d(6) by auto
qed

lemma offset_hits_top:
  assumes cl: "claimed c c2 entry pre l post" and ne: "ucast (be_size entry) \<noteq> bs"
    and ok: "chunk_ok ck buffer bs" and key: "ck \<notin> it_key ` set (pre @ post)"
    and ev: "cell_body_evict c2 (unat (next_off c)) (ucast (be_size entry)) (bs + 36) = Inr (c3, stop)"
      "evict_outcome c2 pre post (bs + 36) c3 stop ms l' []"
  obtains c' its' where "cell_body_add_offset c ck buffer bs de = Inr c'"
    "added c pre (pre @ post) (ck, take (unat bs) buffer) c' its'" "stored_or_dropped c ck bs its'"
proof -
  note d = claimedD [OF cl] and k = chunk_ok_bounds [OF ok]
  have e: "gathered c3 pre ms l' []" "same_meta c2 c3"
      "hdr_cell_body (cell_header c3) = hdr_cell_body (cell_header c2)" "spill_of c3 \<le> spill_of c2"
    using ev(2) unfolding evict_outcome_def by blast+
  note b = ring_bounds [OF gatheredD(1) [OF e(1)]]
  have off: "hdr_cell_body (cell_header c3) = hdr_cell_body (cell_header c)"
      "header_offset c3 = header_offset c" "same_meta c c3"
    using e(2,3) d(3,4) same_meta_trans [OF d(3) e(2)] same_meta_offset by auto
  have "ck \<notin> it_key ` set pre" using key by auto
  from push_down_add [OF e(1) ok this, of de, unfolded off] obtain c' its' where
    p: "cell_body_push_down_top c3 (unat (next_off c)) ck buffer bs de = Inr c'"
    "added c3 pre pre (ck, take (unat bs) buffer) c' its'"
    "ck \<in> it_key ` set its' \<longleftrightarrow>
       unat (next_off c) + 36 + spill_of c3 * 36 + (unat bs + 72) \<le> header_offset c" .
  have "cell_body_add_offset c ck buffer bs de = Inr c'"
  proof (cases stop)
    case None
    then show ?thesis using ev(1) ne p(1) by (simp add: add_offset_claimed [OF cl])
  next
    case (Some q)
    then have "fst q = it_off l'" using ev(2) by (auto simp: evict_outcome_def split: prod.splits)
    then show ?thesis
      using Some ev(1) ne p(1) next_is_top [OF e(1)]
      by (cases q) (simp add: add_offset_claimed [OF cl])
  qed
  moreover have "added c pre (pre @ post) (ck, take (unat bs) buffer) c' its'"
    by (rule added_trans [OF p(2) off(3)]) simp
  moreover have "stored_or_dropped c ck bs its'"
    using p(3) ev(2) b(2,4) off e(4) d(5) k
    by (auto simp: stored_or_dropped_def evict_outcome_def word_le_nat_alt split: option.splits prod.splits)
  ultimately show ?thesis using that by blast
qed

lemma offset_replaces:
  assumes cl: "claimed c c2 entry pre l post" and ne: "ucast (be_size entry) \<noteq> bs"
    and ok: "chunk_ok ck buffer bs" and key: "ck \<notin> it_key ` set (pre @ post)"
    and fill: "98341 \<le> unat (top_off c)" and more: "post' \<noteq> []"
    and ev: "cell_body_evict c2 (unat (next_off c)) (ucast (be_size entry)) (bs + 36) = Inr (c3, stop)"
      "evict_outcome c2 pre post (bs + 36) c3 stop ms l' post'"
  obtains c' its' where "cell_body_add_offset c ck buffer bs de = Inr c'"
    "added c pre (pre @ post) (ck, take (unat bs) buffer) c' its'" "stored_or_dropped c ck bs its'"
proof -
  note d = claimedD [OF cl] and k = chunk_ok_bounds [OF ok]
  have e: "gathered c3 pre ms l' post'" "same_meta c2 c3" "set post' \<subseteq> set post"
      "hdr_cell_body (cell_header c3) = hdr_cell_body (cell_header c2)"
    using ev(2) unfolding evict_outcome_def by auto
  from ev(2) more obtain fs where
    st: "stop = Some (it_off l', fs)" "unat fs + 36 = span (ms @ [l'])" "bs + 36 \<le> fs"
      "unat fs < unat (bs + 36) + 32768"
    unfolding evict_outcome_def by (auto split: option.splits)
  have off: "hdr_cell_body (cell_header c3) = hdr_cell_body (cell_header c)" "same_meta c c3"
    using e(4) d(4) same_meta_trans [OF d(3) e(2)] by auto
  have key3: "ck \<notin> it_key ` set (pre @ post')" and fill3: "98341 \<le> unat (top_off c3)"
    using key e(3) fill off(1) by auto
  from replace_branch [OF e(1) more st(2-4) ok key3 fill3, of de, unfolded off(1)]
  obtain c4 c5 c7 c8 its' where
    r: "cell_body_write_chunk c3 (unat (next_off c)) ck buffer bs = Inr c4" "next_off c4 = next_off c"
    "cell_body_add_dir_entry c4 (cell_dir_entry_set de ck (next_off c)) bs = Inr c5"
    "body_update (set_next_off c5 (next_off c5 + (36 + bs))) (unat (next_off c5 + (36 + bs)))
       (\<lambda>e. cell_body_entry_init\<lparr>be_previous_size := ucast bs, be_size := ucast (fs - (bs + 36)),
          be_free_space := 1, be_top_entry := 0\<rparr>) = Inr c7"
    "body_update c7 (unat (next_off c5 + (36 + bs)) + 36 + unat (fs - (bs + 36)))
       (\<lambda>e. e\<lparr>be_previous_size := ucast (fs - (bs + 36))\<rparr>) = Inr c8"
    "added c3 pre (pre @ post') (ck, take (unat bs) buffer) c8 its'" "ck \<in> it_key ` set its'" .
  have "cell_body_add_offset c ck buffer bs de = Inr c8"
    using ev(1) st(1) ne more r(1-5) next_is_top [OF e(1)]
    by (simp add: add_offset_claimed [OF cl])
  moreover have "added c pre (pre @ post) (ck, take (unat bs) buffer) c8 its'"
    using e(3) by (intro added_trans [OF r(6) off(2)]) auto
  moreover have "unat (next_off c) + unat bs + 72 \<le> unat (top_off c)"
    using ring_bounds(2) [OF gatheredD(1) [OF e(1)]] off(1) st(2,3) k by (simp add: word_le_nat_alt)
  ultimately show ?thesis using that stored_or_droppedI r(7) by blast
qed

text \<open>
  The one situation in which the code aborts: the entry at \<open>next_entry_offset\<close> has the size of the
  chunk and lies directly below the top, and once its own directory entry is gone there is no room
  for another one in the overflow area.
\<close>

definition self_evicts :: "cell \<Rightarrow> u32 \<Rightarrow> bool" where
  "self_evicts c bs =
     (case body_load c (unat (next_off c)) of
        Inl _ \<Rightarrow> False
      | Inr entry \<Rightarrow>
          ucast (be_size entry) = bs \<and> unat (next_off c) + 36 + unat bs = unat (top_off c) \<and>
          (case (if \<not> cell_body_entry_free entry then cell_header_remove c (unat (next_off c)) else Inr c) of
             Inl _ \<Rightarrow> False
           | Inr c1 \<Rightarrow> cell_body_free_space c1 < 36))"

lemma cell_body_free_space_slab [simp]: "cell_body_free_space (c\<lparr>slab := m\<rparr>) = cell_body_free_space c"
  by (simp add: cell_body_free_space_def)

lemma self_evicts_claimed:
  assumes cl: "claimed c c2 entry pre l post" and sz: "ucast (be_size entry) = bs"
  shows "self_evicts c bs \<longleftrightarrow>
     post = [] \<and> header_offset c2 < unat (top_off c2) + 36 + Suc (spill_of c2) * 36"
proof -
  note d = claimedD [OF cl]
  from cl obtain c1 where
    c1: "(if \<not> cell_body_entry_free entry then cell_header_remove c (unat (next_off c)) else Inr c) = Inr c1"
    "body_update c1 (unat (next_off c)) (\<lambda>e. e\<lparr>be_free_space := 0\<rparr>) = Inr c2"
    unfolding claimed_def by blast
  have "cell_body_free_space c1 = cell_body_free_space c2"
    using c1(2) by (auto simp: body_update_def rbind_eq_Inr)
  then have sp: "cell_body_free_space c1 < 36 \<longleftrightarrow>
      header_offset c2 < unat (top_off c2) + 36 + Suc (spill_of c2) * 36"
    using free_space_ge_36 [OF gatheredD(1) [OF d(1)]] by (metis not_less)
  have "ucast (be_size (it_entry l)) = bs" using d(2) sz by simp
  from reuse_span(1) [OF this]
  have "post = [] \<longleftrightarrow> unat (next_off c) + 36 + unat bs = unat (top_off c)"
    using ring_bounds(2) [OF gatheredD(1) [OF d(1)]] d(4) it_span_ge [of "hd post"]
    by (cases post) (auto simp: sizeof_cell_body_entry_def)
  then show ?thesis using d(8) c1(1) sp sz by (simp add: self_evicts_def)
qed

lemma offset_reuses:
  assumes cl: "claimed c c2 entry pre l post" and sz: "ucast (be_size entry) = bs"
    and ok: "chunk_ok ck buffer bs" and key: "ck \<notin> it_key ` set (pre @ post)"
    and fill: "98341 \<le> unat (top_off c)" and ns: "\<not> self_evicts c bs"
  obtains c' its' where "cell_body_add_offset c ck buffer bs de = Inr c'"
    "added c pre (pre @ post) (ck, take (unat bs) buffer) c' its'" "ck \<in> it_key ` set its'"
proof -
  note d = claimedD [OF cl]
  have sz2: "ucast (be_size (it_entry l)) = bs" using d(2) sz by simp
  have "post \<noteq> [] \<or> unat (top_off c2) + 36 + Suc (spill_of c2) * 36 \<le> header_offset c2"
    using ns self_evicts_claimed [OF cl sz] by auto
  moreover have "98341 \<le> unat (top_off c2)" using fill d(4) by simp
  ultimately obtain c3 c4 its' where
    r: "cell_body_write_chunk c2 (unat (next_off c2)) ck buffer bs = Inr c3" "next_off c3 = next_off c2"
    "cell_body_add_dir_entry c3 (cell_dir_entry_set de ck (next_off c2)) bs = Inr c4"
    "added c2 pre (pre @ post) (ck, take (unat bs) buffer) (set_next_off c4 (next_off c4 + (36 + bs))) its'"
    "ck \<in> it_key ` set its'"
    using reuse_branch [OF d(1) sz2 ok key, of de] by blast
  have "cell_body_add_offset c ck buffer bs de = Inr (set_next_off c4 (next_off c4 + (36 + bs)))"
    using sz r(1-3) d(4) by (simp add: add_offset_claimed [OF cl])
  then show ?thesis using that r(5) added_trans [OF r(4) d(3)] by blast
qed

lemma view_claimed:
  assumes "cell_view c pre mid post" "98341 \<le> unat (top_off c)" "next_off c \<noteq> top_off c"
  obtains c2 entry l post' where "claimed c c2 entry pre l post'" "set post' \<subseteq> set post"
proof -
  have "65573 \<le> unat (top_off c)" using assms(2) by simp
  from offset_start [OF assms(1) this assms(3)] show ?thesis
    using that unfolding claimed_def by metis
qed

lemma add_offset_ok:
  assumes view: "cell_view c pre mid post" and fill: "98341 \<le> unat (top_off c)"
    and ne: "next_off c \<noteq> top_off c"
    and ok: "chunk_ok ck buffer bs" and key: "ck \<notin> it_key ` set (pre @ post)"
    and ns: "\<not> self_evicts c bs"
  obtains c' its' where "cell_body_add_offset c ck buffer bs de = Inr c'"
    "added c pre (pre @ post) (ck, take (unat bs) buffer) c' its'"
    "if reuses c bs then ck \<in> it_key ` set its' else stored_or_dropped c ck bs its'"
proof -
  from view_claimed [OF view fill ne] obtain c2 entry l post' where
    cl: "claimed c c2 entry pre l post'" and sub: "set post' \<subseteq> set post" .
  have key': "ck \<notin> it_key ` set (pre @ post')" using key sub by auto
  have "\<exists>c' its'. cell_body_add_offset c ck buffer bs de = Inr c' \<and>
      added c pre (pre @ post') (ck, take (unat bs) buffer) c' its' \<and>
      (if reuses c bs then ck \<in> it_key ` set its' else stored_or_dropped c ck bs its')"
  proof (cases "ucast (be_size entry) = bs")
    case True
    then have "reuses c bs" using claimed_reuses [OF cl] by simp
    with offset_reuses [OF cl True ok key' fill ns] show ?thesis by metis
  next
    case False
    then have no: "\<not> reuses c bs" using claimed_reuses [OF cl] by simp
    from claimed_evict [OF cl ok fill] obtain c3 stop ms l' post'' where
      ev: "cell_body_evict c2 (unat (next_off c)) (ucast (be_size entry)) (bs + 36) = Inr (c3, stop)"
      "evict_outcome c2 pre post' (bs + 36) c3 stop ms l' post''" .
    show ?thesis
    proof (cases "post'' = []")
      case True
      from no offset_hits_top [OF cl False ok key' ev(1) ev(2) [unfolded True]] show ?thesis by metis
    next
      case more: False
      from no offset_replaces [OF cl False ok key' fill more ev] show ?thesis by metis
    qed
  qed
  then obtain c' its' where r: "cell_body_add_offset c ck buffer bs de = Inr c'"
      "added c pre (pre @ post') (ck, take (unat bs) buffer) c' its'"
      "if reuses c bs then ck \<in> it_key ` set its' else stored_or_dropped c ck bs its'" by blast
  have "added c pre (pre @ post) (ck, take (unat bs) buffer) c' its'"
    using sub by (intro added_trans [OF r(2)]) auto
  with r show ?thesis using that by blast
qed

text \<open>In the excluded situation the assertion in \<^verbatim>\<open>cell_header_remove\<close> fails.\<close>

lemma add_offset_self:
  assumes view: "cell_view c pre mid post" and fill: "98341 \<le> unat (top_off c)"
    and ne: "next_off c \<noteq> top_off c"
    and ok: "chunk_ok ck buffer bs" and key: "ck \<notin> it_key ` set (pre @ post)"
    and self: "self_evicts c bs"
  shows "cell_body_add_offset c ck buffer bs de = Inl AssertFailed"
proof -
  from view_claimed [OF view fill ne] obtain c2 entry l post' where
    cl: "claimed c c2 entry pre l post'" and sub: "set post' \<subseteq> set post" .
  note d = claimedD [OF cl]
  have sz: "ucast (be_size entry) = bs" using self d(8) by (simp add: self_evicts_def)
  then have sz2: "ucast (be_size (it_entry l)) = bs" using d(2) by simp
  from self self_evicts_claimed [OF cl sz]
  have full: "post' = []" "header_offset c2 < unat (top_off c2) + 36 + Suc (spill_of c2) * 36" by auto
  have "ck \<notin> it_key ` set pre" using key by auto
  from reuse_self [OF d(1) [unfolded full(1)] sz2 ok this full(2)] obtain c3 where
    "cell_body_write_chunk c2 (unat (next_off c2)) ck buffer bs = Inr c3"
    "\<And>de'. cell_body_add_dir_entry c3 de' bs = Inl AssertFailed" by metis
  then show ?thesis using sz d(4) by (simp add: add_offset_claimed [OF cl])
qed

section \<open>\<^verbatim>\<open>cell_body_add\<close>\<close>

text \<open>Whether the next entry is the top marker is whether \<open>next_entry_offset\<close> is at the top.\<close>

lemma view_next_entry:
  assumes view: "cell_view c pre mid post"
  obtains e where "body_load c (unat (next_off c)) = Inr e"
    "cell_body_entry_top e \<longleftrightarrow> next_off c = top_off c"
proof -
  have ring: "ring c pre (last_size (last_size 0 pre) mid) (unat (next_off c) + span mid) post"
    and sg: "seg (slab c) (unat (next_off c)) (last_size 0 pre) (mid @ post)"
    using view ringD(2) by (auto simp: cell_view_def ring_mem_def simp del: seg.simps)
  note b = ring_bounds [OF ring]
  let ?e = "load_body_entry (slab c) (unat (next_off c))"
  have "body_load c (unat (next_off c)) = Inr ?e"
    using b by (simp add: body_load_def sizeof_cell_body_entry_def)
  moreover have "cell_body_entry_top ?e \<longleftrightarrow> next_off c = top_off c"
  proof (cases "mid @ post")
    case Nil
    then have "next_off c = top_off c" using b(2) by (simp add: word_unat_eq_iff)
    then show ?thesis
      using ring_top_marker(2) [OF ring] by (simp add: is_top_marker_def cell_body_entry_top_def)
  next
    case (Cons x xs)
    then have "be_top_entry ?e = 0" using sg by auto
    moreover have "span (mid @ post) = it_span x + span xs" using Cons by simp
    ultimately show ?thesis
      using b(2) it_span_ge [of x] by (auto simp: cell_body_entry_top_def sizeof_cell_body_entry_def)
  qed
  ultimately show ?thesis by (rule that)
qed

lemma view_top_empty:
  assumes "cell_view c pre mid post" "next_off c = top_off c"
  shows "mid = []" "post = []" "ring c pre (last_size 0 pre) (unat (top_off c)) []"
proof -
  have ring: "ring c pre (last_size (last_size 0 pre) mid) (unat (next_off c) + span mid) post"
    using assms(1) by (simp add: cell_view_def)
  have "span mid = 0" "span post = 0" using ring_bounds(2) [OF ring] assms(2) by simp_all
  then show "mid = []" "post = []"
    by (cases mid; cases post; auto simp: it_span_def sizeof_cell_body_entry_def)+
  then show "ring c pre (last_size 0 pre) (unat (top_off c)) []" using ring assms(2) by simp
qed

text \<open>\<open>kept\<close>: the items that an addition certainly leaves alone.\<close>

definition append_fits :: "cell \<Rightarrow> u32 \<Rightarrow> bool" where
  "append_fits c bs \<longleftrightarrow>
     next_off c = top_off c \<and> unat (top_off c) + 36 + spill_of c * 36 + (unat bs + 72) \<le> header_offset c"

definition wraps :: "cell \<Rightarrow> u32 \<Rightarrow> bool" where
  "wraps c bs \<longleftrightarrow> next_off c = top_off c \<and> \<not> append_fits c bs"

lemma body_add_append:
  assumes view: "cell_view c pre mid post" and ok: "chunk_ok ck buffer bs"
    and key: "ck \<notin> it_key ` set (pre @ post)" and fits: "append_fits c bs"
  obtains c' its' where "cell_body_add c ck buffer bs de = Inr c'"
    "added c (pre @ post) (pre @ post) (ck, take (unat bs) buffer) c' its'" "ck \<in> it_key ` set its'"
proof -
  have nxt: "next_off c = top_off c"
    and room: "unat (top_off c) + 36 + spill_of c * 36 + (unat bs + 72) \<le> header_offset c"
    using fits by (simp_all add: append_fits_def)
  note v = view_top_empty [OF view nxt]
  have "ck \<notin> it_key ` set pre" using key by auto
  from add_top_room [OF v(3) nxt ok this room, of de] obtain c' it where
    c': "cell_body_add_top c ck buffer bs de = Inr (True, c')"
      "ring c' (pre @ [it]) (last_size 0 (pre @ [it])) (unat (top_off c')) []"
      "next_off c' = top_off c'" "holds_chunk it ck buffer bs" "same_meta c c'" .
  from view_next_entry [OF view] nxt obtain e where
    "body_load c (unat (next_off c)) = Inr e" "cell_body_entry_top e" by metis
  then have "cell_body_add c ck buffer bs de = Inr c'" using c'(1) by (simp add: cell_body_add_def)
  moreover have "added c (pre @ post) (pre @ post) (ck, take (unat bs) buffer) c' ((pre @ [it]) @ [])"
    using view_at_top [OF c'(2,3)] c'(5) holds_kd [OF c'(4)] v(2) by (intro addedI) auto
  moreover have "ck \<in> it_key ` set ((pre @ [it]) @ [])" using holds_kd [OF c'(4)] by auto
  ultimately show ?thesis using that by blast
qed

text \<open>
  When the chunk does not fit behind the top, \<^verbatim>\<open>cell_body_add\<close> goes on as if the next entry were at the
  bottom.
\<close>

lemma wrap_start:
  assumes view: "cell_view c pre mid post" and ok: "chunk_ok ck buffer bs" and wr: "wraps c bs"
  shows "cell_view (set_next_off c 0) [] [] pre" "131109 \<le> unat (top_off c)" "post = []" "mid = []"
    "cell_body_add c ck buffer bs de = cell_body_add_offset (set_next_off c 0) ck buffer bs de"
proof -
  have nxt: "next_off c = top_off c"
    and full: "header_offset c < unat (top_off c) + 36 + spill_of c * 36 + (unat bs + 72)"
    using wr by (auto simp: append_fits_def wraps_def)
  note v = view_top_empty [OF view nxt] and k = chunk_ok_bounds [OF ok]
  show "post = []" "mid = []" by (fact v)+
  show "131109 \<le> unat (top_off c)" using full k by (intro spill_fill [OF v(3)]) simp
  have "ring_mem (slab c) 0 (unat (top_off c)) [] 0 0 pre"
    using ringD(2) [OF v(3)] nxt by (simp add: ring_mem_def)
  then have "ring (set_next_off c 0) [] 0 0 pre"
    using ringD(1,3) [OF v(3)] ring_bounds(4) [OF v(3)] by (intro ringI) simp_all
  then show "cell_view (set_next_off c 0) [] [] pre" by (simp add: cell_view_def)
  from view_next_entry [OF view] nxt obtain e where
    "body_load c (unat (next_off c)) = Inr e" "cell_body_entry_top e" by metis
  then show "cell_body_add c ck buffer bs de = cell_body_add_offset (set_next_off c 0) ck buffer bs de"
    using add_top_no_room [OF v(3) ok full] by (simp add: cell_body_add_def)
qed

lemma body_add_wraps:
  assumes view: "cell_view c pre mid post" and ok: "chunk_ok ck buffer bs"
    and key: "ck \<notin> it_key ` set (pre @ post)" and wr: "wraps c bs"
  obtains c' its' where "cell_body_add c ck buffer bs de = Inr c'"
    "added c [] (pre @ post) (ck, take (unat bs) buffer) c' its'" "ck \<in> it_key ` set its'"
proof -
  let ?d = "set_next_off c 0"
  note w = wrap_start [OF view ok wr] and k = chunk_ok_bounds [OF ok]
  have ne: "next_off ?d \<noteq> top_off ?d" and fill0: "98341 \<le> unat (top_off ?d)" using w(2) by auto
  have ns: "\<not> self_evicts ?d bs" using w(2) k by (auto simp: self_evicts_def split: sum.splits)
  have key0: "ck \<notin> it_key ` set ([] @ pre)" using key by auto
  from add_offset_ok [OF w(1) fill0 ne ok key0 ns, of de] obtain c' its' where
    a: "cell_body_add_offset ?d ck buffer bs de = Inr c'"
      "added ?d [] ([] @ pre) (ck, take (unat bs) buffer) c' its'"
      "if reuses ?d bs then ck \<in> it_key ` set its' else stored_or_dropped ?d ck bs its'" .
  have "ck \<in> it_key ` set its'" using a(3) w(2) k by (auto simp: stored_or_dropped_def split: if_splits)
  moreover have "added c [] (pre @ post) (ck, take (unat bs) buffer) c' its'"
    by (rule added_trans [OF a(2)]) simp_all
  ultimately show ?thesis using that a(1) w(5) by simp
qed

lemma body_add_offset:
  assumes view: "cell_view c pre mid post" and ne: "next_off c \<noteq> top_off c"
  shows "cell_body_add c ck buffer bs de = cell_body_add_offset c ck buffer bs de"
proof -
  from view_next_entry [OF view] ne obtain e where
    "body_load c (unat (next_off c)) = Inr e" "\<not> cell_body_entry_top e" by metis
  then show ?thesis by (simp add: cell_body_add_def)
qed

end
