(* ===== verification/Cell_Spill.thy ===== *)
theory Cell_Spill
  imports Cell_Body_Add
begin

text \<open>
  When exactly an addition or a removal changes the size of the overflow area of a directory.  What
  decides it is how many of the checksums present fall into one bucket; the invariant of the
  directory gives the rest.
\<close>

definition crowd :: "u8 \<Rightarrow> checksum list \<Rightarrow> nat" where
  "crowd b ks = length (filter (\<lambda>k. block_no k = b) ks)"

lemma crowd_simps [simp]:
  "crowd b [] = 0" "crowd b (k # ks) = (if block_no k = b then 1 else 0) + crowd b ks"
  "crowd b (xs @ ys) = crowd b xs + crowd b ys"
  by (simp_all add: crowd_def)

section \<open>The slots of a bucket\<close>

lemma block_add_room:
  assumes "block_inv block" "length (blk_used block) < CELL_DIR_BLOCK_ENTRIES"
  shows "fst (cell_dir_block_add block entry)"
proof (rule ccontr)
  assume "\<not> fst (cell_dir_block_add block entry)"
  then obtain block' where "cell_dir_block_add_from 0 block entry = (False, block')"
    by (cases "cell_dir_block_add block entry") (simp add: cell_dir_block_add_def)
  from add_from_full [OF this] have taken: "\<forall>j < CELL_DIR_BLOCK_ENTRIES. de_set (blk_entries block ! j) \<noteq> 0"
    by simp
  have len: "length (blk_entries block) = CELL_DIR_BLOCK_ENTRIES" using assms(1) by (simp add: block_inv_def)
  have "\<forall>e \<in> set (blk_entries block). entry_is_set e"
  proof
    fix e assume "e \<in> set (blk_entries block)"
    then obtain j where "j < CELL_DIR_BLOCK_ENTRIES" "e = blk_entries block ! j" using len by (auto simp: in_set_conv_nth)
    with taken have "de_set e \<noteq> 0" by simp
    then show "entry_is_set e" using u1_cases by metis
  qed
  then have "length (blk_used block) = CELL_DIR_BLOCK_ENTRIES" using len by (simp add: blk_used_def)
  with assms(2) show False by simp
qed

lemma block_add_no_room:
  assumes "block_inv block" "length (blk_used block) = CELL_DIR_BLOCK_ENTRIES"
    and "entry_is_set entry" "wf_dir_entry entry" "de_checksum entry \<notin> de_checksum ` set (blk_used block)"
  shows "\<not> fst (cell_dir_block_add block entry)"
proof
  assume "fst (cell_dir_block_add block entry)"
  then obtain block' where add: "cell_dir_block_add block entry = (True, block')"
    by (cases "cell_dir_block_add block entry") simp
  from block_add_True [OF assms(1,3,4,5) add] blk_used_le_3 [of block'] assms(2)
  show False by (auto simp: CELL_DIR_BLOCK_ENTRIES_def)
qed

section \<open>How many checksums share a bucket\<close>

lemma bucket_keys:
  assumes "dir_inv d m base"
  shows "de_checksum ` set (blk_used (blocks d b)) \<subseteq> {k \<in> dom (dir_map d m base). block_no k = b}"
  using assms by (auto simp: dir_inv_def dir_map_None in_block_def dir_entries_def domIff)

lemma crowd_card:
  assumes "distinct ks"
  shows "crowd b ks = card {k \<in> set ks. block_no k = b}"
proof -
  have "{k \<in> set ks. block_no k = b} = set (filter (\<lambda>k. block_no k = b) ks)" by auto
  then show ?thesis using assms by (simp add: crowd_def distinct_card del: set_filter)
qed

text \<open>A bucket has no more slots in use than there are checksums of it.\<close>

lemma bucket_le_crowd:
  assumes "ring_dir c its"
  shows "length (blk_used (blocks (cell_dir_of c) b)) \<le> crowd b (map it_key its)"
proof -
  let ?d = "cell_dir_of c"
  have inv: "dir_inv ?d (slab c) (header_offset c)" and dist: "distinct (map it_key its)"
    and dom: "dom (dir_map ?d (slab c) (header_offset c)) = set (map it_key its)"
    using assms by (simp_all add: ring_dir_def item_dir_dom)
  have "distinct (map de_checksum (blk_used (blocks ?d b)))" using inv by (simp add: dir_inv_def block_inv_def)
  then have "length (blk_used (blocks ?d b)) = card (de_checksum ` set (blk_used (blocks ?d b)))"
    using distinct_card by fastforce
  also have "\<dots> \<le> card {k \<in> set (map it_key its). block_no k = b}"
    using bucket_keys [OF inv, of b] unfolding dom by (intro card_mono) auto
  finally show ?thesis using crowd_card [OF dist] by simp
qed

text \<open>Every checksum of a bucket is in one of its slots or in the overflow area.\<close>

lemma crowd_le_bucket:
  assumes "ring_dir c its"
  shows "crowd b (map it_key its) \<le> length (blk_used (blocks (cell_dir_of c) b)) +
     unat (blk_overflow_count (blocks (cell_dir_of c) b))"
proof -
  let ?d = "cell_dir_of c" and ?used = "blk_used (blocks (cell_dir_of c) b)"
  let ?ov = "filter (in_block b) (dir_ov ?d (slab c) (header_offset c))"
  have inv: "dir_inv ?d (slab c) (header_offset c)" and dist: "distinct (map it_key its)"
    and dom: "dom (dir_map ?d (slab c) (header_offset c)) = set (map it_key its)"
    using assms by (simp_all add: ring_dir_def item_dir_dom)
  have "{k \<in> set (map it_key its). block_no k = b} \<subseteq> de_checksum ` set (?used @ ?ov)"
  proof
    fix k assume "k \<in> {k \<in> set (map it_key its). block_no k = b}"
    then have k: "block_no k = b" "k \<in> dom (dir_map ?d (slab c) (header_offset c))" using dom by simp_all
    then obtain e where "e \<in> set (dir_entries ?d (slab c) (header_offset c) b)" "de_checksum e = k"
      using dir_map_None [of ?d "slab c" "header_offset c" k] by (auto simp: domIff)
    then show "k \<in> de_checksum ` set (?used @ ?ov)" using k(1) by (auto simp: dir_entries_def in_block_def)
  qed
  then have "card {k \<in> set (map it_key its). block_no k = b} \<le> card (de_checksum ` set (?used @ ?ov))"
    by (intro card_mono) auto
  also have "\<dots> \<le> length (?used @ ?ov)"
    using card_image_le [of "set (?used @ ?ov)" de_checksum] card_length [of "?used @ ?ov"] by simp
  finally show ?thesis using inv crowd_card [OF dist] by (simp add: dir_inv_def)
qed

lemma no_spill_no_overflow:
  assumes "dir_inv d m base" "dir_ov_count d = 0"
  shows "unat (blk_overflow_count (blocks d b)) = 0"
  using assms by (simp add: dir_inv_def dir_ov_def)

section \<open>Adding\<close>

lemma dir_add_spill:
  assumes "cell_dir_add d m base e = Inr (d', m')"
  shows "fst (cell_dir_block_add (blocks d (block_no (de_checksum e))) e) \<Longrightarrow> dir_ov_count d' = dir_ov_count d"
    "\<not> fst (cell_dir_block_add (blocks d (block_no (de_checksum e))) e) \<Longrightarrow> dir_ov_count d = 0 \<Longrightarrow>
       dir_ov_count d' = 1"
  using assms
  by (cases "cell_dir_block_add (blocks d (block_no (de_checksum e))) e";
      auto simp: cell_dir_add_def Let_def dir_ov_count_def cell_dir_overflow_add_def rbind_eq_Inr word_nat
        cell_dir_block_increment_overflow_def split: if_splits)+

lemma header_add_dir:
  assumes "cell_header_add c e sz = Inr c'"
  obtains m where "cell_dir_add (cell_dir_of c) (slab c) (header_offset c) e = Inr (cell_dir_of c', m)"
  using assms that by (auto simp: cell_header_add_def rbind_eq_Inr Let_def)

text \<open>
  With fewer than three checksums of its bucket around, a new one needs no overflow entry; with three
  of them, and nothing in the overflow area yet, it needs one.
\<close>

definition spill_step :: "nat \<Rightarrow> checksum list \<Rightarrow> checksum \<Rightarrow> nat \<Rightarrow> bool" where
  "spill_step s ks ck s' \<longleftrightarrow>
     (crowd (block_no ck) ks < CELL_DIR_BLOCK_ENTRIES \<longrightarrow> s' \<le> s) \<and>
     (s = 0 \<and> CELL_DIR_BLOCK_ENTRIES \<le> crowd (block_no ck) ks \<longrightarrow> s' = 1)"

lemma dir_add_keeps_spill:
  assumes dir: "ring_dir c its"
    and add: "cell_dir_add (cell_dir_of c) m base (cell_dir_entry_set de ck off) = Inr (d', m')"
    and few: "crowd (block_no ck) (map it_key its) < CELL_DIR_BLOCK_ENTRIES"
  shows "dir_ov_count d' = spill_of c"
proof -
  let ?b = "blocks (cell_dir_of c) (block_no ck)"
  have "block_inv ?b" using dir by (simp add: ring_dir_def dir_inv_def)
  then have "fst (cell_dir_block_add ?b (cell_dir_entry_set de ck off))"
    using bucket_le_crowd [OF dir, of "block_no ck"] few by (intro block_add_room) simp_all
  then show ?thesis using dir_add_spill(1) [OF add] by simp
qed

lemma dir_add_spills:
  assumes dir: "ring_dir c its"
    and add: "cell_dir_add (cell_dir_of c) m base (cell_dir_entry_set de ck off) = Inr (d', m')"
    and full: "CELL_DIR_BLOCK_ENTRIES \<le> crowd (block_no ck) (map it_key its)" and none: "spill_of c = 0"
    and new: "ck \<notin> it_key ` set its" "wf_checksum ck"
  shows "dir_ov_count d' = 1"
proof -
  let ?b = "blocks (cell_dir_of c) (block_no ck)" and ?e = "cell_dir_entry_set de ck off"
  have inv: "dir_inv (cell_dir_of c) (slab c) (header_offset c)"
    and dom: "dom (dir_map (cell_dir_of c) (slab c) (header_offset c)) = it_key ` set its"
    using dir by (simp_all add: ring_dir_def item_dir_dom)
  have blk: "block_inv ?b" using inv by (simp add: dir_inv_def)
  have "length (blk_used ?b) = CELL_DIR_BLOCK_ENTRIES"
    using crowd_le_bucket [OF dir, of "block_no ck"] no_spill_no_overflow [OF inv none, of "block_no ck"]
      full blk_used_le_3 [OF blk] by (simp add: CELL_DIR_BLOCK_ENTRIES_def)
  moreover have "de_checksum ?e \<notin> de_checksum ` set (blk_used ?b)"
    using bucket_keys [OF inv, of "block_no ck"] new(1) dom by auto
  ultimately have "\<not> fst (cell_dir_block_add ?b ?e)"
    using blk new(2) by (intro block_add_no_room) (simp_all add: wf_dir_entry_def)
  then show ?thesis using dir_add_spill(2) [OF add] none by simp
qed

lemma header_add_spill_step:
  assumes dir: "ring_dir c its" and same: "cell_dir_of c2 = cell_dir_of c"
    and add: "cell_header_add c2 (cell_dir_entry_set de ck off) sz = Inr c'"
    and new: "ck \<notin> it_key ` set its" "wf_checksum ck" and s: "spill_of c \<le> s"
  shows "spill_step s (map it_key its) ck (spill_of c')"
proof -
  from header_add_dir [OF add] obtain m where
    "cell_dir_add (cell_dir_of c) (slab c2) (header_offset c2) (cell_dir_entry_set de ck off) = Inr (cell_dir_of c', m)"
    using same by metis
  from dir_add_keeps_spill [OF dir this] dir_add_spills [OF dir this _ _ new] s show ?thesis
    by (simp add: spill_step_def)
qed

text \<open>Appending at the top changes the directory only through \<^verbatim>\<open>cell_header_add\<close>.\<close>

lemma add_top_spill_step:
  assumes dir: "ring_dir c its" and add: "cell_body_add_top c ck buffer bs de = Inr (True, c')"
    and new: "ck \<notin> it_key ` set its" "wf_checksum ck"
  shows "spill_step (spill_of c) (map it_key its) ck (spill_of c')"
proof -
  from add obtain c1 c2 c3 c4 where
    c: "body_update c (unat (top_off c)) (\<lambda>e. e\<lparr>be_free_space := 0, be_top_entry := 0,
         be_size := ucast bs, be_checksum := ck\<rparr>) = Inr c1"
      "slab_memcpy c1 (unat (top_off c) + sizeof_cell_body_entry) buffer (unat bs) = Inr c2"
      "cell_header_add c2 (cell_dir_entry_set de ck (top_off c2)) bs = Inr c3"
      "body_update c3 (unat (top_off c) + sizeof_cell_body_entry + unat bs)
         (\<lambda>e. (cell_body_set_top e)\<lparr>be_previous_size := ucast bs\<rparr>) = Inr c4"
      "cell_dir_of c' = cell_dir_of c4"
    unfolding cell_body_add_top_def Let_def by (auto simp: rbind_eq_Inr split: if_splits)
  have "cell_dir_of c2 = cell_dir_of c" using c(1,2)
    by (auto simp: body_update_def slab_memcpy_def rbind_eq_Inr split: if_splits)
  from header_add_spill_step [OF dir this c(3) new order_refl] show ?thesis
    using c(4,5) by (auto simp: body_update_def rbind_eq_Inr)
qed

section \<open>Removing\<close>

lemma header_remove_dir:
  assumes "cell_header_remove c off = Inr c'"
  obtains m where "cell_dir_remove (cell_dir_of c) (slab c) (header_offset c)
    (be_checksum (load_body_entry (slab c) off)) = Inr (True, cell_dir_of c', m)"
proof -
  from assms obtain entry d m c1 where
    "body_load c off = Inr entry"
    "cell_dir_remove (cell_dir_of c) (slab c) (header_offset c) (be_checksum entry) = Inr (True, d, m)"
    "cell_dir_of c' = d"
    by (auto simp: cell_header_remove_def Let_def rbind_eq_Inr ALWAYS_eq_Inr split: prod.splits)
  then show ?thesis using that by (auto simp: body_load_def split: if_splits)
qed

lemma dir_remove_spill:
  assumes "cell_dir_remove d m base ck = Inr (True, d', m')"
    and "\<not> cell_dir_block_overflowed (blocks d (block_no ck))"
  shows "dir_ov_count d' = dir_ov_count d"
proof (cases "cell_dir_block_remove (blocks d (block_no ck)) ck")
  case (Pair found block)
  then have "\<not> found \<Longrightarrow> block = blocks d (block_no ck)"
    by (auto simp: cell_dir_block_remove_def split: option.splits)
  with Pair assms show ?thesis
    by (cases found) (auto simp: cell_dir_remove_def Let_def dir_ov_count_def)
qed

text \<open>
  While the only overflow entry belongs to a bucket with more than three checksums, removing a checksum
  of another bucket does not free it.
\<close>

lemma header_remove_keeps_spill:
  assumes dir: "ring_dir c its" and rem: "cell_header_remove c off = Inr c'"
    and one: "spill_of c = 1" and full: "CELL_DIR_BLOCK_ENTRIES < crowd b (map it_key its)"
    and other: "block_no (be_checksum (load_body_entry (slab c) off)) \<noteq> b"
  shows "spill_of c' = 1"
proof -
  let ?d = "cell_dir_of c" and ?ck = "be_checksum (load_body_entry (slab c) off)"
  let ?ov = "dir_ov ?d (slab c) (header_offset c)"
  have inv: "dir_inv ?d (slab c) (header_offset c)" using dir by (simp add: ring_dir_def)
  have "block_inv (blocks ?d b)" using inv by (simp add: dir_inv_def)
  then have "0 < unat (blk_overflow_count (blocks ?d b))"
    using crowd_le_bucket [OF dir, of b] full blk_used_le_3 [of "blocks ?d b"]
    by (simp add: CELL_DIR_BLOCK_ENTRIES_def)
  then have "0 < length (filter (in_block b) ?ov)" using inv by (simp add: dir_inv_def)
  moreover have "length ?ov = 1" using one by (simp add: dir_ov_def)
  ultimately obtain e where "?ov = [e]" "in_block b e"
    by (cases ?ov) (auto split: if_splits)
  then have "filter (in_block (block_no ?ck)) ?ov = []" using other by (simp add: in_block_def)
  then have "unat (blk_overflow_count (blocks ?d (block_no ?ck))) = 0" using inv by (simp add: dir_inv_def)
  then have none: "\<not> cell_dir_block_overflowed (blocks ?d (block_no ?ck))"
    by (simp add: cell_dir_block_overflowed_def unat_eq_0)
  from header_remove_dir [OF rem] obtain m where
    "cell_dir_remove ?d (slab c) (header_offset c) ?ck = Inr (True, cell_dir_of c', m)" .
  from dir_remove_spill [OF this none] show ?thesis using one by simp
qed

end
