(* ===== verification/Chunk.thy ===== *)
theory Chunk
  imports Checksum
begin

text \<open>
  \<^verbatim>\<open>chunk.h\<close>, \<^verbatim>\<open>chunk.c\<close>, \<^verbatim>\<open>chunk_ref.h\<close>, \<^verbatim>\<open>chunk_ref.c\<close> and \<^verbatim>\<open>cache_metrics.h\<close>, \<^verbatim>\<open>cache_metrics.c\<close>: the
  plain data that passes between the caches and their users.
\<close>

definition CHUNK_MAX_BUFFER_SIZE :: nat where
  "CHUNK_MAX_BUFFER_SIZE = 32768"

text \<open>\<^verbatim>\<open>buffer_size\<close> is a \<^verbatim>\<open>uint16_t\<close>, wide enough for the 32768 the assertion of \<^verbatim>\<open>chunk_set\<close> admits.\<close>

record chunk =
  ch_checksum :: checksum
  ch_buffer :: "u8 list"
  ch_buffer_size :: u16

definition wf_chunk :: "chunk \<Rightarrow> bool" where
  "wf_chunk ch \<longleftrightarrow> length (ch_buffer ch) = CHUNK_MAX_BUFFER_SIZE \<and> wf_checksum (ch_checksum ch)"

definition chunk_init :: chunk where
  "chunk_init = \<lparr>ch_checksum = checksum_init, ch_buffer = replicate CHUNK_MAX_BUFFER_SIZE 0,
     ch_buffer_size = 0\<rparr>"

text \<open>\<open>buffer\<close> is what the source pointer refers to; \<^verbatim>\<open>memcpy\<close> reads \<open>buffer_size\<close> bytes of it.\<close>

definition chunk_set :: "chunk \<Rightarrow> checksum \<Rightarrow> u8 list \<Rightarrow> u32 \<Rightarrow> chunk result" where
  "chunk_set ch checksum buffer buffer_size =
     ALWAYS (unat buffer_size \<le> CHUNK_MAX_BUFFER_SIZE)
       (if unat buffer_size \<le> length buffer then
          Inr (ch\<lparr>ch_checksum := checksum,
                  ch_buffer := take (unat buffer_size) buffer @ drop (unat buffer_size) (ch_buffer ch),
                  ch_buffer_size := ucast buffer_size\<rparr>)
        else Inl OutOfBounds)"

text \<open>The bytes a chunk holds.\<close>

definition chunk_data :: "chunk \<Rightarrow> u8 list" where
  "chunk_data ch = take (unat (ch_buffer_size ch)) (ch_buffer ch)"

lemma wf_chunk_init [simp]: "wf_chunk chunk_init"
  by (simp add: wf_chunk_def chunk_init_def)

text \<open>The size survives the conversion from 32 to 16 bits because of the assertion.\<close>

lemma chunk_set_data:
  assumes "wf_chunk ch" "wf_checksum ck" "unat bs \<le> 32768" "unat bs \<le> length buffer"
  obtains ch' where "chunk_set ch ck buffer bs = Inr ch'" "wf_chunk ch'" "ch_checksum ch' = ck"
    "chunk_data ch' = take (unat bs) buffer"
proof -
  have "unat (ucast bs :: u16) = unat bs" using assms(3) by (simp add: word_nat)
  then show ?thesis
    using assms that [of "ch\<lparr>ch_checksum := ck, ch_buffer := take (unat bs) buffer @ drop (unat bs) (ch_buffer ch),
      ch_buffer_size := ucast bs\<rparr>"]
    by (simp add: chunk_set_def chunk_data_def wf_chunk_def CHUNK_MAX_BUFFER_SIZE_def)
qed

section \<open>References\<close>

text \<open>
  A chunk reference points at a run of a caller's buffer.  \<open>ref_buffer\<close> is what the pointer refers to:
  the bytes from there to the end of the buffer, none for the null pointer.
\<close>

record chunk_ref =
  ref_checksum :: checksum
  ref_buffer :: "u8 list"
  ref_buffer_size :: u32

definition chunk_ref_init :: chunk_ref where
  "chunk_ref_init = \<lparr>ref_checksum = checksum_init, ref_buffer = [], ref_buffer_size = 0\<rparr>"

definition chunk_ref_set :: "(u8 list \<Rightarrow> u8 list) \<Rightarrow> u8 list \<Rightarrow> u32 \<Rightarrow> chunk_ref" where
  "chunk_ref_set mh_sha256 buffer buffer_size =
     \<lparr>ref_checksum = checksum_gen mh_sha256 buffer buffer_size, ref_buffer = buffer,
      ref_buffer_size = buffer_size\<rparr>"

section \<open>Metrics\<close>

record cache_metrics =
  met_byte_count :: u64
  met_entry_count :: u64

definition cache_metrics_init :: cache_metrics where
  "cache_metrics_init = \<lparr>met_byte_count = 0, met_entry_count = 0\<rparr>"

end
