(* ===== verification/Cell.thy ===== *)
theory Cell
  imports Cell_Body_Add Chunk
begin

text \<open>
  \<^verbatim>\<open>cell.h\<close>, \<^verbatim>\<open>cell.c\<close>: a cell with its lock.  The mutex is the non-recursive default mutex of
  \<^verbatim>\<open>pthread\<close>: locking it twice never returns (\<open>Deadlock\<close>), unlocking one that is not held or using one
  that is not initialised is reported by a return code, on which the code asserts.  Each operation
  holds the lock from its first to its last step and is one function of the model; \<^verbatim>\<open>Cache_Threads\<close> cuts it into steps and
  shows that operations of different threads on one cell happen one after the other.
\<close>

section \<open>The lock\<close>

definition pthread_mutex_lock :: "cell \<Rightarrow> cell result" where
  "pthread_mutex_lock c =
     (case mutex c of
        MutexUnlocked \<Rightarrow> Inr (c\<lparr>mutex := MutexLocked\<rparr>)
      | MutexLocked \<Rightarrow> Inl Deadlock
      | MutexUninitialised \<Rightarrow> Inl AssertFailed)"

definition pthread_mutex_unlock :: "cell \<Rightarrow> cell result" where
  "pthread_mutex_unlock c = ALWAYS (mutex c = MutexLocked) (Inr (c\<lparr>mutex := MutexUnlocked\<rparr>))"

definition pthread_mutex_destroy :: "cell \<Rightarrow> cell result" where
  "pthread_mutex_destroy c = ALWAYS (mutex c = MutexUnlocked) (Inr (c\<lparr>mutex := MutexUninitialised\<rparr>))"

section \<open>Operations\<close>

text \<open>
  \<^verbatim>\<open>cell_init\<close> takes over a slab whose bytes may come from an earlier run: \<open>header\<close> and \<open>m\<close> are the
  header and the body found there.
\<close>

definition cell_init :: "cell_header \<Rightarrow> mem \<Rightarrow> u32 \<Rightarrow> cell result" where
  "cell_init header m sz =
     ALWAYS (sizeof_cell_header < unat sz)
       (let c = \<lparr>mutex = MutexUninitialised, cell_header = header, slab = m, slab_size = sz\<rparr> in
        rbind (if \<not> cell_header_sane (cell_header c) then cell_header_init c else Inr c) (\<lambda>c1.
        Inr (c1\<lparr>mutex := MutexUnlocked\<rparr>)))"

definition cell_release :: "cell \<Rightarrow> cell result" where
  "cell_release c = pthread_mutex_destroy c"

definition set_ic :: "cell \<Rightarrow> cell_ic \<Rightarrow> cell" where
  "set_ic c ic = c\<lparr>cell_header := (cell_header c)\<lparr>hdr_cell_ic := ic\<rparr>\<rparr>"

definition cell_add_chunk :: "cell \<Rightarrow> checksum \<Rightarrow> u8 list \<Rightarrow> u32 \<Rightarrow> (bool \<times> cell) result" where
  "cell_add_chunk c checksum buffer buffer_size =
     rbind (pthread_mutex_lock c) (\<lambda>c1.
     rbind (cell_dir_get_chunk (hdr_cell_dir (cell_header c1)) (slab c1) (header_offset c1) checksum
              cell_dir_entry_init) (\<lambda>(found, dir_entry).
     if found then rbind (pthread_mutex_unlock c1) (\<lambda>c2. Inr (False, c2))
     else
       rbind (cell_body_add (set_ic c1 (snd (cell_ic_on_entry (hdr_cell_ic (cell_header c1)))))
                checksum buffer buffer_size dir_entry) (\<lambda>c2.
       rbind (pthread_mutex_unlock (set_ic c2 (snd (cell_ic_on_exit (hdr_cell_ic (cell_header c2))))))
         (\<lambda>c3. Inr (True, c3)))))"

definition slab_read :: "cell \<Rightarrow> nat \<Rightarrow> nat \<Rightarrow> u8 list result" where
  "slab_read c off n =
     (if off + n \<le> header_offset c then Inr (mem_read (slab c) off n) else Inl OutOfBounds)"

definition cell_get_chunk :: "cell \<Rightarrow> checksum \<Rightarrow> chunk \<Rightarrow> (bool \<times> cell \<times> chunk) result" where
  "cell_get_chunk c checksum chunk =
     rbind (pthread_mutex_lock c) (\<lambda>c1.
     rbind (cell_dir_get_chunk (hdr_cell_dir (cell_header c1)) (slab c1) (header_offset c1) checksum
              cell_dir_entry_init) (\<lambda>(found, dir_entry).
     if \<not> found then rbind (pthread_mutex_unlock c1) (\<lambda>c2. Inr (False, c2, chunk))
     else
       let ptr = unat (de_offset dir_entry) in
       rbind (body_load c1 ptr) (\<lambda>entry.
       rbind (slab_read c1 (ptr + sizeof_cell_body_entry) (unat (be_size entry))) (\<lambda>buffer.
       rbind (chunk_set chunk (de_checksum dir_entry) buffer (ucast (be_size entry))) (\<lambda>chunk1.
       rbind (pthread_mutex_unlock c1) (\<lambda>c2. Inr (True, c2, chunk1)))))))"

definition cell_has_chunk :: "cell \<Rightarrow> checksum \<Rightarrow> (bool \<times> cell) result" where
  "cell_has_chunk c checksum =
     rbind (pthread_mutex_lock c) (\<lambda>c1.
     rbind (cell_dir_get_chunk (hdr_cell_dir (cell_header c1)) (slab c1) (header_offset c1) checksum
              cell_dir_entry_init) (\<lambda>(ret, _).
     rbind (pthread_mutex_unlock c1) (\<lambda>c2. Inr (ret, c2))))"

definition cell_entry_count :: "cell \<Rightarrow> (int \<times> cell) result" where
  "cell_entry_count c =
     rbind (pthread_mutex_lock c) (\<lambda>c1.
     rbind (pthread_mutex_unlock c1) (\<lambda>c2. Inr (sint (cell_header_entry_count (cell_header c1)), c2)))"

definition cell_byte_count :: "cell \<Rightarrow> (int \<times> cell) result" where
  "cell_byte_count c =
     rbind (pthread_mutex_lock c) (\<lambda>c1.
     rbind (pthread_mutex_unlock c1) (\<lambda>c2. Inr (sint (cell_header_byte_count (cell_header c1)), c2)))"

text \<open>An \<^verbatim>\<open>int32_t\<close> is added to a \<^verbatim>\<open>uint64_t\<close>, so it is sign extended.\<close>

definition cell_get_metrics :: "cell \<Rightarrow> cache_metrics \<Rightarrow> (cache_metrics \<times> cell) result" where
  "cell_get_metrics c metrics =
     rbind (pthread_mutex_lock c) (\<lambda>c1.
     let metrics1 = metrics
           \<lparr>met_byte_count := met_byte_count metrics + scast (cell_header_byte_count (cell_header c1))\<rparr>;
         metrics2 = metrics1
           \<lparr>met_entry_count := met_entry_count metrics1 + scast (cell_header_entry_count (cell_header c1))\<rparr>
     in rbind (pthread_mutex_unlock c1) (\<lambda>c2. Inr (metrics2, c2)))"

section \<open>Invariant and contents\<close>

text \<open>The items of a cell that is between two operations.\<close>

definition cell_items :: "cell \<Rightarrow> item list \<Rightarrow> bool" where
  "cell_items c its \<longleftrightarrow> (\<exists>pre mid post. cell_view c pre mid post \<and> its = pre @ post) \<and> ring_filled c"

definition cell_inv :: "cell \<Rightarrow> bool" where
  "cell_inv c \<longleftrightarrow> (\<exists>its. cell_items c its) \<and> cell_header_sane (cell_header c) \<and> mutex c = MutexUnlocked"

text \<open>
  What a cell maps a checksum to: through the directory to an entry, and from there to as many bytes
  as the entry says.
\<close>

definition cell_map :: "cell \<Rightarrow> checksum \<Rightarrow> u8 list option" where
  "cell_map c ck =
     (case dir_map (cell_dir_of c) (slab c) (header_offset c) ck of
        None \<Rightarrow> None
      | Some off \<Rightarrow> Some (mem_read (slab c) (unat off + sizeof_cell_body_entry)
                           (unat (be_size (load_body_entry (slab c) (unat off))))))"

lemma cell_items_ring:
  assumes "cell_items c its"
  obtains pre mid post where "cell_view c pre mid post" "its = pre @ post" "ring_filled c"
    "ring c pre (last_size (last_size 0 pre) mid) (unat (next_off c) + span mid) post"
    "ring_dir c its"
  using assms ringD(3) unfolding cell_items_def cell_view_def by blast

lemma cell_items_keys:
  assumes "cell_items c its"
  shows "distinct (map it_key its)" "dir_inv (cell_dir_of c) (slab c) (header_offset c)"
    "dir_map (cell_dir_of c) (slab c) (header_offset c) = item_dir its" "\<forall>it \<in> set its. used_item it"
    "unat (hdr_entry_count (cell_header c)) = length its"
    "unat (hdr_byte_count (cell_header c)) = sum_list (map it_size its)"
  using cell_items_ring [OF assms] unfolding ring_dir_def by metis+

lemma cell_items_mem:
  assumes "cell_items c its" "it \<in> set its"
  shows "it_entry it = load_body_entry (slab c) (it_off it)"
    "it_data it = mem_read (slab c) (it_off it + sizeof_cell_body_entry) (it_size it)"
    "it_off it + it_span it \<le> header_offset c" "unat (of_nat (it_off it) :: u31) = it_off it"
proof -
  from cell_items_ring [OF assms(1)] obtain pre mid post where
    r: "ring c pre (last_size (last_size 0 pre) mid) (unat (next_off c) + span mid) post"
    and its: "its = pre @ post" by metis
  note b = ring_bounds [OF r]
  have sg: "seg (slab c) 0 0 pre"
      "seg (slab c) (unat (next_off c) + span mid) (last_size (last_size 0 pre) mid) post"
    using ringD(2) [OF r] by (simp_all add: ring_mem_def)
  have f: "it_entry it = load_body_entry (slab c) (it_off it) \<and>
      it_data it = mem_read (slab c) (it_off it + sizeof_cell_body_entry) (it_size it) \<and>
      it_off it + it_span it \<le> unat (top_off c)"
    using seg_item_bounds [OF sg(1), of it] seg_item_bounds [OF sg(2), of it] b(1-3) assms(2) its by auto
  then show "it_entry it = load_body_entry (slab c) (it_off it)"
    "it_data it = mem_read (slab c) (it_off it + sizeof_cell_body_entry) (it_size it)"
    "it_off it + it_span it \<le> header_offset c" "unat (of_nat (it_off it) :: u31) = it_off it"
    using b(4,6) by (auto simp: word_nat)
qed

lemma item_dir_Some:
  assumes "distinct (map it_key its)" "it \<in> set its"
  shows "item_dir its (it_key it) = Some (of_nat (it_off it))"
  using assms by (auto simp: item_dir_def item_pair_def comp_def intro!: map_of_is_SomeI image_eqI [of _ _ it])

lemma items_lookup:
  assumes "distinct (map it_key its)" "it \<in> set its"
  shows "map_of (map it_kd its) (it_key it) = Some (it_data it)"
  using assms by (auto simp: comp_def intro!: map_of_is_SomeI image_eqI [of _ _ it])

text \<open>The contents are exactly the items.\<close>

lemma cell_map_items:
  assumes "cell_items c its"
  shows "cell_map c = map_of (map it_kd its)"
proof
  fix ck
  note k = cell_items_keys [OF assms]
  show "cell_map c ck = map_of (map it_kd its) ck"
  proof (cases "ck \<in> it_key ` set its")
    case True
    then obtain it where it: "it \<in> set its" "ck = it_key it" by blast
    note m = cell_items_mem [OF assms it(1)]
    show ?thesis
      using item_dir_Some [OF k(1) it(1)] items_lookup [OF k(1) it(1)] it(2) m(2-4) k(3)
      by (simp add: cell_map_def m(1) [symmetric])
  next
    case False
    then have "item_dir its ck = None" using item_dir_dom [of its] by (metis domIff)
    moreover have "map_of (map it_kd its) ck = None" using False by (simp add: map_of_eq_None_iff image_image)
    ultimately show ?thesis using k(3) by (simp add: cell_map_def)
  qed
qed

lemma cell_map_dom:
  assumes "cell_items c its"
  shows "dom (cell_map c) = it_key ` set its"
  by (simp add: cell_map_items [OF assms] dom_map_of_conv_image_fst image_image)

lemma map_of_kd_subset:
  assumes "distinct (map it_key its)" "it_kd ` set its' \<subseteq> insert (ck, d) (it_kd ` set its)"
    and "ck \<notin> it_key ` set its"
  shows "map_of (map it_kd its') \<subseteq>\<^sub>m (map_of (map it_kd its))(ck \<mapsto> d)"
  unfolding map_le_def
proof
  fix k assume "k \<in> dom (map_of (map it_kd its'))"
  then obtain v where v: "map_of (map it_kd its') k = Some v" by blast
  then have "(k, v) \<in> insert (ck, d) (it_kd ` set its)" using map_of_SomeD [OF v] assms(2) by auto
  moreover have "map_of (map it_kd its) k = Some v \<and> k \<noteq> ck" if "(k, v) \<in> it_kd ` set its"
  proof -
    from that obtain it where "it \<in> set its" "k = it_key it" "v = it_data it" by blast
    then show ?thesis using items_lookup [OF assms(1)] assms(3) by blast
  qed
  ultimately have "k = ck \<and> v = d \<or> map_of (map it_kd its) k = Some v \<and> k \<noteq> ck" by blast
  then show "map_of (map it_kd its') k = ((map_of (map it_kd its))(ck \<mapsto> d)) k"
    using v by (elim disjE conjE) simp_all
qed

section \<open>Initialisation\<close>

lemma header_init_empty:
  assumes geo: "ok_geometry (slab_size c)"
  obtains c1 where "cell_header_init c = Inr c1" "cell_items c1 []" "cell_header_sane (cell_header c1)"
    "slab_size c1 = slab_size c" "next_off c1 = 0" "top_off c1 = 0" "spill_of c1 = 0"
proof -
  let ?c = "c\<lparr>cell_header := \<lparr>hdr_magic = 0, hdr_entry_count = 0, hdr_byte_count = 0,
            hdr_cell_ic = cell_ic_init,
            hdr_cell_body = \<lparr>top_entry_offset = 0, next_entry_offset = 0\<rparr>,
            hdr_cell_dir = cell_dir_init\<rparr>\<rparr>"
  have off: "header_offset ?c = header_offset c" by (simp add: header_offset_def)
  note b = header_offset_bounds [OF geo]
  have wf: "wf_checksum (be_checksum ((cell_body_set_top (load_body_entry (slab ?c) 0))\<lparr>be_previous_size := 0\<rparr>))"
    by (simp add: cell_body_set_top_def)
  have "0 + 36 \<le> header_offset ?c" using b off by simp
  from update_entry_only [of 0 ?c "\<lambda>e. (cell_body_set_top e)\<lparr>be_previous_size := 0\<rparr>", OF this wf] obtain m where
    m: "body_update ?c 0 (\<lambda>e. (cell_body_set_top e)\<lparr>be_previous_size := 0\<rparr>) = Inr (?c\<lparr>slab := m\<rparr>)"
      "load_body_entry m 0 = (cell_body_set_top (load_body_entry (slab ?c) 0))\<lparr>be_previous_size := 0\<rparr>"
    by metis
  let ?d = "set_next_off (set_top_off (?c\<lparr>slab := m\<rparr>) 0) 0"
  let ?c1 = "?d\<lparr>cell_header := (cell_header ?d)\<lparr>hdr_magic := CELL_HEADER_MAGIC\<rparr>\<rparr>"
  have res: "cell_header_init c = Inr ?c1"
    using m(1) by (simp add: cell_header_init_def cell_body_init_def)
  have spill: "spill_of ?c1 = 0"
    by (simp add: dir_ov_count_def cell_dir_init_def cell_dir_overflow_init_def)
  have "ring_dir ?c1 ([] @ [])"
    by (simp add: ring_dir_def dir_inv_init dir_map_init item_dir_def)
  moreover have "ring_mem (slab ?c1) (unat (next_off ?c1)) (unat (top_off ?c1)) [] 0 0 []"
    using m(2) by (simp add: ring_mem_def is_top_marker_def cell_body_set_top_def)
  moreover have "unat (top_off ?c1) + 36 + spill_of ?c1 * 36 \<le> header_offset ?c1"
  proof -
    have "unat (top_off ?c1) = 0" "header_offset ?c1 = header_offset c" by (simp_all add: header_offset_def)
    then show ?thesis unfolding spill using b(1) by linarith
  qed
  ultimately have "ring ?c1 [] 0 0 []" using geo by (intro ringI) simp_all
  then have "cell_view ?c1 [] [] []" by (simp add: cell_view_def)
  moreover have "ring_filled ?c1" by (simp add: ring_filled_def)
  ultimately have "cell_items ?c1 []" unfolding cell_items_def by (metis append_Nil)
  moreover have "cell_header_sane (cell_header ?c1)"
    by (simp add: cell_header_sane_def set_next_off_def set_top_off_def sane_init)
  ultimately show ?thesis using that [OF res] spill by (simp add: set_next_off_def set_top_off_def)
qed

lemma cell_items_upd [simp]:
  "cell_items (c\<lparr>mutex := mu\<rparr>) its = cell_items c its" "cell_items (set_ic c ic) its = cell_items c its"
  "ring_filled (c\<lparr>mutex := mu\<rparr>) = ring_filled c" "ring_filled (set_ic c ic) = ring_filled c"
  "cell_map (c\<lparr>mutex := mu\<rparr>) = cell_map c" "cell_map (set_ic c ic) = cell_map c"
  by (simp_all add: cell_items_def cell_view_def ring_def ring_dir_def ring_filled_def set_ic_def
      header_offset_def cell_map_def [abs_def] cong: option.case_cong)

text \<open>The lock and the integrity codes play no part in the body operations.\<close>

definition with_meta :: "cell \<Rightarrow> mutex_state \<Rightarrow> cell_ic \<Rightarrow> cell" where
  "with_meta c mu ic = set_ic (c\<lparr>mutex := mu\<rparr>) ic"

lemma with_meta_simps [simp]:
  "slab (with_meta c mu ic) = slab c" "slab_size (with_meta c mu ic) = slab_size c"
  "header_offset (with_meta c mu ic) = header_offset c" "mutex (with_meta c mu ic) = mu"
  "hdr_cell_ic (cell_header (with_meta c mu ic)) = ic" "cell_dir_of (with_meta c mu ic) = cell_dir_of c"
  "hdr_cell_body (cell_header (with_meta c mu ic)) = hdr_cell_body (cell_header c)"
  "hdr_entry_count (cell_header (with_meta c mu ic)) = hdr_entry_count (cell_header c)"
  "hdr_byte_count (cell_header (with_meta c mu ic)) = hdr_byte_count (cell_header c)"
  "hdr_magic (cell_header (with_meta c mu ic)) = hdr_magic (cell_header c)"
  "body_load (with_meta c mu ic) off = body_load c off"
  "cell_body_free_space (with_meta c mu ic) = cell_body_free_space c"
  "cell_view (with_meta c mu ic) pre mid post = cell_view c pre mid post"
  "set_dir (with_meta c mu ic) d m = with_meta (set_dir c d m) mu ic"
  by (simp_all add: with_meta_def set_ic_def header_offset_def body_load_def cell_body_free_space_def
      cell_header_bytes_used_def cell_view_def ring_def ring_dir_def set_dir_def)

lemma header_remove_meta:
  "cell_header_remove (with_meta c mu ic) off =
     rbind (cell_header_remove c off) (\<lambda>c'. Inr (with_meta c' mu ic))"
proof -
  have upd: "(with_meta d mu ic)\<lparr>cell_header := (cell_header (with_meta d mu ic))
          \<lparr>hdr_entry_count := a, hdr_byte_count := b\<rparr>\<rparr> =
        with_meta (d\<lparr>cell_header := (cell_header d)\<lparr>hdr_entry_count := a, hdr_byte_count := b\<rparr>\<rparr>) mu ic"
    for d a b by (simp add: with_meta_def set_ic_def)
  show ?thesis
    by (simp add: cell_header_remove_def Let_def rbind_assoc rbind_ALWAYS case_prod_unfold upd)
qed

lemma self_evicts_meta [simp]: "self_evicts (with_meta c mu ic) bs = self_evicts c bs"
  by (auto simp: self_evicts_def header_remove_meta split: sum.splits if_splits)

section \<open>Lookups\<close>

lemma cell_lookup:
  assumes "cell_items c its" "wf_checksum ck"
  shows "\<exists>x. cell_dir_get_chunk (cell_dir_of c) (slab c) (header_offset c) ck e = Inr (cell_map c ck \<noteq> None, x) \<and>
     (case dir_map (cell_dir_of c) (slab c) (header_offset c) ck of
        None \<Rightarrow> x = e | Some off \<Rightarrow> de_checksum x = ck \<and> de_offset x = off)"
  using dirs.get_law [OF cell_items_keys(2) [OF assms(1)] assms(2), of e]
  by (cases "dir_map (cell_dir_of c) (slab c) (header_offset c) ck") (simp_all add: cell_map_def)

lemma lock_unlocked:
  assumes "mutex c = MutexUnlocked"
  shows "pthread_mutex_lock c = Inr (c\<lparr>mutex := MutexLocked\<rparr>)"
    "pthread_mutex_unlock (c\<lparr>mutex := MutexLocked\<rparr>) = Inr c"
  using assms by (cases c; simp add: pthread_mutex_lock_def pthread_mutex_unlock_def)+

lemma locked_simps [simp]:
  "header_offset (c\<lparr>mutex := mu\<rparr>) = header_offset c"
  "body_load (c\<lparr>mutex := mu\<rparr>) off = body_load c off"
  "slab_read (c\<lparr>mutex := mu\<rparr>) off n = slab_read c off n"
  by (simp_all add: header_offset_def body_load_def slab_read_def)

text \<open>A chunk that is there is returned with the bytes the contents promise.\<close>

lemma get_chunk_present:
  assumes items: "cell_items c its" and mu: "mutex c = MutexUnlocked" and wf: "wf_checksum ck" "wf_chunk ch"
    and present: "cell_map c ck = Some d"
  obtains ch' where "cell_get_chunk c ck ch = Inr (True, c, ch')" "wf_chunk ch'" "ch_checksum ch' = ck"
    "chunk_data ch' = d"
proof -
  have "ck \<in> it_key ` set its" using cell_map_dom [OF items] present by blast
  then obtain it where it: "it \<in> set its" "it_key it = ck" by blast
  note k = cell_items_keys [OF items] and m = cell_items_mem [OF items it(1)]
  have d: "d = it_data it"
    using items_lookup [OF k(1) it(1)] it(2) present by (simp add: cell_map_items [OF items])
  have dm: "dir_map (cell_dir_of c) (slab c) (header_offset c) ck = Some (of_nat (it_off it))"
    using item_dir_Some [OF k(1) it(1)] it(2) k(3) by simp
  obtain x where x: "cell_dir_get_chunk (cell_dir_of c) (slab c) (header_offset c) ck cell_dir_entry_init = Inr (True, x)"
    "de_checksum x = ck" "de_offset x = of_nat (it_off it)"
    using cell_lookup [OF items wf(1), of cell_dir_entry_init] dm present by auto
  have sz: "unat (ucast (be_size (it_entry it)) :: u32) = it_size it" "it_size it \<le> 32768"
    using unat_bound_u15 [of "be_size (it_entry it)"] by (simp_all add: word_nat)
  have ld: "body_load c (it_off it) = Inr (it_entry it)"
      "slab_read c (it_off it + sizeof_cell_body_entry) (it_size it) = Inr d"
    using m(3) d m(2) unfolding m(1) [symmetric] body_load_def slab_read_def it_span_def by simp_all
  have "length d = it_size it" using d m(2) by simp
  then obtain ch' where ch': "chunk_set ch ck d (ucast (be_size (it_entry it))) = Inr ch'" "wf_chunk ch'"
      "ch_checksum ch' = ck" "chunk_data ch' = d"
    using chunk_set_data [OF wf(2,1), of "ucast (be_size (it_entry it))" d] sz by auto
  have "cell_get_chunk c ck ch = Inr (True, c, ch')"
    using x ld ch'(1) m(4) by (simp add: cell_get_chunk_def lock_unlocked [OF mu])
  with ch' show ?thesis using that by blast
qed

lemma get_chunk_absent:
  assumes "cell_items c its" "mutex c = MutexUnlocked" "wf_checksum ck" "cell_map c ck = None"
  shows "cell_get_chunk c ck ch = Inr (False, c, ch)"
  using cell_lookup [OF assms(1,3), of cell_dir_entry_init] assms(4)
  by (auto simp: cell_get_chunk_def lock_unlocked [OF assms(2)])

lemma has_chunk_lookup:
  assumes "cell_items c its" "mutex c = MutexUnlocked" "wf_checksum ck"
  shows "cell_has_chunk c ck = Inr (cell_map c ck \<noteq> None, c)"
  using cell_lookup [OF assms(1,3), of cell_dir_entry_init]
  by (auto simp: cell_has_chunk_def lock_unlocked [OF assms(2)])

lemma add_chunk_present:
  assumes "cell_items c its" "mutex c = MutexUnlocked" "wf_checksum ck" "cell_map c ck \<noteq> None"
  shows "cell_add_chunk c ck buffer bs = Inr (False, c)"
  using cell_lookup [OF assms(1,3), of cell_dir_entry_init] assms(4)
  by (auto simp: cell_add_chunk_def lock_unlocked [OF assms(2)])

section \<open>Adding a chunk\<close>

text \<open>The cell as \<^verbatim>\<open>cell_body_add\<close> sees it: locked, and with the entry code bumped.\<close>

definition entered :: "cell \<Rightarrow> cell" where
  "entered c = with_meta c MutexLocked (snd (cell_ic_on_entry (hdr_cell_ic (cell_header c))))"

definition left_cell :: "cell \<Rightarrow> cell" where
  "left_cell c = with_meta c MutexUnlocked (snd (cell_ic_on_exit (hdr_cell_ic (cell_header c))))"

lemma add_chunk_absent:
  assumes "cell_items c its" "mutex c = MutexUnlocked" "wf_checksum ck" "cell_map c ck = None"
  shows "cell_add_chunk c ck buffer bs =
     rbind (cell_body_add (entered c) ck buffer bs cell_dir_entry_init) (\<lambda>c2.
       ALWAYS (mutex c2 = MutexLocked) (Inr (True, left_cell c2)))"
proof -
  have e: "set_ic (c\<lparr>mutex := MutexLocked\<rparr>) (snd (cell_ic_on_entry (hdr_cell_ic (cell_header c)))) = entered c"
    by (simp add: entered_def with_meta_def)
  have "rbind (pthread_mutex_unlock (set_ic c2 (snd (cell_ic_on_exit (hdr_cell_ic (cell_header c2))))))
      (\<lambda>c3. Inr (True, c3)) = ALWAYS (mutex c2 = MutexLocked) (Inr (True, left_cell c2))" for c2
    by (cases c2) (simp add: pthread_mutex_unlock_def rbind_ALWAYS left_cell_def with_meta_def set_ic_def)
  then show ?thesis
    using cell_lookup [OF assms(1,3), of cell_dir_entry_init] assms(4)
    by (auto simp: cell_add_chunk_def lock_unlocked [OF assms(2)] e cell_map_def split: option.splits)
qed

lemma entered_items:
  assumes "cell_items c its"
  shows "cell_items (entered c) its" "cell_map (entered c) = cell_map c"
  using assms by (simp_all add: entered_def with_meta_def)

text \<open>What \<^verbatim>\<open>cell_body_add\<close> did to the items, after the exit code is written and the lock released.\<close>

lemma left_added:
  assumes "added (entered c) keep its (ck, d) c2 its'"
    and "cell_items c its" "cell_header_sane (cell_header c)" "cell_map c ck = None"
  shows "mutex c2 = MutexLocked" "cell_items (left_cell c2) its'" "cell_inv (left_cell c2)"
    "cell_map (left_cell c2) \<subseteq>\<^sub>m (cell_map c)(ck \<mapsto> d)"
    "ck \<in> it_key ` set its' \<longleftrightarrow> cell_map (left_cell c2) ck = Some d"
    "keep = its \<Longrightarrow> ck \<in> it_key ` set its' \<Longrightarrow> cell_map (left_cell c2) = (cell_map c)(ck \<mapsto> d)"
    "slab_size (left_cell c2) = slab_size c"
proof -
  have a: "cell_items c2 its'" "same_meta (entered c) c2" "it_kd ` set keep \<subseteq> it_kd ` set its'"
      "it_kd ` set its' \<subseteq> insert (ck, d) (it_kd ` set its)"
    using assms(1) unfolding added_def cell_items_def by blast+
  show mu: "mutex c2 = MutexLocked" using a(2) by (simp add: same_meta_def entered_def)
  show it: "cell_items (left_cell c2) its'" using a(1) by (simp add: left_cell_def with_meta_def)
  show "cell_inv (left_cell c2)"
    using it a(2) assms(3) on_exit_sane
    by (auto simp: cell_inv_def left_cell_def cell_header_sane_def same_meta_def entered_def split: if_splits)
  show "slab_size (left_cell c2) = slab_size c"
    using a(2) by (simp add: left_cell_def same_meta_def entered_def)
  have fresh: "ck \<notin> it_key ` set its" using cell_map_dom [OF assms(2)] assms(4) by (metis domIff)
  note k = cell_items_keys(1) [OF assms(2)] and k' = cell_items_keys(1) [OF it]
  show le: "cell_map (left_cell c2) \<subseteq>\<^sub>m (cell_map c)(ck \<mapsto> d)"
    unfolding cell_map_items [OF it] cell_map_items [OF assms(2)] by (rule map_of_kd_subset [OF k a(4) fresh])
  show iff: "ck \<in> it_key ` set its' \<longleftrightarrow> cell_map (left_cell c2) ck = Some d"
  proof
    assume "ck \<in> it_key ` set its'"
    then have "ck \<in> dom (cell_map (left_cell c2))" using cell_map_dom [OF it] by simp
    then show "cell_map (left_cell c2) ck = Some d" using le by (simp add: map_le_def)
  next
    assume "cell_map (left_cell c2) ck = Some d"
    then show "ck \<in> it_key ` set its'" using cell_map_dom [OF it] by (metis domI)
  qed
  show "cell_map (left_cell c2) = (cell_map c)(ck \<mapsto> d)" if "keep = its" "ck \<in> it_key ` set its'"
  proof (rule map_le_antisym [OF le])
    have "it_key ` set its \<subseteq> it_key ` set its'"
      using image_mono [OF a(3), of fst] that(1) by (simp add: image_image)
    then have sub: "dom ((cell_map c)(ck \<mapsto> d)) \<subseteq> dom (cell_map (left_cell c2))"
      using cell_map_dom [OF it] cell_map_dom [OF assms(2)] that(2) by auto
    show "(cell_map c)(ck \<mapsto> d) \<subseteq>\<^sub>m cell_map (left_cell c2)"
      unfolding map_le_def
    proof
      fix k assume "k \<in> dom ((cell_map c)(ck \<mapsto> d))"
      with sub have "k \<in> dom (cell_map (left_cell c2))" by (rule subsetD)
      with le show "((cell_map c)(ck \<mapsto> d)) k = cell_map (left_cell c2) k" unfolding map_le_def by simp
    qed
  qed
qed

lemma entered_view:
  assumes "cell_items c its"
  obtains pre mid post where "cell_view (entered c) pre mid post" "its = pre @ post"
    "next_off c \<noteq> top_off c \<Longrightarrow> 98341 \<le> unat (top_off (entered c))"
  using assms unfolding cell_items_def ring_filled_def by (auto simp: entered_def)

lemma entered_off [simp]:
  "hdr_cell_body (cell_header (entered c)) = hdr_cell_body (cell_header c)"
  "header_offset (entered c) = header_offset c" "spill_of (entered c) = spill_of c"
  "append_fits (entered c) bs = append_fits c bs" "wraps (entered c) bs = wraps c bs"
  "self_evicts (entered c) bs = self_evicts c bs"
  "stored_or_dropped (entered c) ck bs its = stored_or_dropped c ck bs its" "reuses (entered c) bs = reuses c bs"
  by (simp_all add: entered_def append_fits_def wraps_def stored_or_dropped_def reuses_def)

text \<open>\<open>addable\<close>: a cell in good order that does not have the chunk, and a chunk of a proper size.\<close>

definition addable :: "cell \<Rightarrow> item list \<Rightarrow> checksum \<Rightarrow> u8 list \<Rightarrow> u32 \<Rightarrow> bool" where
  "addable c its ck buffer bs \<longleftrightarrow> cell_items c its \<and> cell_header_sane (cell_header c) \<and>
     mutex c = MutexUnlocked \<and> chunk_ok ck buffer bs \<and> cell_map c ck = None"

lemma addableD:
  assumes "addable c its ck buffer bs"
  shows "cell_items c its" "cell_header_sane (cell_header c)" "mutex c = MutexUnlocked"
    "chunk_ok ck buffer bs" "cell_map c ck = None" "wf_checksum ck" "ck \<notin> it_key ` set its"
  using assms cell_map_dom [of c its] by (auto simp: addable_def chunk_ok_def domIff)

lemma addable_outcome:
  assumes a: "addable c its ck buffer bs"
    and body: "cell_body_add (entered c) ck buffer bs cell_dir_entry_init = Inr c2"
    and add: "added (entered c) keep its (ck, take (unat bs) buffer) c2 its'"
  shows "cell_add_chunk c ck buffer bs = Inr (True, left_cell c2)"
  using addableD [OF a] left_added(1) [OF add] body by (simp add: add_chunk_absent)

lemma add_chunk_append:
  assumes a: "addable c its ck buffer bs" and fits: "append_fits c bs"
  obtains c' where "cell_add_chunk c ck buffer bs = Inr (True, c')" "cell_inv c'"
    "cell_map c' = (cell_map c)(ck \<mapsto> take (unat bs) buffer)" "slab_size c' = slab_size c"
proof -
  note d = addableD [OF a]
  obtain pre mid post where v: "cell_view (entered c) pre mid post" "its = pre @ post"
    using entered_view [OF d(1)] by metis
  have "append_fits (entered c) bs" using fits by simp
  from body_add_append [OF v(1) d(4) d(7) [unfolded v(2)] this] obtain c2 its' where
    r: "cell_body_add (entered c) ck buffer bs cell_dir_entry_init = Inr c2"
    "added (entered c) its its (ck, take (unat bs) buffer) c2 its'" "ck \<in> it_key ` set its'"
    using v(2) by metis
  note l = left_added [OF r(2) d(1,2,5)]
  show ?thesis using that [OF addable_outcome [OF a r(1,2)] l(3) l(6) [OF refl r(3)] l(7)] .
qed

lemma add_chunk_wraps:
  assumes a: "addable c its ck buffer bs" and wr: "wraps c bs"
  obtains c' where "cell_add_chunk c ck buffer bs = Inr (True, c')" "cell_inv c'"
    "cell_map c' \<subseteq>\<^sub>m (cell_map c)(ck \<mapsto> take (unat bs) buffer)"
    "cell_map c' ck = Some (take (unat bs) buffer)" "slab_size c' = slab_size c"
proof -
  note d = addableD [OF a]
  obtain pre mid post where v: "cell_view (entered c) pre mid post" "its = pre @ post"
    using entered_view [OF d(1)] by metis
  have "wraps (entered c) bs" using wr by simp
  from body_add_wraps [OF v(1) d(4) d(7) [unfolded v(2)] this] obtain c2 its' where
    r: "cell_body_add (entered c) ck buffer bs cell_dir_entry_init = Inr c2"
    "added (entered c) [] its (ck, take (unat bs) buffer) c2 its'" "ck \<in> it_key ` set its'"
    using v(2) by metis
  note l = left_added [OF r(2) d(1,2,5)]
  show ?thesis using that [OF addable_outcome [OF a r(1,2)] l(3,4) _ l(7)] l(5) r(3) by blast
qed

lemma add_chunk_offset:
  assumes a: "addable c its ck buffer bs" and ne: "next_off c \<noteq> top_off c"
    and ns: "\<not> self_evicts c bs"
  obtains c' its' where "cell_add_chunk c ck buffer bs = Inr (True, c')" "cell_inv c'"
    "cell_map c' \<subseteq>\<^sub>m (cell_map c)(ck \<mapsto> take (unat bs) buffer)" "slab_size c' = slab_size c"
    "ck \<in> it_key ` set its' \<longleftrightarrow> cell_map c' ck = Some (take (unat bs) buffer)"
    "if reuses c bs then ck \<in> it_key ` set its' else stored_or_dropped c ck bs its'"
proof -
  note d = addableD [OF a]
  obtain pre mid post where v: "cell_view (entered c) pre mid post" "its = pre @ post"
    "98341 \<le> unat (top_off (entered c))"
    using entered_view [OF d(1)] ne by metis
  have ne': "next_off (entered c) \<noteq> top_off (entered c)" and ns': "\<not> self_evicts (entered c) bs"
    using ne ns by simp_all
  from add_offset_ok [OF v(1,3) ne' d(4) d(7) [unfolded v(2)] ns'] obtain c2 its' where
    r: "cell_body_add_offset (entered c) ck buffer bs cell_dir_entry_init = Inr c2"
    "added (entered c) pre its (ck, take (unat bs) buffer) c2 its'"
    "if reuses c bs then ck \<in> it_key ` set its' else stored_or_dropped c ck bs its'"
    using v(2) by (metis entered_off(7,8))
  have b: "cell_body_add (entered c) ck buffer bs cell_dir_entry_init = Inr c2"
    using r(1) body_add_offset [OF v(1) ne'] by simp
  note l = left_added [OF r(2) d(1,2,5)]
  show ?thesis using that [OF addable_outcome [OF a b r(2)] l(3,4,7,5) r(3)] .
qed

lemma add_chunk_aborts:
  assumes a: "addable c its ck buffer bs" and self: "self_evicts c bs" and ne: "next_off c \<noteq> top_off c"
  shows "cell_add_chunk c ck buffer bs = Inl AssertFailed"
proof -
  note d = addableD [OF a]
  obtain pre mid post where v: "cell_view (entered c) pre mid post" "its = pre @ post"
    "98341 \<le> unat (top_off (entered c))"
    using entered_view [OF d(1)] ne by metis
  have "cell_body_add (entered c) ck buffer bs cell_dir_entry_init = Inl AssertFailed"
    using add_offset_self [OF v(1,3) _ d(4) d(7) [unfolded v(2)]] body_add_offset [OF v(1)] ne self
    by simp
  then show ?thesis using d by (simp add: add_chunk_absent)
qed

text \<open>A cell whose next entry is the top never aborts, because the top marker has size 0.\<close>

lemma self_evicts_not_top:
  assumes items: "cell_items c its" and ok: "chunk_ok ck buffer bs" and self: "self_evicts c bs"
  shows "next_off c \<noteq> top_off c"
  using self chunk_ok_bounds(1) [OF ok] by (auto simp: self_evicts_def split: sum.splits)

end
