(* ===== verification/Cell_Store.thy ===== *)
theory Cell_Store
  imports Cell
begin

text \<open>
  The contract of a chunk store, as a locale: what \<^verbatim>\<open>cell.c\<close> promises to \<^verbatim>\<open>cache.c\<close>, and \<^verbatim>\<open>cache.c\<close> to the
  manager and the streamer.  The store is a partial map from checksums to bytes that may forget: an
  addition adds one binding at most and may drop others.  The cell is shown to fulfil it; after that
  come the finer properties of a cell, its life cycle, and crash recovery.
\<close>

locale chunk_store =
  fixes inv :: "'s \<Rightarrow> bool"
    and content :: "'s \<Rightarrow> checksum \<Rightarrow> u8 list option"
    and safe :: "'s \<Rightarrow> checksum \<Rightarrow> u32 \<Rightarrow> bool"
    and add :: "'s \<Rightarrow> checksum \<Rightarrow> u8 list \<Rightarrow> u32 \<Rightarrow> (bool \<times> 's) result"
    and has :: "'s \<Rightarrow> checksum \<Rightarrow> (bool \<times> 's) result"
    and get :: "'s \<Rightarrow> checksum \<Rightarrow> chunk \<Rightarrow> (bool \<times> 's \<times> chunk) result"
  assumes store_add_known: "inv s \<Longrightarrow> wf_checksum ck \<Longrightarrow> content s ck \<noteq> None \<Longrightarrow>
      add s ck buffer bs = Inr (False, s)"
    and store_add_new: "inv s \<Longrightarrow> chunk_ok ck buffer bs \<Longrightarrow> content s ck = None \<Longrightarrow> safe s ck bs \<Longrightarrow>
      \<exists>s'. add s ck buffer bs = Inr (True, s') \<and> inv s' \<and>
           content s' \<subseteq>\<^sub>m (content s)(ck \<mapsto> take (unat bs) buffer)"
    and store_add_unsafe: "inv s \<Longrightarrow> chunk_ok ck buffer bs \<Longrightarrow> content s ck = None \<Longrightarrow> \<not> safe s ck bs \<Longrightarrow>
      add s ck buffer bs = Inl AssertFailed"
    and store_has: "inv s \<Longrightarrow> wf_checksum ck \<Longrightarrow> has s ck = Inr (content s ck \<noteq> None, s)"
    and store_get_known: "inv s \<Longrightarrow> wf_checksum ck \<Longrightarrow> wf_chunk ch \<Longrightarrow> content s ck = Some d \<Longrightarrow>
      \<exists>ch'. get s ck ch = Inr (True, s, ch') \<and> wf_chunk ch' \<and> ch_checksum ch' = ck \<and> chunk_data ch' = d"
    and store_get_unknown: "inv s \<Longrightarrow> wf_checksum ck \<Longrightarrow> content s ck = None \<Longrightarrow>
      get s ck ch = Inr (False, s, ch)"
    and store_add_take: "unat bs \<le> length buffer \<Longrightarrow> add s ck (take (unat bs) buffer) bs = add s ck buffer bs"
begin

text \<open>An addition on either branch.\<close>

lemma store_add:
  assumes "inv s" "chunk_ok ck buffer bs" "safe s ck bs"
  obtains s' where "add s ck buffer bs = Inr (content s ck = None, s')" "inv s'"
    "content s' \<subseteq>\<^sub>m (if content s ck = None then (content s)(ck \<mapsto> take (unat bs) buffer) else content s)"
proof (cases "content s ck = None")
  case True
  from store_add_new [OF assms(1,2) True assms(3)] show ?thesis using that True by auto
next
  case False
  have "wf_checksum ck" using assms(2) by (simp add: chunk_ok_def)
  from store_add_known [OF assms(1) this False] show ?thesis using that [of s] False assms(1) by auto
qed

text \<open>A property of bindings that every chunk added has is one of everything the store holds.\<close>

definition holds_only :: "(checksum \<Rightarrow> u8 list \<Rightarrow> bool) \<Rightarrow> 's \<Rightarrow> bool" where
  "holds_only P s \<longleftrightarrow> (\<forall>ck d. content s ck = Some d \<longrightarrow> P ck d)"

lemma holds_only_le:
  assumes "content s' \<subseteq>\<^sub>m (content s)(ck \<mapsto> d)" "holds_only P s" "P ck d"
  shows "holds_only P s'"
  unfolding holds_only_def
proof (intro allI impI)
  fix k v assume "content s' k = Some v"
  then have "((content s)(ck \<mapsto> d)) k = Some v" using assms(1) by (auto simp: map_le_def dom_def)
  then show "P k v" using assms(2,3) by (auto simp: holds_only_def split: if_splits)
qed

lemma success_inv:
  assumes "inv s" "chunk_ok ck buffer bs" "add s ck buffer bs = Inr (b, s')"
  shows "inv s'" "content s' \<subseteq>\<^sub>m (if content s ck = None then (content s)(ck \<mapsto> take (unat bs) buffer) else content s)"
proof -
  have "inv s' \<and> content s' \<subseteq>\<^sub>m (if content s ck = None then (content s)(ck \<mapsto> take (unat bs) buffer) else content s)"
  proof (cases "content s ck = None \<and> \<not> safe s ck bs")
    case True
    then show ?thesis using store_add_unsafe [OF assms(1,2)] assms(3) by simp
  next
    case False
    show ?thesis
    proof (cases "content s ck = None")
      case True
      with False store_add_new [OF assms(1,2) True] assms(3) show ?thesis by auto
    next
      case known: False
      have "wf_checksum ck" using assms(2) by (simp add: chunk_ok_def)
      from store_add_known [OF assms(1) this known] known assms(1,3) show ?thesis by auto
    qed
  qed
  then show "inv s'" "content s' \<subseteq>\<^sub>m (if content s ck = None then (content s)(ck \<mapsto> take (unat bs) buffer) else content s)"
    by blast+
qed

lemma holds_only_add:
  assumes "inv s" "chunk_ok ck buffer bs" "holds_only P s" "P ck (take (unat bs) buffer)"
    and "add s ck buffer bs = Inr (b, s')"
  shows "holds_only P s'"
proof (cases "content s ck = None")
  case True
  with success_inv(2) [OF assms(1,2,5)] show ?thesis using holds_only_le [OF _ assms(3,4)] by simp
next
  case False
  then have "content s' \<subseteq>\<^sub>m content s" using success_inv(2) [OF assms(1,2,5)] by auto
  then show ?thesis using assms(3) unfolding holds_only_def map_le_def by (metis domI)
qed

text \<open>A successful \<open>get\<close> returns bytes with that property, in particular bytes with the right digest.\<close>

lemma get_holds:
  assumes "inv s" "wf_checksum ck" "wf_chunk ch" "holds_only P s" "get s ck ch = Inr (True, s', ch')"
  shows "P ck (chunk_data ch') \<and> ch_checksum ch' = ck \<and> s' = s"
proof (cases "content s ck")
  case None
  then show ?thesis using store_get_unknown [OF assms(1,2) None] assms(5) by simp
next
  case (Some d)
  then show ?thesis using store_get_known [OF assms(1-3) Some] assms(4,5) by (auto simp: holds_only_def)
qed

end

text \<open>The cell is such a store, as long as an addition is not the one the code aborts on.\<close>

definition cell_safe :: "cell \<Rightarrow> checksum \<Rightarrow> u32 \<Rightarrow> bool" where
  "cell_safe c ck bs \<longleftrightarrow> \<not> self_evicts c bs"

lemma cell_invD:
  assumes "cell_inv c"
  obtains its where "cell_items c its" "cell_header_sane (cell_header c)" "mutex c = MutexUnlocked"
  using assms by (auto simp: cell_inv_def)

lemma add_chunk_new:
  assumes inv: "cell_inv c" and ok: "chunk_ok ck buffer bs" and absent: "cell_map c ck = None"
    and ns: "\<not> self_evicts c bs"
  obtains c' where "cell_add_chunk c ck buffer bs = Inr (True, c')" "cell_inv c'"
    "cell_map c' \<subseteq>\<^sub>m (cell_map c)(ck \<mapsto> take (unat bs) buffer)" "slab_size c' = slab_size c"
proof -
  from inv obtain its where a: "addable c its ck buffer bs"
    using ok absent by (auto simp: cell_inv_def addable_def)
  consider "append_fits c bs" | "wraps c bs" | "next_off c \<noteq> top_off c" by (auto simp: wraps_def)
  then show ?thesis
  proof cases
    case 1
    from add_chunk_append [OF a 1] show ?thesis using that by (metis map_le_refl)
  next
    case 2
    from add_chunk_wraps [OF a 2] show ?thesis using that by metis
  next
    case 3
    from add_chunk_offset [OF a 3 ns] show ?thesis using that by metis
  qed
qed

interpretation cells: chunk_store cell_inv cell_map cell_safe cell_add_chunk cell_has_chunk cell_get_chunk
proof (unfold_locales, goal_cases)
  case (1 s ck buffer bs)
  then show ?case using add_chunk_present by (metis cell_invD)
next
  case (2 s ck buffer bs)
  then have "\<not> self_evicts s bs" by (simp add: cell_safe_def)
  from add_chunk_new [OF 2(1,2,3) this] show ?case by metis
next
  case (3 s ck buffer bs)
  then have self: "self_evicts s bs" by (simp add: cell_safe_def)
  from 3 obtain its where a: "addable s its ck buffer bs" by (auto simp: cell_inv_def addable_def)
  show ?case using add_chunk_aborts [OF a self self_evicts_not_top [OF addableD(1) [OF a] 3(2) self]] .
next
  case (4 s ck)
  then show ?case using has_chunk_lookup by (metis cell_invD)
next
  case (5 s ck ch d)
  then show ?case using get_chunk_present by (metis cell_invD)
next
  case (6 s ck ch)
  then show ?case using get_chunk_absent by (metis cell_invD)
next
  case (7 bs buffer s ck)
  show ?case by (simp only: cell_add_chunk_def body_add_take [OF 7])
qed

section \<open>Start and restart\<close>

lemma cell_init_insane:
  assumes "\<not> cell_header_sane h" "ok_geometry sz"
  obtains c where "cell_init h m sz = Inr c" "cell_inv c" "cell_map c = Map.empty" "cell_items c []"
    "slab_size c = sz" "next_off c = 0" "top_off c = 0" "spill_of c = 0"
proof -
  let ?c = "\<lparr>mutex = MutexUninitialised, cell_header = h, slab = m, slab_size = sz\<rparr>"
  have "ok_geometry (slab_size ?c)" using assms(2) by simp
  from header_init_empty [OF this] obtain c1 where
    c1: "cell_header_init ?c = Inr c1" "cell_items c1 []" "cell_header_sane (cell_header c1)"
      "slab_size c1 = sz" "next_off c1 = 0" "top_off c1 = 0" "spill_of c1 = 0" by auto
  have "sizeof_cell_header < unat sz" using assms(2) by (simp add: ok_geometry_def sizeof_cell_header_def)
  then have "cell_init h m sz = Inr (c1\<lparr>mutex := MutexUnlocked\<rparr>)"
    using c1(1) assms(1) by (simp add: cell_init_def Let_def)
  moreover have "cell_inv (c1\<lparr>mutex := MutexUnlocked\<rparr>)" using c1(2,3) by (auto simp: cell_inv_def)
  moreover have "cell_map (c1\<lparr>mutex := MutexUnlocked\<rparr>) = Map.empty" using cell_map_items [OF c1(2)] by simp
  ultimately show ?thesis using that [of "c1\<lparr>mutex := MutexUnlocked\<rparr>"] c1 by simp
qed

text \<open>A slab that was never used: all bytes zero, so the magic is not there.\<close>

definition blank_header :: cell_header where
  "blank_header = \<lparr>hdr_magic = 0, hdr_entry_count = 0, hdr_byte_count = 0, hdr_cell_ic = cell_ic_init,
     hdr_cell_body = \<lparr>top_entry_offset = 0, next_entry_offset = 0\<rparr>, hdr_cell_dir = cell_dir_init\<rparr>"

lemma blank_header_insane: "\<not> cell_header_sane blank_header"
  by (simp add: blank_header_def cell_header_sane_def CELL_HEADER_MAGIC_def)

lemma geometry_1MB: "ok_geometry 1048576"
  by (simp add: ok_geometry_def)

text \<open>Opening a slab whose header is not sane, whatever its bytes are, gives an empty cell in good order.\<close>

theorem cell_init_resets:
  assumes "\<not> cell_header_sane h" "ok_geometry sz"
  shows "\<exists>c. cell_init h m sz = Inr c \<and> cell_inv c \<and> cell_map c = Map.empty"
  using cell_init_insane [OF assms] by metis

theorem cell_init_resets_witness:
  "\<exists>c. cell_init blank_header (\<lambda>_. 0) 1048576 = Inr c \<and> cell_inv c \<and> cell_map c = Map.empty"
  by (rule cell_init_resets [OF blank_header_insane geometry_1MB])

text \<open>The cell a blank slab of one megabyte becomes; the witnesses below start from it.\<close>

lemma blank_cell:
  obtains c where "cell_init blank_header (\<lambda>_. 0) 1048576 = Inr c" "cell_inv c" "cell_map c = Map.empty"
    "append_fits c 214" "\<not> self_evicts c 214" "cell_items c []" "slab_size c = 1048576"
proof -
  from cell_init_insane [OF blank_header_insane geometry_1MB] obtain c where
    c: "cell_init blank_header (\<lambda>_. 0) 1048576 = Inr c" "cell_inv c" "cell_map c = Map.empty" "cell_items c []"
    "slab_size c = 1048576" "next_off c = 0" "top_off c = 0" "spill_of c = 0" .
  have "append_fits c 214" using c by (simp add: append_fits_def header_offset_def sizeof_cell_header_def)
  moreover have "\<not> self_evicts c 214" using c(6,7) by (auto simp: self_evicts_def split: sum.splits)
  ultimately show ?thesis using that c by blast
qed

definition sample_checksum :: checksum where
  "sample_checksum = \<lparr>bytes = replicate 32 7\<rparr>"

definition sample_buffer :: "u8 list" where
  "sample_buffer = replicate 214 5"

lemma sample_ok: "chunk_ok sample_checksum sample_buffer 214" "wf_checksum sample_checksum"
  by (simp_all add: chunk_ok_def ok_size_def MIN_ENTRY_def MAX_ENTRY_def wf_checksum_def
      sample_checksum_def sample_buffer_def CHECKSUM_SIZE_def)

lemma cell_inv_geometry:
  assumes "cell_inv c"
  shows "ok_geometry (slab_size c)"
  using assms cell_items_ring ringD(1) by (metis cell_invD)

lemma cell_init_own:
  assumes "cell_inv c"
  shows "cell_init (cell_header c) (slab c) (slab_size c) = Inr c"
proof -
  have "sizeof_cell_header < unat (slab_size c)"
    using cell_inv_geometry [OF assms] by (simp add: ok_geometry_def sizeof_cell_header_def)
  then show ?thesis using assms by (cases c) (simp add: cell_init_def cell_inv_def)
qed

text \<open>Closing and reopening a cell that no operation was interrupted on loses nothing.\<close>

theorem cell_reopen_keeps:
  assumes "cell_inv c"
  shows "cell_init (cell_header c) (slab c) (slab_size c) = Inr c"
  by (rule cell_init_own [OF assms])

theorem cell_reopen_keeps_witness:
  "\<exists>c. cell_init blank_header (\<lambda>_. 0) 1048576 = Inr c \<and> cell_inv c \<and>
     cell_init (cell_header c) (slab c) (slab_size c) = Inr c"
  using blank_cell cell_reopen_keeps by metis

text \<open>
  C7: a crash inside an update, whatever part of header and body it leaves behind, is noticed when the
  cell is opened again, and the cell starts empty: the entry code was bumped and the exit code was not.
\<close>

theorem cell_crash_recovers:
  assumes "cell_inv c" "hdr_cell_ic h = snd (cell_ic_on_entry (hdr_cell_ic (cell_header c)))"
  shows "\<exists>c'. cell_init h m (slab_size c) = Inr c' \<and> cell_inv c' \<and> cell_map c' = Map.empty"
proof -
  have "cell_ic_sane (hdr_cell_ic (cell_header c))"
    using assms(1) by (auto simp: cell_inv_def cell_header_sane_def split: if_splits)
  then have "\<not> cell_header_sane h" using on_entry_insane assms(2) by (simp add: cell_header_sane_def)
  from cell_init_insane [OF this cell_inv_geometry [OF assms(1)]] show ?thesis by metis
qed

theorem cell_crash_recovers_witness:
  "\<exists>c h c'. cell_inv c \<and> hdr_cell_ic h = snd (cell_ic_on_entry (hdr_cell_ic (cell_header c))) \<and>
     cell_init h (\<lambda>_. 255) (slab_size c) = Inr c' \<and> cell_inv c' \<and> cell_map c' = Map.empty"
proof -
  from blank_cell obtain c where c: "cell_inv c" by metis
  let ?h = "(cell_header c)\<lparr>hdr_cell_ic := snd (cell_ic_on_entry (hdr_cell_ic (cell_header c)))\<rparr>"
  have ic: "hdr_cell_ic ?h = snd (cell_ic_on_entry (hdr_cell_ic (cell_header c)))" by simp
  from cell_crash_recovers [OF c ic, of "\<lambda>_. 255"] c ic show ?thesis by blast
qed

section \<open>Adding\<close>

text \<open>
  C4: adding a new chunk to a cell in good order succeeds unless the cell is in the one situation the
  code aborts on; the cell stays in good order, the lock is released, no binding appears but the new
  one, and every binding that remains has its old bytes.
\<close>

theorem cell_add_chunk_refines:
  assumes "cell_inv c" "chunk_ok ck buffer bs" "cell_map c ck = None" "\<not> self_evicts c bs"
  shows "\<exists>c'. cell_add_chunk c ck buffer bs = Inr (True, c') \<and> cell_inv c' \<and>
     cell_map c' \<subseteq>\<^sub>m (cell_map c)(ck \<mapsto> take (unat bs) buffer)"
  using add_chunk_new [OF assms] by metis

theorem cell_add_chunk_refines_witness:
  "\<exists>c c'. cell_init blank_header (\<lambda>_. 0) 1048576 = Inr c \<and>
     cell_add_chunk c sample_checksum sample_buffer 214 = Inr (True, c') \<and> cell_inv c' \<and>
     cell_map c' \<subseteq>\<^sub>m (cell_map c)(sample_checksum \<mapsto> sample_buffer)"
proof -
  obtain c where c: "cell_init blank_header (\<lambda>_. 0) 1048576 = Inr c" "cell_inv c" "cell_map c = Map.empty"
    "\<not> self_evicts c 214" using blank_cell by metis
  have "cell_map c sample_checksum = None" using c(3) by simp
  from cell_add_chunk_refines [OF c(2) sample_ok(1) this c(4)] c(1) show ?thesis
    by (auto simp: sample_buffer_def)
qed

text \<open>While the chunk fits behind the top nothing is lost; the contents gain exactly the new binding.\<close>

theorem cell_add_append_exact:
  assumes "cell_inv c" "chunk_ok ck buffer bs" "cell_map c ck = None" "append_fits c bs"
  shows "\<exists>c'. cell_add_chunk c ck buffer bs = Inr (True, c') \<and> cell_inv c' \<and>
     cell_map c' = (cell_map c)(ck \<mapsto> take (unat bs) buffer)"
proof -
  from assms(1) obtain its where "addable c its ck buffer bs"
    using assms(2,3) by (auto simp: cell_inv_def addable_def)
  from add_chunk_append [OF this assms(4)] show ?thesis by metis
qed

theorem cell_add_append_exact_witness:
  "\<exists>c c'. cell_init blank_header (\<lambda>_. 0) 1048576 = Inr c \<and>
     cell_add_chunk c sample_checksum sample_buffer 214 = Inr (True, c') \<and> cell_inv c' \<and>
     cell_map c' = [sample_checksum \<mapsto> sample_buffer]"
proof -
  obtain c where c: "cell_init blank_header (\<lambda>_. 0) 1048576 = Inr c" "cell_inv c" "cell_map c = Map.empty"
    "append_fits c 214" using blank_cell by metis
  have "cell_map c sample_checksum = None" using c(3) by simp
  from cell_add_append_exact [OF c(2) sample_ok(1) this c(4)] c(1,3) show ?thesis
    by (auto simp: sample_buffer_def)
qed

text \<open>
  The new chunk really is there afterwards whenever the ring is at its top (also when it then wraps
  around) or has room for the chunk and one more entry header below the top.
\<close>

theorem cell_add_stored:
  assumes "cell_inv c" "chunk_ok ck buffer bs" "cell_map c ck = None" "\<not> self_evicts c bs"
    and "next_off c = top_off c \<or> unat (next_off c) + unat bs + 72 \<le> unat (top_off c)"
  shows "\<exists>c'. cell_add_chunk c ck buffer bs = Inr (True, c') \<and> cell_map c' ck = Some (take (unat bs) buffer)"
proof -
  from assms(1) obtain its where a: "addable c its ck buffer bs"
    using assms(2,3) by (auto simp: cell_inv_def addable_def)
  consider "append_fits c bs" | "wraps c bs" | "next_off c \<noteq> top_off c" by (auto simp: wraps_def)
  then show ?thesis
  proof cases
    case 1
    from add_chunk_append [OF a 1] show ?thesis by (metis fun_upd_same)
  next
    case 2
    from add_chunk_wraps [OF a 2] show ?thesis by metis
  next
    case 3
    from add_chunk_offset [OF a 3 assms(4)] obtain c' its' where
      "cell_add_chunk c ck buffer bs = Inr (True, c')"
      "ck \<in> it_key ` set its' \<longleftrightarrow> cell_map c' ck = Some (take (unat bs) buffer)"
      "if reuses c bs then ck \<in> it_key ` set its' else stored_or_dropped c ck bs its'" by metis
    with assms(5) 3 show ?thesis by (auto simp: stored_or_dropped_def split: if_splits)
  qed
qed

theorem cell_add_stored_witness:
  "\<exists>c c'. cell_init blank_header (\<lambda>_. 0) 1048576 = Inr c \<and>
     cell_add_chunk c sample_checksum sample_buffer 214 = Inr (True, c') \<and>
     cell_map c' sample_checksum = Some sample_buffer"
proof -
  obtain c where c: "cell_init blank_header (\<lambda>_. 0) 1048576 = Inr c" "cell_inv c" "cell_map c = Map.empty"
    "\<not> self_evicts c 214" "append_fits c 214" using blank_cell by metis
  have "cell_map c sample_checksum = None" "next_off c = top_off c" using c(3,5) by (simp_all add: append_fits_def)
  then show ?thesis using cell_add_stored [OF c(2) sample_ok(1) _ c(4)] c(1) by (auto simp: sample_buffer_def)
qed

text \<open>
  C26: adding aborts the process in exactly one situation: the entry that the ring reuses has the size of
  the chunk and is the last one below the top, and the overflow area has no room for a directory entry.
\<close>

theorem cell_add_aborts_iff:
  assumes "cell_inv c" "chunk_ok ck buffer bs" "cell_map c ck = None"
  shows "cell_add_chunk c ck buffer bs = Inl AssertFailed \<longleftrightarrow> self_evicts c bs"
proof
  from assms obtain its where a: "addable c its ck buffer bs" by (auto simp: cell_inv_def addable_def)
  assume "self_evicts c bs"
  then show "cell_add_chunk c ck buffer bs = Inl AssertFailed"
    using add_chunk_aborts [OF a] self_evicts_not_top [OF addableD(1) [OF a] assms(2)] by blast
next
  assume fail: "cell_add_chunk c ck buffer bs = Inl AssertFailed"
  show "self_evicts c bs"
  proof (rule ccontr)
    assume "\<not> self_evicts c bs"
    from add_chunk_new [OF assms this] fail show False by (metis sum.distinct(1))
  qed
qed

theorem cell_add_aborts_iff_witness:
  "\<exists>c. cell_init blank_header (\<lambda>_. 0) 1048576 = Inr c \<and>
     (cell_add_chunk c sample_checksum sample_buffer 214 = Inl AssertFailed \<longleftrightarrow> self_evicts c 214) \<and>
     \<not> self_evicts c 214"
proof -
  obtain c where c: "cell_init blank_header (\<lambda>_. 0) 1048576 = Inr c" "cell_inv c" "cell_map c = Map.empty"
    "\<not> self_evicts c 214" using blank_cell by metis
  have "cell_map c sample_checksum = None" using c(3) by simp
  from cell_add_aborts_iff [OF c(2) sample_ok(1) this] c(1,4) show ?thesis by blast
qed

section \<open>Looking up\<close>

lemma sample_cell:
  obtains c where "cell_inv c" "cell_map c = [sample_checksum \<mapsto> sample_buffer]"
proof -
  obtain c where c: "cell_inv c" "cell_map c = Map.empty" "append_fits c 214" using blank_cell by metis
  then obtain its where "addable c its sample_checksum sample_buffer 214"
    using sample_ok(1) by (auto simp: cell_inv_def addable_def)
  from add_chunk_append [OF this c(3)] obtain c' where "cell_inv c'"
    "cell_map c' = (cell_map c)(sample_checksum \<mapsto> take (unat (214 :: u32)) sample_buffer)" by metis
  then show ?thesis using that c(2) by (simp add: sample_buffer_def)
qed

text \<open>
  C8: \<^verbatim>\<open>cell_get_chunk\<close> and \<^verbatim>\<open>cell_has_chunk\<close> answer from the contents and leave the cell as it is; a
  chunk that is found has the checksum asked for and exactly the bytes of the contents.
\<close>

theorem cell_lookups_correct:
  assumes "cell_inv c" "wf_checksum ck" "wf_chunk ch"
  shows "cell_has_chunk c ck = Inr (cell_map c ck \<noteq> None, c) \<and>
     (case cell_map c ck of
        None \<Rightarrow> cell_get_chunk c ck ch = Inr (False, c, ch)
      | Some d \<Rightarrow> \<exists>ch'. cell_get_chunk c ck ch = Inr (True, c, ch') \<and> ch_checksum ch' = ck \<and>
                        chunk_data ch' = d \<and> wf_chunk ch')"
proof (cases "cell_map c ck")
  case None
  then show ?thesis
    using cells.store_has [OF assms(1,2)] cells.store_get_unknown [OF assms(1,2) None] by simp
next
  case (Some d)
  then show ?thesis
    using cells.store_has [OF assms(1,2)] cells.store_get_known [OF assms Some] by auto
qed

theorem cell_lookups_correct_witness:
  "\<exists>c ch'. cell_inv c \<and> cell_get_chunk c sample_checksum chunk_init = Inr (True, c, ch') \<and>
     chunk_data ch' = sample_buffer"
proof -
  obtain c where c: "cell_inv c" "cell_map c = [sample_checksum \<mapsto> sample_buffer]" using sample_cell by metis
  from cell_lookups_correct [OF c(1) sample_ok(2) wf_chunk_init] c show ?thesis by auto
qed

text \<open>Adding a chunk whose checksum is already known returns false and changes nothing at all.\<close>

theorem cell_add_known:
  assumes "cell_inv c" "wf_checksum ck" "cell_map c ck \<noteq> None"
  shows "cell_add_chunk c ck buffer bs = Inr (False, c)"
  by (rule cells.store_add_known [OF assms])

theorem cell_add_known_witness:
  "\<exists>c. cell_inv c \<and> cell_add_chunk c sample_checksum [] 0 = Inr (False, c)"
proof -
  obtain c where c: "cell_inv c" "cell_map c = [sample_checksum \<mapsto> sample_buffer]" using sample_cell by metis
  then show ?thesis using cell_add_known [OF c(1) sample_ok(2), of "[]" 0] by auto
qed

section \<open>Counters\<close>

lemma cell_items_small:
  assumes "cell_items c its"
  shows "sum_list (map it_size its) < 2147483648" "length its < 4095"
  using cell_items_ring [OF assms] ring_sums by metis+

lemma cell_items_counts:
  assumes "cell_items c its"
  shows "card (dom (cell_map c)) = length its"
    "(\<Sum>ck \<in> dom (cell_map c). length (the (cell_map c ck))) = sum_list (map it_size its)"
proof -
  note k = cell_items_keys(1) [OF assms]
  have inj: "inj_on it_key (set its)" and dist: "distinct its" using k by (simp_all add: distinct_map)
  show "card (dom (cell_map c)) = length its"
    using cell_map_dom [OF assms] card_image [OF inj] distinct_card [OF dist] by simp
  have data: "length (the (cell_map c (it_key it))) = it_size it" if "it \<in> set its" for it
    using items_lookup [OF k that] cell_items_mem(2) [OF assms that]
    by (simp add: cell_map_items [OF assms])
  have "(\<Sum>ck \<in> dom (cell_map c). length (the (cell_map c ck))) =
      (\<Sum>it \<in> set its. length (the (cell_map c (it_key it))))"
    unfolding cell_map_dom [OF assms] by (simp add: sum.reindex [OF inj])
  also have "\<dots> = (\<Sum>it \<in> set its. it_size it)" using data by (rule sum.cong [OF refl])
  also have "\<dots> = sum_list (map it_size its)" by (rule sum_list_distinct_conv_sum_set [OF dist, symmetric])
  finally show "(\<Sum>ck \<in> dom (cell_map c). length (the (cell_map c ck))) = sum_list (map it_size its)" .
qed

text \<open>The counters are the number of chunks the cell holds and the number of their bytes.\<close>

theorem cell_counts_exact:
  assumes "cell_inv c"
  shows "cell_entry_count c = Inr (int (card (dom (cell_map c))), c) \<and>
     cell_byte_count c = Inr (int (\<Sum>ck \<in> dom (cell_map c). length (the (cell_map c ck))), c)"
proof -
  from assms obtain its where it: "cell_items c its" and mu: "mutex c = MutexUnlocked" by (auto simp: cell_inv_def)
  note n = cell_items_counts [OF it] and k = cell_items_keys(5,6) [OF it] and b = cell_items_small [OF it]
  have "cell_entry_count c = Inr (int (card (dom (cell_map c))), c)"
    using n k b by (simp add: cell_entry_count_def lock_unlocked [OF mu] cell_header_entry_count_def sint_small)
  moreover have "cell_byte_count c = Inr (int (\<Sum>ck \<in> dom (cell_map c). length (the (cell_map c ck))), c)"
    unfolding n(2)
    using k b by (simp add: cell_byte_count_def lock_unlocked [OF mu] cell_header_byte_count_def sint_small)
  ultimately show ?thesis by blast
qed

theorem cell_counts_exact_witness:
  "\<exists>c. cell_inv c \<and> cell_entry_count c = Inr (1, c) \<and> cell_byte_count c = Inr (214, c)"
proof -
  obtain c where c: "cell_inv c" "cell_map c = [sample_checksum \<mapsto> sample_buffer]" using sample_cell by metis
  from cell_counts_exact [OF c(1)] c show ?thesis by (auto simp: sample_buffer_def)
qed

text \<open>What the metrics of a cell add, as numbers.\<close>

definition cell_chunks :: "cell \<Rightarrow> nat" where
  "cell_chunks c = card (dom (cell_map c))"

definition cell_bytes :: "cell \<Rightarrow> nat" where
  "cell_bytes c = (\<Sum>ck \<in> dom (cell_map c). length (the (cell_map c ck)))"

lemma scast_small: "unat (w :: u32) < 2147483648 \<Longrightarrow> (scast w :: u64) = of_nat (unat w)"
  by (simp add: scast_eq sint_small)

lemma cell_metrics_add:
  assumes "cell_inv c"
  shows "cell_get_metrics c metrics = Inr (metrics
     \<lparr>met_byte_count := met_byte_count metrics + of_nat (cell_bytes c),
      met_entry_count := met_entry_count metrics + of_nat (cell_chunks c)\<rparr>, c)"
    "cell_bytes c \<le> 1019872" "cell_chunks c < 4095"
proof -
  from assms obtain its where it: "cell_items c its" and mu: "mutex c = MutexUnlocked" by (auto simp: cell_inv_def)
  note n = cell_items_counts [OF it] and k = cell_items_keys(5,6) [OF it] and b = cell_items_small [OF it]
  show "cell_get_metrics c metrics = Inr (metrics
     \<lparr>met_byte_count := met_byte_count metrics + of_nat (cell_bytes c),
      met_entry_count := met_entry_count metrics + of_nat (cell_chunks c)\<rparr>, c)"
    unfolding cell_bytes_def cell_chunks_def n
    using k b by (simp add: cell_get_metrics_def lock_unlocked [OF mu] cell_header_entry_count_def
        cell_header_byte_count_def scast_small Let_def)
  obtain pre mid post where r: "its = pre @ post"
    "ring c pre (last_size (last_size 0 pre) mid) (unat (next_off c) + span mid) post"
    using cell_items_ring [OF it] by metis
  have "sum_list (map it_size its) \<le> span its" using span_size [of its] by simp
  also have "\<dots> \<le> 1019872" using ring_bounds(1-6) [OF r(2)] r(1) by simp
  finally show "cell_bytes c \<le> 1019872" by (simp add: cell_bytes_def n)
  show "cell_chunks c < 4095" using b by (simp add: cell_chunks_def n)
qed

section \<open>The life of a cell\<close>

text \<open>
  Every history of a cell: it starts on a slab without a sane header, chunks of proper sizes are added
  and looked up, it is reopened, and it may crash inside any update and be opened again.
\<close>

inductive cell_reachable :: "u32 \<Rightarrow> cell \<Rightarrow> bool" for sz :: u32 where
  create: "\<not> cell_header_sane h \<Longrightarrow> cell_init h m sz = Inr c \<Longrightarrow> cell_reachable sz c"
| add: "cell_reachable sz c \<Longrightarrow> chunk_ok ck buffer bs \<Longrightarrow> cell_add_chunk c ck buffer bs = Inr (b, c') \<Longrightarrow>
    cell_reachable sz c'"
| get: "cell_reachable sz c \<Longrightarrow> wf_checksum ck \<Longrightarrow> wf_chunk ch \<Longrightarrow> cell_get_chunk c ck ch = Inr (b, c', ch') \<Longrightarrow>
    cell_reachable sz c'"
| has: "cell_reachable sz c \<Longrightarrow> wf_checksum ck \<Longrightarrow> cell_has_chunk c ck = Inr (b, c') \<Longrightarrow> cell_reachable sz c'"
| reopen: "cell_reachable sz c \<Longrightarrow> cell_init (cell_header c) (slab c) (slab_size c) = Inr c' \<Longrightarrow>
    cell_reachable sz c'"
| crash: "cell_reachable sz c \<Longrightarrow> hdr_cell_ic h = snd (cell_ic_on_entry (hdr_cell_ic (cell_header c))) \<Longrightarrow>
    cell_init h m (slab_size c) = Inr c' \<Longrightarrow> cell_reachable sz c'"

lemma reachable_inv:
  assumes "cell_reachable sz c" "ok_geometry sz"
  shows "cell_inv c"
  using assms(1)
proof (induction rule: cell_reachable.induct)
  case (create h m c)
  from cell_init_insane [OF create(1) assms(2)] create(2) show ?case by (metis sum.inject(2))
next
  case (add c ck buffer bs b c')
  then show ?case using cells.success_inv(1) by blast
next
  case (get c ck ch b c' ch')
  then show ?case
    using cells.store_get_known [of c ck ch] cells.store_get_unknown [of c ck ch]
    by (cases "cell_map c ck") auto
next
  case (has c ck b c')
  then show ?case using cells.store_has [of c ck] by simp
next
  case (reopen c c')
  then show ?case using cell_init_own [of c] by simp
next
  case (crash c h m c')
  have "\<not> cell_header_sane h"
    using on_entry_insane crash(2,4) by (auto simp: cell_inv_def cell_header_sane_def split: if_splits)
  from cell_init_insane [OF this cell_inv_geometry [OF crash(4)]] crash(3) show ?case by (metis sum.inject(2))
qed

text \<open>C5: the invariant holds throughout the life of a cell, whatever is added, looked up, reopened or crashes.\<close>

theorem cell_reachable_inv:
  assumes "cell_reachable sz c" "ok_geometry sz"
  shows "cell_inv c"
  by (rule reachable_inv [OF assms])

theorem cell_reachable_inv_witness:
  "\<exists>c. cell_reachable 1048576 c \<and> cell_inv c"
proof -
  obtain c where "cell_init blank_header (\<lambda>_. 0) 1048576 = Inr c" using blank_cell by metis
  then have r: "cell_reachable 1048576 c" using blank_header_insane by (rule cell_reachable.create [rotated])
  with cell_reachable_inv [OF r geometry_1MB] show ?thesis by blast
qed

end
