(* ===== verification/Cell_Fifo.thy ===== *)
theory Cell_Fifo
  imports Cell_Spill Cell_Store
begin

text \<open>
  Chunks of one size.  On them the ring of a cell is a first-in first-out buffer: every addition appends
  while there is room and from then on replaces the oldest chunk, at positions that are known exactly.
\<close>

section \<open>One step inside the body\<close>

text \<open>The entry at \<open>next_entry_offset\<close> is claimed; only its own item leaves the ring.\<close>

lemma claim_exact:
  assumes view: "cell_view c pre [] (x # rest)" and fill: "98341 \<le> unat (top_off c)"
  obtains c2 l where "claimed c c2 (it_entry x) pre l rest"
    "\<And>b. spill_of c = 1 \<Longrightarrow> CELL_DIR_BLOCK_ENTRIES < crowd b (map it_key (pre @ x # rest)) \<Longrightarrow>
       block_no (it_key x) \<noteq> b \<Longrightarrow> spill_of c2 = 1"
proof -
  let ?n = "unat (next_off c)"
  have ring: "ring c pre (last_size 0 pre) ?n (x # rest)" using view by (simp add: cell_view_def)
  have x: "it_entry x = load_body_entry (slab c) ?n" using ringD(2) [OF ring] by (simp add: ring_mem_def)
  have "65573 \<le> unat (top_off c)" using fill by simp
  from claim_used [OF ring refl this] obtain c1 where
    c1: "body_load c ?n = Inr (it_entry x)" "\<not> cell_body_entry_free (it_entry x)"
      "cell_header_remove c ?n = Inr c1" "gathered c1 pre [] x rest" "same_meta c c1"
      "hdr_cell_body (cell_header c1) = hdr_cell_body (cell_header c)" "spill_of c1 \<le> spill_of c" .
  from gathered_claim [OF c1(4), unfolded c1(6)] obtain m l where
    m: "body_update c1 ?n (\<lambda>e. e\<lparr>be_free_space := 0\<rparr>) = Inr (c1\<lparr>slab := m\<rparr>)"
      "gathered (c1\<lparr>slab := m\<rparr>) pre [] l rest" "be_size (it_entry l) = be_size (it_entry x)" .
  have "same_meta c (c1\<lparr>slab := m\<rparr>)" using c1(5) by (simp add: same_meta_def)
  then have "claimed c (c1\<lparr>slab := m\<rparr>) (it_entry x) pre l rest"
    using c1 m by (simp add: claimed_def)
  moreover have "spill_of (c1\<lparr>slab := m\<rparr>) = 1"
    if "spill_of c = 1" "CELL_DIR_BLOCK_ENTRIES < crowd b (map it_key (pre @ x # rest))" "block_no (it_key x) \<noteq> b"
    for b
    using header_remove_keeps_spill [OF ringD(3) [OF ring] c1(3) that(1,2)] that(3) x by simp
  ultimately show ?thesis by (rule that)
qed

text \<open>An item of the size of the chunk is replaced by it; nothing else changes.\<close>

lemma reuse_exact:
  assumes view: "cell_view c pre [] (x # rest)" and fill: "98341 \<le> unat (top_off c)"
    and sz: "it_size x = unat bs" and ok: "chunk_ok ck buffer bs"
    and key: "ck \<notin> it_key ` set (pre @ x # rest)"
    and room: "unat (top_off c) + 36 + Suc (spill_of c) * 36 \<le> header_offset c"
  obtains c' it where "cell_body_add_offset c ck buffer bs de = Inr c'" "cell_view c' (pre @ [it]) [] rest"
    "holds_chunk it ck buffer bs" "same_meta c c'" "ring_filled c'" "top_off c' = top_off c"
    "spill_step (spill_of c) (map it_key (pre @ rest)) ck (spill_of c')"
proof -
  from claim_exact [OF view fill] obtain c2 l where cl: "claimed c c2 (it_entry x) pre l rest" by metis
  note d = claimedD [OF cl] and k = chunk_ok_bounds [OF ok]
  have eq: "ucast (be_size (it_entry x)) = bs"
    using sz unat_bound_u15 [of "be_size (it_entry x)"] by (simp add: word_unat_eq_iff word_nat)
  then have "ucast (be_size (it_entry l)) = bs" using d(2) by simp
  note sp = reuse_span [OF this]
  have key': "ck \<notin> it_key ` set (pre @ rest)" using key by auto
  from write_in_hole [OF d(1) ok key'] sp(1) obtain m it where
    w: "cell_body_write_chunk c2 (unat (next_off c2)) ck buffer bs = Inr (c2\<lparr>slab := m\<rparr>)"
    "ring (c2\<lparr>slab := m\<rparr>) pre (be_size (it_entry l)) (unat (next_off c2) + span ([] @ [l])) rest"
    "new_in_hole (c2\<lparr>slab := m\<rparr>) pre (unat (next_off c2) + span ([] @ [l])) rest it bs"
    "holds_chunk it ck buffer bs" "be_size (it_entry it) = ucast bs" by (metis add.commute order_refl)
  let ?c3 = "c2\<lparr>slab := m\<rparr>" and ?h = "unat (next_off c2) + span ([] @ [l])"
  have room3: "unat (top_off ?c3) + 36 + Suc (spill_of ?c3) * 36 \<le> header_offset ?c3"
    using room d(4,5) same_meta_offset [OF d(3)] by simp
  have kd: "it_key it = ck" using w(4) by (simp add: holds_chunk_def)
  from ring_insert [OF w(2) new_in_holeD [OF w(3)] room3, of de] obtain c4 where
    c4: "cell_header_add ?c3 (cell_dir_entry_set de ck (next_off c2)) bs = Inr c4"
    "ring (set_next_off c4 (next_off c2 + (36 + bs))) (pre @ [it]) (be_size (it_entry l)) ?h rest"
    "same_meta ?c3 c4" "hdr_cell_body (cell_header c4) = hdr_cell_body (cell_header c2)"
    using kd by auto
  have "36 \<le> cell_body_free_space ?c3" using free_space_ge_36 [OF w(2)] room3 by simp
  then have "cell_body_add_dir_entry ?c3 (cell_dir_entry_set de ck (next_off c2)) bs = Inr c4"
    using c4(1) by (simp add: cell_body_add_dir_entry_def sizeof_cell_dir_entry_def)
  then have res: "cell_body_add_offset c ck buffer bs de = Inr (set_next_off c4 (next_off c4 + (36 + bs)))"
    using w(1) d(4) c4(4) eq by (simp add: add_offset_claimed [OF cl])
  let ?c' = "set_next_off c4 (next_off c4 + (36 + bs))"
  have "unat (next_off ?c') = ?h"
    using ring_bounds(3) [OF c4(2)] ring_bounds(3) [OF w(2)] c4(4) sp(1) w(4)
    by (simp add: it_span_def holds_chunk_def sizeof_cell_body_entry_def)
  then have v: "cell_view ?c' (pre @ [it]) [] rest" using c4(2,4) w(5) sp(2) by (simp add: cell_view_def)
  have "spill_step (spill_of c) (map it_key (pre @ rest)) ck (spill_of c4)"
    using header_add_spill_step [OF ringD(3) [OF w(2)] refl c4(1) key' k(4)] d(5) by simp
  moreover have "same_meta c ?c'" using d(3) c4(3) by (simp add: same_meta_def)
  moreover have "ring_filled ?c'" using fill c4(4) d(4) by (simp add: ring_filled_def)
  ultimately show ?thesis using that [OF res v w(4)] c4(4) d(4) by simp
qed

text \<open>A chunk that fits behind the top is appended; nothing else changes.\<close>

lemma append_exact:
  assumes view: "cell_view c pre [] []" and fits: "append_fits c bs" and ok: "chunk_ok ck buffer bs"
    and key: "ck \<notin> it_key ` set pre"
  obtains c' it where "cell_body_add c ck buffer bs de = Inr c'" "cell_view c' (pre @ [it]) [] []"
    "holds_chunk it ck buffer bs" "same_meta c c'" "ring_filled c'" "next_off c' = top_off c'"
    "spill_step (spill_of c) (map it_key pre) ck (spill_of c')"
proof -
  have nxt: "next_off c = top_off c"
    and room: "unat (top_off c) + 36 + spill_of c * 36 + (unat bs + 72) \<le> header_offset c"
    using fits by (simp_all add: append_fits_def)
  note v = view_top_empty(3) [OF view nxt] and k = chunk_ok_bounds [OF ok]
  from add_top_room [OF v nxt ok key room, of de] obtain c' it where
    c': "cell_body_add_top c ck buffer bs de = Inr (True, c')"
      "ring c' (pre @ [it]) (last_size 0 (pre @ [it])) (unat (top_off c')) []" "next_off c' = top_off c'"
      "holds_chunk it ck buffer bs" "same_meta c c'" .
  from view_next_entry [OF view] nxt obtain e where
    "body_load c (unat (next_off c)) = Inr e" "cell_body_entry_top e" by metis
  then have "cell_body_add c ck buffer bs de = Inr c'" using c'(1) by (simp add: cell_body_add_def)
  moreover have "spill_step (spill_of c) (map it_key pre) ck (spill_of c')"
    using add_top_spill_step [OF ringD(3) [OF v] c'(1)] key k(4) by simp
  ultimately show ?thesis using that view_at_top [OF c'(2,3)] c'(3-5) by blast
qed

section \<open>Cells with chunks of one size\<close>

text \<open>
  \<open>uniform bs c new old\<close>: the ring holds the chunks \<open>new\<close> from the bottom to \<open>next_entry_offset\<close> and \<open>old\<close>
  from there to the top, all of them of size \<open>bs\<close>, and nothing in between.
\<close>

type_synonym binding = "checksum \<times> u8 list"

definition uniform :: "u32 \<Rightarrow> cell \<Rightarrow> binding list \<Rightarrow> binding list \<Rightarrow> bool" where
  "uniform bs c new old \<longleftrightarrow> cell_inv c \<and>
     (\<exists>pre post. cell_view c pre [] post \<and> (\<forall>it \<in> set (pre @ post). it_size it = unat bs) \<and>
        map it_kd pre = new \<and> map it_kd post = old)"

lemma span_uniform: "\<forall>it \<in> set its. it_size it = n \<Longrightarrow> span its = length its * (n + 36)"
  by (induction its) (simp_all add: it_span_def sizeof_cell_body_entry_def)

text \<open>Where everything is, and what the cell holds.\<close>

lemma uniform_facts:
  assumes "uniform bs c new old"
  shows "unat (next_off c) = length new * (unat bs + 36)"
    "unat (top_off c) = (length new + length old) * (unat bs + 36)"
    "spill_of c \<le> length new + length old" "cell_map c = map_of (new @ old)"
    "distinct (map fst (new @ old))" "cell_inv c"
proof -
  from assms obtain pre post where v: "cell_view c pre [] post"
    and size: "\<forall>it \<in> set (pre @ post). it_size it = unat bs"
    and kd: "new = map it_kd pre" "old = map it_kd post" and inv: "cell_inv c"
    by (auto simp: uniform_def)
  then have ring: "ring c pre (last_size 0 pre) (unat (next_off c)) post" by (simp add: cell_view_def)
  have items: "cell_items c (pre @ post)"
    using v inv unfolding cell_items_def cell_inv_def by blast
  show "cell_inv c" by (fact inv)
  show "unat (next_off c) = length new * (unat bs + 36)"
    "unat (top_off c) = (length new + length old) * (unat bs + 36)"
    using ring_bounds(2,3) [OF ring] span_uniform [of pre "unat bs"] span_uniform [of post "unat bs"] size kd
    by (simp_all add: add_mult_distrib)
  show "spill_of c \<le> length new + length old" using ring_bounds(10) [OF ring] kd by simp
  show "cell_map c = map_of (new @ old)" using cell_map_items [OF items] kd by simp
  show "distinct (map fst (new @ old))" using cell_items_keys(1) [OF items] kd by (simp add: comp_def)
qed

lemma uniform_addable:
  assumes u: "uniform bs c new old" and ok: "chunk_ok ck buffer bs" and fresh: "ck \<notin> fst ` set (new @ old)"
  obtains pre post where "cell_view (entered c) pre [] post" "\<forall>it \<in> set (pre @ post). it_size it = unat bs"
    "map it_kd pre = new" "map it_kd post = old" "addable c (pre @ post) ck buffer bs"
    "ck \<notin> it_key ` set (pre @ post)" "map it_key pre = map fst new" "map it_key post = map fst old"
proof -
  from u obtain pre post where v: "cell_view c pre [] post"
    and size: "\<forall>it \<in> set (pre @ post). it_size it = unat bs"
    and kd: "map it_kd pre = new" "map it_kd post = old" and inv: "cell_inv c"
    by (auto simp: uniform_def)
  have keys: "map it_key pre = map fst new" "map it_key post = map fst old" using kd by (auto simp: comp_def)
  have "cell_map c ck = None"
    using uniform_facts(4) [OF u] fresh by (auto simp: map_of_eq_None_iff)
  then have a: "addable c (pre @ post) ck buffer bs"
    using v inv ok unfolding addable_def cell_items_def cell_inv_def by blast
  have "cell_view (entered c) pre [] post" using v by (simp add: entered_def)
  then show ?thesis using that size kd a addableD(7) [OF a] keys by blast
qed

text \<open>From the body operation to \<^verbatim>\<open>cell_add_chunk\<close>.\<close>

lemma uniform_outcome:
  assumes a: "addable c its ck buffer bs"
    and body: "cell_body_add (entered c) ck buffer bs cell_dir_entry_init = Inr c2"
    and v: "cell_view c2 (pre @ [it]) [] post" and holds: "holds_chunk it ck buffer bs"
    and meta: "same_meta (entered c) c2" and filled: "ring_filled c2" and sub: "set (pre @ post) \<subseteq> set its"
    and size: "\<forall>it \<in> set its. it_size it = unat bs"
  shows "cell_add_chunk c ck buffer bs = Inr (True, left_cell c2)"
    "uniform bs (left_cell c2) (map it_kd pre @ [(ck, take (unat bs) buffer)]) (map it_kd post)"
    "slab_size (left_cell c2) = slab_size c"
proof -
  note kd = holds_kd [OF holds] and d = addableD [OF a]
  have add: "added (entered c) [] its (ck, take (unat bs) buffer) c2 ((pre @ [it]) @ post)"
    using kd sub by (intro addedI [OF v filled meta]) auto
  show "cell_add_chunk c ck buffer bs = Inr (True, left_cell c2)" by (rule addable_outcome [OF a body add])
  note l = left_added [OF add d(1,2,5)]
  show "slab_size (left_cell c2) = slab_size c" by (fact l(7))
  have "cell_view (left_cell c2) (pre @ [it]) [] post" using v by (simp add: left_cell_def)
  moreover have "\<forall>it \<in> set ((pre @ [it]) @ post). it_size it = unat bs"
    using size sub holds by (auto simp: holds_chunk_def)
  ultimately show "uniform bs (left_cell c2) (map it_kd pre @ [(ck, take (unat bs) buffer)]) (map it_kd post)"
    using l(3) kd unfolding uniform_def by (intro conjI exI [of _ "pre @ [it]"] exI [of _ post]) simp_all
qed

text \<open>
  The three kinds of step: appending, replacing the oldest chunk, and doing so after the ring went back
  to the bottom.
\<close>

lemma uniform_append:
  assumes u: "uniform bs c new []" and ok: "chunk_ok ck buffer bs" and fresh: "ck \<notin> fst ` set new"
    and fits: "append_fits c bs"
  obtains c' where "cell_add_chunk c ck buffer bs = Inr (True, c')"
    "uniform bs c' (new @ [(ck, take (unat bs) buffer)]) []" "slab_size c' = slab_size c"
    "spill_step (spill_of c) (map fst new) ck (spill_of c')"
proof -
  have "ck \<notin> fst ` set (new @ [])" using fresh by simp
  from uniform_addable [OF u ok this] obtain pre post where
    p: "cell_view (entered c) pre [] post" "\<forall>it \<in> set (pre @ post). it_size it = unat bs"
    "map it_kd pre = new" "map it_kd post = []" "addable c (pre @ post) ck buffer bs"
    "ck \<notin> it_key ` set (pre @ post)" "map it_key pre = map fst new" "map it_key post = map fst ([] :: binding list)" .
  then have [simp]: "post = []" by simp
  have "append_fits (entered c) bs" "ck \<notin> it_key ` set pre" using fits p(6) by simp_all
  from append_exact [OF p(1) [simplified] this(1) ok this(2), of cell_dir_entry_init] obtain c2 it where
    r: "cell_body_add (entered c) ck buffer bs cell_dir_entry_init = Inr c2" "cell_view c2 (pre @ [it]) [] []"
    "holds_chunk it ck buffer bs" "same_meta (entered c) c2" "ring_filled c2"
    "spill_step (spill_of (entered c)) (map it_key pre) ck (spill_of c2)" by metis
  have "set (pre @ []) \<subseteq> set (pre @ post)" by simp
  note o = uniform_outcome [OF p(5) r(1-5) this p(2)]
  have "spill_step (spill_of c) (map fst new) ck (spill_of (left_cell c2))"
    using r(6) p(7) by (simp add: left_cell_def)
  then show ?thesis using that [OF o(1)] o(2,3) p(3) by simp
qed

lemma uniform_replace:
  assumes u: "uniform bs c new old" and ok: "chunk_ok ck buffer bs" and fresh: "ck \<notin> fst ` set (new @ old)"
    and body: "\<And>pre post. cell_view (entered c) pre [] post \<Longrightarrow> map it_kd pre = new \<Longrightarrow> map it_kd post = old \<Longrightarrow>
      \<exists>d pre' x rest. cell_view d pre' [] (x # rest) \<and> pre @ post = pre' @ x # rest \<and> same_meta (entered c) d \<and>
        cell_body_add (entered c) ck buffer bs cell_dir_entry_init =
          cell_body_add_offset d ck buffer bs cell_dir_entry_init \<and>
        98341 \<le> unat (top_off d) \<and> unat (top_off d) + 36 + Suc (spill_of d) * 36 \<le> header_offset d \<and>
        spill_of d = spill_of c \<and> length pre' = k"
  obtains c' where "cell_add_chunk c ck buffer bs = Inr (True, c')"
    "uniform bs c' (take k (new @ old) @ [(ck, take (unat bs) buffer)]) (drop (Suc k) (new @ old))"
    "slab_size c' = slab_size c"
    "spill_step (spill_of c) (map fst (take k (new @ old) @ drop (Suc k) (new @ old))) ck (spill_of c')"
proof -
  from uniform_addable [OF u ok fresh] obtain pre post where
    p: "cell_view (entered c) pre [] post" "\<forall>it \<in> set (pre @ post). it_size it = unat bs"
    "map it_kd pre = new" "map it_kd post = old" "addable c (pre @ post) ck buffer bs"
    "ck \<notin> it_key ` set (pre @ post)" "map it_key pre = map fst new" "map it_key post = map fst old" .
  from body [OF p(1,3,4)] obtain d pre' x rest where
    d: "cell_view d pre' [] (x # rest)" "pre @ post = pre' @ x # rest" "same_meta (entered c) d"
    "cell_body_add (entered c) ck buffer bs cell_dir_entry_init =
       cell_body_add_offset d ck buffer bs cell_dir_entry_init"
    "98341 \<le> unat (top_off d)" "unat (top_off d) + 36 + Suc (spill_of d) * 36 \<le> header_offset d"
    "spill_of d = spill_of c" "length pre' = k" by blast
  have sz: "it_size x = unat bs" using p(2) d(2) by simp
  have key: "ck \<notin> it_key ` set (pre' @ x # rest)" using p(6) d(2) by simp
  from reuse_exact [OF d(1,5) sz ok key d(6), of cell_dir_entry_init] obtain c2 it where
    r: "cell_body_add (entered c) ck buffer bs cell_dir_entry_init = Inr c2" "cell_view c2 (pre' @ [it]) [] rest"
    "holds_chunk it ck buffer bs" "same_meta d c2" "ring_filled c2"
    "spill_step (spill_of d) (map it_key (pre' @ rest)) ck (spill_of c2)" using d(4) by metis
  have sub: "set (pre' @ rest) \<subseteq> set (pre @ post)" using d(2) by auto
  note o = uniform_outcome [OF p(5) r(1-3) same_meta_trans [OF d(3) r(4)] r(5) sub p(2)]
  have kd: "new @ old = map it_kd pre' @ it_kd x # map it_kd rest"
    using arg_cong [OF d(2), of "map it_kd"] p(3,4) by simp
  then have cut: "take k (new @ old) = map it_kd pre'" "drop (Suc k) (new @ old) = map it_kd rest"
    using d(8) by auto
  have "spill_step (spill_of c) (map fst (map it_kd pre' @ map it_kd rest)) ck (spill_of (left_cell c2))"
    using r(6) d(7) by (simp add: left_cell_def comp_def)
  with o(2,3) show ?thesis using that [OF o(1), unfolded cut] by blast
qed

lemma uniform_reuse:
  assumes u: "uniform bs c new (x # old)" and ok: "chunk_ok ck buffer bs"
    and fresh: "ck \<notin> fst ` set (new @ x # old)"
    and room: "unat (top_off c) + 36 + Suc (spill_of c) * 36 \<le> header_offset c"
  obtains c' where "cell_add_chunk c ck buffer bs = Inr (True, c')"
    "uniform bs c' (new @ [(ck, take (unat bs) buffer)]) old" "slab_size c' = slab_size c"
    "spill_step (spill_of c) (map fst (new @ old)) ck (spill_of c')"
proof -
  have ne: "next_off c \<noteq> top_off c" using uniform_facts(1,2) [OF u] by (auto simp: add_mult_distrib)
  have "ring_filled c" using uniform_facts(6) [OF u] by (auto simp: cell_inv_def cell_items_def)
  then have fill: "98341 \<le> unat (top_off c)" using ne by (simp add: ring_filled_def)
  have "\<exists>d pre' y rest. cell_view d pre' [] (y # rest) \<and> pre @ post = pre' @ y # rest \<and> same_meta (entered c) d \<and>
        cell_body_add (entered c) ck buffer bs cell_dir_entry_init =
          cell_body_add_offset d ck buffer bs cell_dir_entry_init \<and>
        98341 \<le> unat (top_off d) \<and> unat (top_off d) + 36 + Suc (spill_of d) * 36 \<le> header_offset d \<and>
        spill_of d = spill_of c \<and> length pre' = length new"
    if "cell_view (entered c) pre [] post" "map it_kd pre = new" "map it_kd post = x # old" for pre post
  proof -
    from map_eq_Cons_D [OF that(3)] obtain y rest where post: "post = y # rest" by (elim exE conjE)
    have "length pre = length new" using arg_cong [OF that(2), of length] by simp
    then show ?thesis
      using that(1) post ne fill room body_add_offset [OF that(1), of ck buffer bs cell_dir_entry_init]
      by (intro exI [of _ "entered c"] exI [of _ pre] exI [of _ y] exI [of _ rest] conjI) simp_all
  qed
  from uniform_replace [OF u ok fresh this] obtain c' where
    "cell_add_chunk c ck buffer bs = Inr (True, c')"
    "uniform bs c' (take (length new) (new @ x # old) @ [(ck, take (unat bs) buffer)])
       (drop (Suc (length new)) (new @ x # old))"
    "slab_size c' = slab_size c"
    "spill_step (spill_of c) (map fst (take (length new) (new @ x # old) @
       drop (Suc (length new)) (new @ x # old))) ck (spill_of c')" .
  then show ?thesis using that by simp
qed

lemma uniform_wrap:
  assumes u: "uniform bs c (x # new) []" and ok: "chunk_ok ck buffer bs"
    and fresh: "ck \<notin> fst ` set (x # new)" and wr: "wraps c bs"
    and room: "unat (top_off c) + 36 + Suc (spill_of c) * 36 \<le> header_offset c"
  obtains c' where "cell_add_chunk c ck buffer bs = Inr (True, c')"
    "uniform bs c' [(ck, take (unat bs) buffer)] new" "slab_size c' = slab_size c"
    "spill_step (spill_of c) (map fst new) ck (spill_of c')"
proof -
  have "\<exists>d pre' y rest. cell_view d pre' [] (y # rest) \<and> pre @ post = pre' @ y # rest \<and> same_meta (entered c) d \<and>
        cell_body_add (entered c) ck buffer bs cell_dir_entry_init =
          cell_body_add_offset d ck buffer bs cell_dir_entry_init \<and>
        98341 \<le> unat (top_off d) \<and> unat (top_off d) + 36 + Suc (spill_of d) * 36 \<le> header_offset d \<and>
        spill_of d = spill_of c \<and> length pre' = 0"
    if "cell_view (entered c) pre [] post" "map it_kd pre = x # new" "map it_kd post = []" for pre post
  proof -
    from map_eq_Cons_D [OF that(2)] obtain y rest where pre: "pre = y # rest" by (elim exE conjE)
    have "wraps (entered c) bs" using wr by simp
    note w = wrap_start [OF that(1) ok this]
    show ?thesis
      using w(1,2,3) w(5) [of cell_dir_entry_init] pre room
      by (intro exI [of _ "set_next_off (entered c) 0"] exI [of _ "[]"] exI [of _ y] exI [of _ rest] conjI) simp_all
  qed
  moreover have "ck \<notin> fst ` set ((x # new) @ [])" using fresh by simp
  ultimately obtain c' where
    "cell_add_chunk c ck buffer bs = Inr (True, c')"
    "uniform bs c' (take 0 ((x # new) @ []) @ [(ck, take (unat bs) buffer)]) (drop (Suc 0) ((x # new) @ []))"
    "slab_size c' = slab_size c"
    "spill_step (spill_of c) (map fst (take 0 ((x # new) @ []) @ drop (Suc 0) ((x # new) @ []))) ck (spill_of c')"
    using uniform_replace [OF u ok] by blast
  then show ?thesis using that by simp
qed

section \<open>A run of additions\<close>

fun cell_add_all :: "cell \<Rightarrow> u32 \<Rightarrow> binding list \<Rightarrow> cell result" where
  "cell_add_all c bs [] = Inr c"
| "cell_add_all c bs ((ck, buffer) # xs) =
     rbind (cell_add_chunk c ck buffer bs) (\<lambda>(_, c'). cell_add_all c' bs xs)"

definition stored :: "u32 \<Rightarrow> binding \<Rightarrow> binding" where
  "stored bs = (\<lambda>(ck, buffer). (ck, take (unat bs) buffer))"

text \<open>
  \<open>chunk_capacity sz bs s n\<close>: behind \<open>n\<close> chunks of size \<open>bs\<close> there is room for the top marker, \<open>s\<close> overflow
  entries and one more, but not for another chunk.
\<close>

definition chunk_capacity :: "u32 \<Rightarrow> u32 \<Rightarrow> nat \<Rightarrow> nat \<Rightarrow> bool" where
  "chunk_capacity sz bs s n \<longleftrightarrow>
     n * (unat bs + 36) + 36 * (s + 2) \<le> unat sz - sizeof_cell_header \<and>
     unat sz - sizeof_cell_header < Suc n * (unat bs + 36) + 72"

text \<open>
  The state after the chunks \<open>hist\<close>: the last \<open>n\<close> of them are there, the older of these from
  \<open>next_entry_offset\<close> to the top, the newer ones below.
\<close>

definition fifo_state :: "u32 \<Rightarrow> u32 \<Rightarrow> nat \<Rightarrow> nat \<Rightarrow> cell \<Rightarrow> binding list \<Rightarrow> binding list \<Rightarrow> binding list \<Rightarrow> bool" where
  "fifo_state sz bs s n c hist new old \<longleftrightarrow>
     uniform bs c new old \<and> slab_size c = sz \<and> spill_of c \<le> s \<and>
     old @ new = drop (length hist - n) hist \<and> (length hist < n \<longrightarrow> old = []) \<and>
     (hist \<noteq> [] \<longrightarrow> length new = Suc ((length hist - 1) mod n))"

lemma fifo_stateD:
  assumes "fifo_state sz bs s n c hist new old"
  shows "uniform bs c new old" "slab_size c = sz" "spill_of c \<le> s" "old @ new = drop (length hist - n) hist"
    "length hist < n \<Longrightarrow> old = []" "hist \<noteq> [] \<Longrightarrow> length new = Suc ((length hist - 1) mod n)"
    "length old + length new = min (length hist) n"
proof -
  show d: "uniform bs c new old" "slab_size c = sz" "spill_of c \<le> s" "old @ new = drop (length hist - n) hist"
    "length hist < n \<Longrightarrow> old = []" "hist \<noteq> [] \<Longrightarrow> length new = Suc ((length hist - 1) mod n)"
    using assms unfolding fifo_state_def by blast+
  have "length (old @ new) = length hist - (length hist - n)" unfolding d(4) by simp
  then show "length old + length new = min (length hist) n" by simp
qed

lemma crowd_window: "crowd b (map fst (drop k xs)) \<le> crowd b (map fst xs)"
proof -
  have "crowd b (map fst (take k xs @ drop k xs)) = crowd b (map fst (take k xs)) + crowd b (map fst (drop k xs))"
    unfolding map_append by simp
  then show ?thesis by simp
qed

text \<open>One more chunk: the overflow area stays within its bound for either of two reasons.\<close>

lemma fifo_spill:
  assumes step: "spill_step (spill_of c) (map fst others) ck s'" and st: "fifo_state sz bs s n c hist new old"
    and sub: "\<And>b. crowd b (map fst others) \<le> crowd b (map fst (old @ new))"
    and len: "s' \<le> n"
    and bound: "n \<le> s \<or> s = 0 \<and> crowd (block_no ck) (map fst hist) < CELL_DIR_BLOCK_ENTRIES"
  shows "s' \<le> s"
proof (cases "n \<le> s")
  case True
  with len show ?thesis by simp
next
  case False
  then have b: "s = 0" "crowd (block_no ck) (map fst hist) < CELL_DIR_BLOCK_ENTRIES" using bound by auto
  have "crowd (block_no ck) (map fst others) \<le> crowd (block_no ck) (map fst hist)"
    using sub [of "block_no ck"] fifo_stateD(4) [OF st] crowd_window [of "block_no ck" "length hist - n" hist]
    by simp
  with b step have "s' \<le> spill_of c" by (simp add: spill_step_def)
  then show ?thesis using fifo_stateD(3) [OF st] by simp
qed

text \<open>\<open>fifo_ready\<close>: what every step needs of the state and the chunk.\<close>

definition fifo_ready ::
    "u32 \<Rightarrow> u32 \<Rightarrow> nat \<Rightarrow> nat \<Rightarrow> cell \<Rightarrow> binding list \<Rightarrow> binding list \<Rightarrow> binding list \<Rightarrow> binding \<Rightarrow> bool" where
  "fifo_ready sz bs s n c hist new old kb \<longleftrightarrow>
     fifo_state sz bs s n c hist new old \<and> chunk_capacity sz bs s n \<and> 0 < n \<and>
     chunk_ok (fst kb) (snd kb) bs \<and> fst kb \<notin> fst ` set hist \<and>
     (n \<le> s \<or> s = 0 \<and> crowd (block_no (fst kb)) (map fst hist) < CELL_DIR_BLOCK_ENTRIES)"

lemma fifo_readyD:
  assumes "fifo_ready sz bs s n c hist new old (ck, buffer)"
  shows "fifo_state sz bs s n c hist new old" "chunk_capacity sz bs s n" "0 < n" "chunk_ok ck buffer bs"
    "n \<le> s \<or> s = 0 \<and> crowd (block_no ck) (map fst hist) < CELL_DIR_BLOCK_ENTRIES"
    "ck \<notin> fst ` set (new @ old)" "header_offset c = unat sz - sizeof_cell_header"
    "unat (top_off c) + 36 + Suc (spill_of c) * 36 \<le> header_offset c"
    "stored bs (ck, buffer) = (ck, take (unat bs) buffer)"
proof -
  show st: "fifo_state sz bs s n c hist new old" and cap: "chunk_capacity sz bs s n" "0 < n" "chunk_ok ck buffer bs"
    "n \<le> s \<or> s = 0 \<and> crowd (block_no ck) (map fst hist) < CELL_DIR_BLOCK_ENTRIES"
    using assms unfolding fifo_ready_def fst_conv snd_conv by blast+
  note d = fifo_stateD [OF st] and f = uniform_facts [OF fifo_stateD(1) [OF st]]
  have "set (old @ new) \<subseteq> set hist" unfolding d(4) by (rule set_drop_subset)
  then show "ck \<notin> fst ` set (new @ old)" using assms by (auto simp: fifo_ready_def)
  show off: "header_offset c = unat sz - sizeof_cell_header" using d(2) by (simp add: header_offset_def)
  have "unat (top_off c) \<le> n * (unat bs + 36)"
    unfolding f(2) using d(7) by (intro mult_le_mono1) simp
  then show "unat (top_off c) + 36 + Suc (spill_of c) * 36 \<le> header_offset c"
    using d(3) cap off by (simp add: chunk_capacity_def)
  show "stored bs (ck, buffer) = (ck, take (unat bs) buffer)" by (simp add: stored_def)
qed

text \<open>The bookkeeping all three kinds of step share.\<close>

lemma fifo_next:
  assumes ready: "fifo_ready sz bs s n c hist new old (ck, buffer)"
    and u: "uniform bs c' new' old'" and sz: "slab_size c' = slab_size c"
    and step: "spill_step (spill_of c) (map fst others) ck (spill_of c')"
    and win: "old' @ new' = drop (Suc (length hist) - n) (hist @ [(ck, take (unat bs) buffer)])"
    and early: "Suc (length hist) < n \<longrightarrow> old' = []" and new: "length new' = Suc (length hist mod n)"
    and others: "\<And>b. crowd b (map fst others) \<le> crowd b (map fst (old @ new))"
  shows "fifo_state sz bs s n c' (hist @ [stored bs (ck, buffer)]) new' old'"
proof -
  note r = fifo_readyD [OF ready]
  have "length (old' @ new') \<le> n" unfolding win by simp
  then have "spill_of c' \<le> n" using uniform_facts(3) [OF u] by simp
  from fifo_spill [OF step r(1) others this r(5)] have "spill_of c' \<le> s" .
  then show ?thesis
    using u sz fifo_stateD(2) [OF r(1)] win early new by (simp add: fifo_state_def r(9))
qed

lemma fifo_append:
  assumes ready: "fifo_ready sz bs s n c hist new old (ck, buffer)" and few: "length hist < n"
  obtains c' where "cell_add_chunk c ck buffer bs = Inr (True, c')"
    "fifo_state sz bs s n c' (hist @ [stored bs (ck, buffer)]) (new @ [stored bs (ck, buffer)]) []"
proof -
  note r = fifo_readyD [OF ready]
  note d = fifo_stateD [OF r(1)] and f = uniform_facts [OF fifo_stateD(1) [OF r(1)]]
  have old: "old = []" and new: "new = hist" using few d(4,5) by simp_all
  have "Suc (length new) * (unat bs + 36) \<le> n * (unat bs + 36)"
    using few new by (intro mult_le_mono1) simp
  then have "append_fits c bs"
    using f(1,2) old d(3) r(2,7) by (simp add: append_fits_def word_unat_eq_iff chunk_capacity_def)
  from uniform_append [OF d(1) [unfolded old] r(4) _ this] r(6) old obtain c' where
    c': "cell_add_chunk c ck buffer bs = Inr (True, c')" "uniform bs c' (new @ [(ck, take (unat bs) buffer)]) []"
    "slab_size c' = slab_size c" "spill_step (spill_of c) (map fst new) ck (spill_of c')" by auto
  have "fifo_state sz bs s n c' (hist @ [stored bs (ck, buffer)]) (new @ [(ck, take (unat bs) buffer)]) []"
    using few old new by (intro fifo_next [OF ready c'(2,3,4)]) simp_all
  then show ?thesis using that [OF c'(1)] r(9) by simp
qed

text \<open>Once there are \<open>n\<close> chunks the window moves by one.\<close>

lemma window_moves:
  assumes "fifo_state sz bs s n c hist new old" "0 < n" "\<not> length hist < n"
  shows "length old + length new = n" "length new = Suc ((length hist - 1) mod n)"
    "Suc (length hist - 1) = length hist"
    "drop (Suc (length hist) - n) (hist @ [kd]) = tl (old @ new) @ [kd]"
proof -
  note d = fifo_stateD [OF assms(1)]
  have ne: "hist \<noteq> []" using assms(2,3) by auto
  show "length old + length new = n" "length new = Suc ((length hist - 1) mod n)"
    "Suc (length hist - 1) = length hist"
    using d(6) [OF ne] d(7) assms(3) ne by auto
  have "Suc 0 - n = 0" using assms(2) by simp
  then show "drop (Suc (length hist) - n) (hist @ [kd]) = tl (old @ new) @ [kd]"
    using assms(3) d(4) by (simp add: Suc_diff_le drop_Suc tl_drop)
qed

lemma fifo_reuse:
  assumes ready: "fifo_ready sz bs s n c hist new (x # old) (ck, buffer)" and full: "\<not> length hist < n"
  obtains c' where "cell_add_chunk c ck buffer bs = Inr (True, c')"
    "fifo_state sz bs s n c' (hist @ [stored bs (ck, buffer)]) (new @ [stored bs (ck, buffer)]) old"
proof -
  note r = fifo_readyD [OF ready]
  note w = window_moves [OF r(1,3) full]
  have "Suc ((length hist - 1) mod n) < n" using w(1,2) by simp
  then have m: "length new = length hist mod n" using w(2,3) mod_Suc [of "length hist - 1" n] by simp
  from uniform_reuse [OF fifo_stateD(1) [OF r(1)] r(4,6,8)] obtain c' where
    c': "cell_add_chunk c ck buffer bs = Inr (True, c')" "uniform bs c' (new @ [(ck, take (unat bs) buffer)]) old"
    "slab_size c' = slab_size c" "spill_step (spill_of c) (map fst (new @ old)) ck (spill_of c')" by metis
  have "fifo_state sz bs s n c' (hist @ [stored bs (ck, buffer)]) (new @ [(ck, take (unat bs) buffer)]) old"
    using full m w(4) by (intro fifo_next [OF ready c'(2,3,4)]) simp_all
  then show ?thesis using that [OF c'(1)] r(9) by simp
qed

lemma fifo_wrap:
  assumes ready: "fifo_ready sz bs s n c hist (x # new) [] (ck, buffer)" and full: "\<not> length hist < n"
  obtains c' where "cell_add_chunk c ck buffer bs = Inr (True, c')"
    "fifo_state sz bs s n c' (hist @ [stored bs (ck, buffer)]) [stored bs (ck, buffer)] new"
proof -
  note r = fifo_readyD [OF ready]
  note w = window_moves [OF r(1,3) full] and f = uniform_facts [OF fifo_stateD(1) [OF r(1)]]
  have "Suc ((length hist - 1) mod n) = n" using w(1,2) by simp
  then have m: "length hist mod n = 0" using w(3) mod_Suc [of "length hist - 1" n] by simp
  have "Suc (length new) = n" using w(1) by simp
  then have "wraps c bs"
    using f(1,2) r(2,7) by (auto simp: wraps_def append_fits_def word_unat_eq_iff chunk_capacity_def)
  moreover have "ck \<notin> fst ` set (x # new)" using r(6) by simp
  ultimately obtain c' where
    c': "cell_add_chunk c ck buffer bs = Inr (True, c')" "uniform bs c' [(ck, take (unat bs) buffer)] new"
    "slab_size c' = slab_size c" "spill_step (spill_of c) (map fst new) ck (spill_of c')"
    using uniform_wrap [OF fifo_stateD(1) [OF r(1)] r(4) _ _ r(8)] by metis
  have "fifo_state sz bs s n c' (hist @ [stored bs (ck, buffer)]) [(ck, take (unat bs) buffer)] new"
    using full m w(4) by (intro fifo_next [OF ready c'(2,3,4)]) simp_all
  then show ?thesis using that [OF c'(1)] r(9) by simp
qed

lemma fifo_step:
  assumes ready: "fifo_ready sz bs s n c hist new old (ck, buffer)"
  obtains c' new' old' where "cell_add_chunk c ck buffer bs = Inr (True, c')"
    "fifo_state sz bs s n c' (hist @ [stored bs (ck, buffer)]) new' old'"
proof (cases "length hist < n")
  case True
  from fifo_append [OF ready this] show ?thesis using that by metis
next
  case False
  note w = window_moves(1) [OF fifo_readyD(1,3) [OF ready] False]
  show ?thesis
  proof (cases old)
    case (Cons x rest)
    from fifo_reuse [OF ready [unfolded Cons] False] show ?thesis using that by metis
  next
    case Nil
    then obtain x rest where "new = x # rest" using w fifo_readyD(3) [OF ready] by (cases new) auto
    from fifo_wrap [OF ready [unfolded Nil this] False] show ?thesis using that by metis
  qed
qed

lemma fifo_run:
  assumes "fifo_state sz bs s n c hist new old" "chunk_capacity sz bs s n" "0 < n"
    and "\<forall>kb \<in> set xs. chunk_ok (fst kb) (snd kb) bs" "distinct (map fst (hist @ xs))"
    and "n \<le> s \<or> s = 0 \<and> (\<forall>b. crowd b (map fst (hist @ xs)) \<le> CELL_DIR_BLOCK_ENTRIES)"
  shows "\<exists>c' new' old'. cell_add_all c bs xs = Inr c' \<and>
    fifo_state sz bs s n c' (hist @ map (stored bs) xs) new' old'"
  using assms
proof (induction xs arbitrary: c hist new old)
  case Nil
  then show ?case by auto
next
  case (Cons kb xs)
  obtain ck buffer where kb: "kb = (ck, buffer)" by (cases kb)
  have key: "fst (stored bs kb) = ck" by (simp add: kb stored_def)
  have "s = 0 \<Longrightarrow> \<not> n \<le> s \<Longrightarrow> crowd (block_no ck) (map fst hist) < CELL_DIR_BLOCK_ENTRIES"
  proof -
    assume "\<not> n \<le> s"
    then have "crowd (block_no ck) (map fst (hist @ kb # xs)) \<le> CELL_DIR_BLOCK_ENTRIES" using Cons.prems(6) by blast
    then show "crowd (block_no ck) (map fst hist) < CELL_DIR_BLOCK_ENTRIES" by (simp add: kb)
  qed
  then have "fifo_ready sz bs s n c hist new old (ck, buffer)"
    using Cons.prems kb unfolding fifo_ready_def by auto
  from fifo_step [OF this] obtain c1 new1 old1 where
    c1: "cell_add_chunk c ck buffer bs = Inr (True, c1)" "fifo_state sz bs s n c1 (hist @ [stored bs kb]) new1 old1"
    using kb by metis
  have "\<exists>c' new' old'. cell_add_all c1 bs xs = Inr c' \<and>
    fifo_state sz bs s n c' ((hist @ [stored bs kb]) @ map (stored bs) xs) new' old'"
    using Cons.prems key kb by (intro Cons.IH [OF c1(2)]) simp_all
  then show ?case using c1(1) kb by simp
qed

section \<open>First in, first out\<close>

text \<open>A fresh cell is such a state.\<close>

lemma fifo_start:
  assumes "\<not> cell_header_sane h" "ok_geometry sz" "cell_init h m sz = Inr c"
  shows "fifo_state sz bs s n c [] [] []"
proof -
  from cell_init_insane [OF assms(1,2)] assms(3) have c: "cell_inv c" "cell_items c []" "slab_size c = sz"
    "next_off c = 0" "top_off c = 0" "spill_of c = 0" by (metis sum.inject(2))+
  then obtain pre mid post where v: "cell_view c pre mid post" "[] = pre @ post"
    unfolding cell_items_def by blast
  then have "mid = []" using view_top_empty(1) [OF v(1)] c(4,5) by simp
  then have "cell_view c [] [] []" using v by simp
  then show ?thesis using c by (auto simp: fifo_state_def uniform_def)
qed

lemma fifo_from_start:
  assumes "\<not> cell_header_sane h" "ok_geometry sz" "cell_init h m sz = Inr c"
    and "\<forall>kb \<in> set xs. chunk_ok (fst kb) (snd kb) bs" "distinct (map fst xs)"
    and cap: "chunk_capacity sz bs s n"
    and bound: "n \<le> s \<or> s = 0 \<and> (\<forall>b. crowd b (map fst xs) \<le> CELL_DIR_BLOCK_ENTRIES)"
    and size: "unat bs \<le> MAX_ENTRY"
  obtains c' new old where "cell_add_all c bs xs = Inr c'" "fifo_state sz bs s n c' (map (stored bs) xs) new old"
proof -
  have "0 < n"
  proof (rule ccontr)
    assume "\<not> 0 < n"
    then show False
      using cap size assms(2)
      by (auto simp: chunk_capacity_def ok_geometry_def sizeof_cell_header_def MAX_ENTRY_def)
  qed
  from fifo_run [OF fifo_start [OF assms(1-3)] cap this, of xs] assms(4,5) bound that show ?thesis by auto
qed

text \<open>
  C12: a cell that is given chunks of one size keeps exactly the latest ones, as many as fit, and forgets
  the others in the order they came, whatever buckets of the directory their checksums fall into, as long
  as the overflow area could take all of them.
\<close>

theorem cell_fifo:
  assumes "\<not> cell_header_sane h" "ok_geometry sz" "cell_init h m sz = Inr c"
    and "\<forall>kb \<in> set xs. chunk_ok (fst kb) (snd kb) bs" "distinct (map fst xs)"
    and "chunk_capacity sz bs n n" "unat bs \<le> MAX_ENTRY"
  shows "\<exists>c'. cell_add_all c bs xs = Inr c' \<and> cell_inv c' \<and>
     cell_map c' = map_of (map (\<lambda>(ck, buffer). (ck, take (unat bs) buffer)) (drop (length xs - n) xs))"
proof -
  have "n \<le> n \<or> n = 0 \<and> (\<forall>b. crowd b (map fst xs) \<le> CELL_DIR_BLOCK_ENTRIES)" by simp
  from fifo_from_start [OF assms(1-6) this assms(7)] obtain c' new old where
    run: "cell_add_all c bs xs = Inr c'" and st: "fifo_state sz bs n n c' (map (stored bs) xs) new old" .
  note d = fifo_stateD [OF st] and f = uniform_facts [OF fifo_stateD(1) [OF st]]
  have "map_of (new @ old) = map_of (old @ new)"
    unfolding map_of_append by (rule map_add_comm) (use f(5) in \<open>auto simp: dom_map_of_conv_image_fst\<close>)
  also have "old @ new = map (stored bs) (drop (length xs - n) xs)" using d(4) by (simp add: drop_map)
  finally show ?thesis using run f(4,6) unfolding stored_def by auto
qed

section \<open>Sample runs\<close>

definition numbered_key :: "nat \<Rightarrow> nat \<Rightarrow> checksum" where
  "numbered_key b i = \<lparr>bytes = of_nat i # replicate 16 0 @ of_nat b # replicate 14 0\<rparr>"

lemma numbered_key_simps [simp]:
  "wf_checksum (numbered_key b i)" "block_no (numbered_key b i) = of_nat b"
  by (simp_all add: numbered_key_def wf_checksum_def CHECKSUM_SIZE_def block_no_def
      CELL_DIR_BLOCK_CHECKSUM_BYTE_def nth_Cons' nth_append)

lemma of_nat_u8_inj: "i < 256 \<Longrightarrow> j < 256 \<Longrightarrow> (of_nat i :: u8) = of_nat j \<longleftrightarrow> i = j"
  by (simp add: word_unat_eq_iff word_nat)

lemma numbered_distinct:
  assumes "n \<le> 256"
  shows "distinct (map (\<lambda>i. numbered_key (f i) i) [0..<n])"
  using assms by (auto simp: distinct_map inj_on_def numbered_key_def of_nat_u8_inj)

text \<open>Chunks of the average size of the chunker, all of them in one bucket of the directory.\<close>

definition crowded_chunk :: "nat \<Rightarrow> binding" where
  "crowded_chunk i = (numbered_key 0 i, replicate 8192 7)"

lemma crowded_ok:
  "\<forall>kb \<in> set (map crowded_chunk is). chunk_ok (fst kb) (snd kb) 8192"
  "n \<le> 256 \<Longrightarrow> distinct (map fst (map crowded_chunk [0..<n]))"
  "stored 8192 (crowded_chunk i) = crowded_chunk i" "chunk_capacity 1048576 8192 123 123"
  using numbered_distinct [of n "\<lambda>i. 0"]
  by (simp_all add: crowded_chunk_def chunk_ok_def ok_size_def MIN_ENTRY_def MAX_ENTRY_def stored_def
      chunk_capacity_def sizeof_cell_header_def comp_def)

theorem cell_fifo_witness:
  "\<exists>c c'. cell_init blank_header (\<lambda>_. 0) 1048576 = Inr c \<and>
     cell_add_all c 8192 (map crowded_chunk [0..<200]) = Inr c' \<and> cell_inv c' \<and>
     cell_map c' = map_of (map crowded_chunk [77..<200])"
proof -
  obtain c where c: "cell_init blank_header (\<lambda>_. 0) 1048576 = Inr c" using blank_cell by metis
  have d: "distinct (map fst (map crowded_chunk [0..<200]))" by (rule crowded_ok(2)) simp
  have m: "unat (8192 :: u32) \<le> MAX_ENTRY" by (simp add: MAX_ENTRY_def)
  have "map (\<lambda>(ck, buffer). (ck, take (unat (8192 :: u32)) buffer)) (drop (200 - 123) (map crowded_chunk [0..<200])) =
      map crowded_chunk [77..<200]"
    using crowded_ok(3) unfolding stored_def [symmetric] by (simp add: drop_map comp_def)
  with cell_fifo [OF blank_header_insane geometry_1MB c crowded_ok(1) d crowded_ok(4) m] c show ?thesis
    by auto
qed

end
