(* ===== verification/Rolling_Hash.thy ===== *)
theory Rolling_Hash
  imports Theo_Prelude
begin

text \<open>
  \<^verbatim>\<open>rolling_hash2\<close> of the vendored ISA-L library (\<^verbatim>\<open>rolling_hashx.h\<close>, \<^verbatim>\<open>rolling_hash2.c\<close>): the windowed hash that
  finds chunk boundaries.  The inner loop is modelled after its C version, \<^verbatim>\<open>rolling_hash2_run_until_base\<close>; the
  assembly versions that the library may select at run time compute the same function.  At the end it is shown
  that the two loops find the first trigger, and that the hash they roll is the hash of the window.
\<close>

definition FINGERPRINT_RET_HIT :: int where "FINGERPRINT_RET_HIT = 0"
definition FINGERPRINT_RET_MAX :: int where "FINGERPRINT_RET_MAX = 1"
definition FINGERPRINT_MAX_WINDOW :: nat where "FINGERPRINT_MAX_WINDOW = 48"

record rh_state2 =
  rh_history :: "u8 list"
  rh_table1 :: "u64 list"
  rh_table2 :: "u64 list"
  rh_hash :: u64
  rh_w :: u32

definition rh_state2_zero :: rh_state2 where
  "rh_state2_zero = \<lparr>rh_history = replicate FINGERPRINT_MAX_WINDOW 0, rh_table1 = replicate 256 0,
     rh_table2 = replicate 256 0, rh_hash = 0, rh_w = 0\<rparr>"

definition rolling_hash2_table1 :: "u64 list" where
  "rolling_hash2_table1 =
    [0x243F6A8885A308D3, 0x13198A2E03707344, 0xA4093822299F31D0, 0x082EFA98EC4E6C89,
     0x452821E638D01377, 0xBE5466CF34E90C6C, 0xC0AC29B7C97C50DD, 0x3F84D5B5B5470917,
     0x9216D5D98979FB1B, 0xD1310BA698DFB5AC, 0x2FFD72DBD01ADFB7, 0xB8E1AFED6A267E96,
     0xBA7C9045F12C7F99, 0x24A19947B3916CF7, 0x0801F2E2858EFC16, 0x636920D871574E69,
     0xA458FEA3F4933D7E, 0x0D95748F728EB658, 0x718BCD5882154AEE, 0x7B54A41DC25A59B5,
     0x9C30D5392AF26013, 0xC5D1B023286085F0, 0xCA417918B8DB38EF, 0x8E79DCB0603A180E,
     0x6C9E0E8BB01E8A3E, 0xD71577C1BD314B27, 0x78AF2FDA55605C60, 0xE65525F3AA55AB94,
     0x5748986263E81440, 0x55CA396A2AAB10B6, 0xB4CC5C341141E8CE, 0xA15486AF7C72E993,
     0xB3EE1411636FBC2A, 0x2BA9C55D741831F6, 0xCE5C3E169B87931E, 0xAFD6BA336C24CF5C,
     0x7A32538128958677, 0x3B8F48986B4BB9AF, 0xC4BFE81B66282193, 0x61D809CCFB21A991,
     0x487CAC605DEC8032, 0xEF845D5DE98575B1, 0xDC262302EB651B88, 0x23893E81D396ACC5,
     0x0F6D6FF383F44239, 0x2E0B4482A4842004, 0x69C8F04A9E1F9B5E, 0x21C66842F6E96C9A,
     0x670C9C61ABD388F0, 0x6A51A0D2D8542F68, 0x960FA728AB5133A3, 0x6EEF0B6C137A3BE4,
     0xBA3BF0507EFB2A98, 0xA1F1651D39AF0176, 0x66CA593E82430E88, 0x8CEE8619456F9FB4,
     0x7D84A5C33B8B5EBE, 0xE06F75D885C12073, 0x401A449F56C16AA6, 0x4ED3AA62363F7706,
     0x1BFEDF72429B023D, 0x37D0D724D00A1248, 0xDB0FEAD349F1C09B, 0x075372C980991B7B,
     0x25D479D8F6E8DEF7, 0xE3FE501AB6794C3B, 0x976CE0BD04C006BA, 0xC1A94FB6409F60C4,
     0x5E5C9EC2196A2463, 0x68FB6FAF3E6C53B5, 0x1339B2EB3B52EC6F, 0x6DFC511F9B30952C,
     0xCC814544AF5EBD09, 0xBEE3D004DE334AFD, 0x660F2807192E4BB3, 0xC0CBA85745C8740F,
     0xD20B5F39B9D3FBDB, 0x5579C0BD1A60320A, 0xD6A100C6402C7279, 0x679F25FEFB1FA3CC,
     0x8EA5E9F8DB3222F8, 0x3C7516DFFD616B15, 0x2F501EC8AD0552AB, 0x323DB5FAFD238760,
     0x53317B483E00DF82, 0x9E5C57BBCA6F8CA0, 0x1A87562EDF1769DB, 0xD542A8F6287EFFC3,
     0xAC6732C68C4F5573, 0x695B27B0BBCA58C8, 0xE1FFA35DB8F011A0, 0x10FA3D98FD2183B8,
     0x4AFCB56C2DD1D35B, 0x9A53E479B6F84565, 0xD28E49BC4BFB9790, 0xE1DDF2DAA4CB7E33,
     0x62FB1341CEE4C6E8, 0xEF20CADA36774C01, 0xD07E9EFE2BF11FB4, 0x95DBDA4DAE909198,
     0xEAAD8E716B93D5A0, 0xD08ED1D0AFC725E0, 0x8E3C5B2F8E7594B7, 0x8FF6E2FBF2122B64,
     0x8888B812900DF01C, 0x4FAD5EA0688FC31C, 0xD1CFF191B3A8C1AD, 0x2F2F2218BE0E1777,
     0xEA752DFE8B021FA1, 0xE5A0CC0FB56F74E8, 0x18ACF3D6CE89E299, 0xB4A84FE0FD13E0B7,
     0x7CC43B81D2ADA8D9, 0x165FA26680957705, 0x93CC7314211A1477, 0xE6AD206577B5FA86,
     0xC75442F5FB9D35CF, 0xEBCDAF0C7B3E89A0, 0xD6411BD3AE1E7E49, 0x00250E2D2071B35E,
     0x226800BB57B8E0AF, 0x2464369BF009B91E, 0x5563911D59DFA6AA, 0x78C14389D95A537F,
     0x207D5BA202E5B9C5, 0x832603766295CFA9, 0x11C819684E734A41, 0xB3472DCA7B14A94A,
     0x1B5100529A532915, 0xD60F573FBC9BC6E4, 0x2B60A47681E67400, 0x08BA6FB5571BE91F,
     0xF296EC6B2A0DD915, 0xB6636521E7B9F9B6, 0xFF34052EC5855664, 0x53B02D5DA99F8FA1,
     0x08BA47996E85076A, 0x4B7A70E9B5B32944, 0xDB75092EC4192623, 0xAD6EA6B049A7DF7D,
     0x9CEE60B88FEDB266, 0xECAA8C71699A17FF, 0x5664526CC2B19EE1, 0x193602A575094C29,
     0xA0591340E4183A3E, 0x3F54989A5B429D65, 0x6B8FE4D699F73FD6, 0xA1D29C07EFE830F5,
     0x4D2D38E6F0255DC1, 0x4CDD20868470EB26, 0x6382E9C6021ECC5E, 0x09686B3F3EBAEFC9,
     0x3C9718146B6A70A1, 0x687F358452A0E286, 0xB79C5305AA500737, 0x3E07841C7FDEAE5C,
     0x8E7D44EC5716F2B8, 0xB03ADA37F0500C0D, 0xF01C1F040200B3FF, 0xAE0CF51A3CB574B2,
     0x25837A58DC0921BD, 0xD19113F97CA92FF6, 0x9432477322F54701, 0x3AE5E58137C2DADC,
     0xC8B576349AF3DDA7, 0xA94461460FD0030E, 0xECC8C73EA4751E41, 0xE238CD993BEA0E2F,
     0x3280BBA1183EB331, 0x4E548B384F6DB908, 0x6F420D03F60A04BF, 0x2CB8129024977C79,
     0x5679B072BCAF89AF, 0xDE9A771FD9930810, 0xB38BAE12DCCF3F2E, 0x5512721F2E6B7124,
     0x501ADDE69F84CD87, 0x7A5847187408DA17, 0xBC9F9ABCE94B7D8C, 0xEC7AEC3ADB851DFA,
     0x63094366C464C3D2, 0xEF1C18473215D908, 0xDD433B3724C2BA16, 0x12A14D432A65C451,
     0x50940002133AE4DD, 0x71DFF89E10314E55, 0x81AC77D65F11199B, 0x043556F1D7A3C76B,
     0x3C11183B5924A509, 0xF28FE6ED97F1FBFA, 0x9EBABF2C1E153C6E, 0x86E34570EAE96FB1,
     0x860E5E0A5A3E2AB3, 0x771FE71C4E3D06FA, 0x2965DCB999E71D0F, 0x803E89D65266C825,
     0x2E4CC9789C10B36A, 0xC6150EBA94E2EA78, 0xA5FC3C531E0A2DF4, 0xF2F74EA7361D2B3D,
     0x1939260F19C27960, 0x5223A708F71312B6, 0xEBADFE6EEAC31F66, 0xE3BC4595A67BC883,
     0xB17F37D1018CFF28, 0xC332DDEFBE6C5AA5, 0x6558218568AB9802, 0xEECEA50FDB2F953B,
     0x2AEF7DAD5B6E2F84, 0x1521B62829076170, 0xECDD4775619F1510, 0x13CCA830EB61BD96,
     0x0334FE1EAA0363CF, 0xB5735C904C70A239, 0xD59E9E0BCBAADE14, 0xEECC86BC60622CA7,
     0x9CAB5CABB2F3846E, 0x648B1EAF19BDF0CA, 0xA02369B9655ABB50, 0x40685A323C2AB4B3,
     0x319EE9D5C021B8F7, 0x9B540B19875FA099, 0x95F7997E623D7DA8, 0xF837889A97E32D77,
     0x11ED935F16681281, 0x0E358829C7E61FD6, 0x96DEDFA17858BA99, 0x57F584A51B227263,
     0x9B83C3FF1AC24696, 0xCDB30AEB532E3054, 0x8FD948E46DBC3128, 0x58EBF2EF34C6FFEA,
     0xFE28ED61EE7C3C73, 0x5D4A14D9E864B7E3, 0x42105D14203E13E0, 0x45EEE2B6A3AAABEA,
     0xDB6C4F15FACB4FD0, 0xC742F442EF6ABBB5, 0x654F3B1D41CD2105, 0xD81E799E86854DC7,
     0xE44B476A3D816250, 0xCF62A1F25B8D2646, 0xFC8883A0C1C7B6A3, 0x7F1524C369CB7492,
     0x47848A0B5692B285, 0x095BBF00AD19489D, 0x1462B17423820E00, 0x58428D2A0C55F5EA,
     0x1DADF43E233F7061, 0x3372F0928D937E41, 0xD65FECF16C223BDB, 0x7CDE3759CBEE7460,
     0x4085F2A7CE77326E, 0xA607808419F8509E, 0xE8EFD85561D99735, 0xA969A7AAC50C06C2]"

section \<open>The operations\<close>

text \<open>\<^verbatim>\<open>(v << n) | (v >> (64 - n))\<close> on \<^verbatim>\<open>uint64_t\<close>.\<close>

definition rol64 :: "nat \<Rightarrow> u64 \<Rightarrow> u64" where
  "rol64 n v = push_bit n v OR drop_bit (64 - n) v"

text \<open>A byte of a buffer; reading beyond its end is out of bounds.\<close>

definition byte_at :: "u8 list \<Rightarrow> nat \<Rightarrow> u8 result" where
  "byte_at bs i = (if i < length bs then Inr (bs ! i) else Inl OutOfBounds)"

definition rolling_hash2_init :: "rh_state2 \<Rightarrow> u32 \<Rightarrow> int \<times> rh_state2" where
  "rolling_hash2_init state w =
     (if unat w > FINGERPRINT_MAX_WINDOW then (-1, state)
      else (0, state\<lparr>rh_table1 := rolling_hash2_table1,
                     rh_table2 := map (rol64 (unat w)) rolling_hash2_table1, rh_w := w\<rparr>))"

definition hash_fn :: "rh_state2 \<Rightarrow> u64 \<Rightarrow> u8 \<Rightarrow> u8 \<Rightarrow> u64" where
  "hash_fn state h new_char old_char =
     rol64 1 h XOR (rh_table1 state ! unat new_char XOR rh_table2 state ! unat old_char)"

text \<open>\<open>init_bytes\<close> is what the pointer refers to; the loop and the \<^verbatim>\<open>memcpy\<close> read \<open>w\<close> bytes of it.\<close>

definition rolling_hash2_reset :: "rh_state2 \<Rightarrow> u8 list \<Rightarrow> rh_state2 result" where
  "rolling_hash2_reset state init_bytes =
     (let w = unat (rh_w state) in
      if w \<le> length init_bytes then
        Inr (state\<lparr>rh_hash := fold (\<lambda>b h. rol64 1 h XOR rh_table1 state ! unat b) (take w init_bytes) 0,
                   rh_history := take w init_bytes @ drop w (rh_history state)\<rparr>)
      else Inl OutOfBounds)"

text \<open>
  The inner loop from \<open>i\<close> on; \<open>max_idx\<close> is an \<^verbatim>\<open>int\<close>, and \<open>b2\<close> is \<open>buffer - w\<close>.  The C code has the loop twice,
  with the test against zero spelled out, for speed only.
\<close>

function rolling_hash2_run_until ::
    "nat \<Rightarrow> int \<Rightarrow> rh_state2 \<Rightarrow> u8 list \<Rightarrow> nat \<Rightarrow> u64 \<Rightarrow> u64 \<Rightarrow> u64 \<Rightarrow> (nat \<times> u64) result" where
  "rolling_hash2_run_until i max_idx state buffer w h msk trigger =
     (if int i < max_idx then
        rbind (byte_at buffer i) (\<lambda>b1.
        rbind (byte_at buffer (i - w)) (\<lambda>b2.
        let h1 = rol64 1 h XOR (rh_table1 state ! unat b1 XOR rh_table2 state ! unat b2) in
        if h1 AND msk = trigger then Inr (i, h1)
        else rolling_hash2_run_until (Suc i) max_idx state buffer w h1 msk trigger))
      else Inr (i, h))"
  by pat_completeness auto
termination
  by (relation "measure (\<lambda>(i, max_idx, _). nat (max_idx - int i))") auto

text \<open>The history after \<open>i\<close> bytes of the buffer, for \<open>i\<close> up to \<open>w\<close>: \<^verbatim>\<open>memmove\<close> and \<^verbatim>\<open>memcpy\<close>.\<close>

definition shift_history :: "rh_state2 \<Rightarrow> u8 list \<Rightarrow> nat \<Rightarrow> u8 list" where
  "shift_history state buffer i =
     (let w = unat (rh_w state) in
      take (w - i) (drop i (rh_history state)) @ take i buffer @ drop w (rh_history state))"

text \<open>
  The first loop, over the window: \<open>k\<close> rounds are left.  \<open>Inl\<close>: the function returns from inside the loop, with
  its result, the number of bytes consumed and the hash; \<open>Inr\<close>: the loop has run to its end.
\<close>

fun rolling_hash2_run_head ::
    "nat \<Rightarrow> nat \<Rightarrow> rh_state2 \<Rightarrow> u8 list \<Rightarrow> u32 \<Rightarrow> u64 \<Rightarrow> u64 \<Rightarrow> u64 \<Rightarrow> (int \<times> nat \<times> u64 + u64) result" where
  "rolling_hash2_run_head 0 i state buffer buffer_length h msk trigger = Inr (Inr h)"
| "rolling_hash2_run_head (Suc k) i state buffer buffer_length h msk trigger =
     (if i = unat buffer_length then Inr (Inl (FINGERPRINT_RET_MAX, i, h))
      else
        rbind (byte_at buffer i) (\<lambda>b.
        let h1 = hash_fn state h b (rh_history state ! i) in
        if h1 AND msk = trigger then Inr (Inl (FINGERPRINT_RET_HIT, Suc i, h1))
        else rolling_hash2_run_head k (Suc i) state buffer buffer_length h1 msk trigger))"

text \<open>\<open>msk\<close> (the C parameter \<^verbatim>\<open>mask\<close>) and \<open>trigger\<close> are widened to 64 bits; the result comes with the new state and the offset.\<close>

definition rolling_hash2_run ::
    "rh_state2 \<Rightarrow> u8 list \<Rightarrow> u32 \<Rightarrow> u32 \<Rightarrow> u32 \<Rightarrow> (int \<times> rh_state2 \<times> u32) result" where
  "rolling_hash2_run state buffer buffer_length msk trigger =
     (let w = unat (rh_w state) in
      rbind (rolling_hash2_run_head w 0 state buffer buffer_length (rh_hash state) (ucast msk) (ucast trigger))
        (\<lambda>r. case r of
           Inl (ret, i, h) \<Rightarrow>
             Inr (ret, state\<lparr>rh_history := shift_history state buffer i, rh_hash := h\<rparr>, of_nat i)
         | Inr h0 \<Rightarrow>
             rbind (rolling_hash2_run_until w (sint buffer_length) state buffer w h0 (ucast msk) (ucast trigger))
               (\<lambda>(i, h).
                if h AND ucast msk = ucast trigger
                then Inr (FINGERPRINT_RET_HIT,
                          state\<lparr>rh_history := take w (drop (Suc i - w) buffer) @ drop w (rh_history state),
                                rh_hash := h\<rparr>, of_nat (Suc i))
                else Inr (FINGERPRINT_RET_MAX,
                          state\<lparr>rh_history := take w (drop (i - w) buffer) @ drop w (rh_history state),
                                rh_hash := h\<rparr>, of_nat i))))"

declare rolling_hash2_run_until.simps [simp del]

section \<open>The first trigger\<close>

text \<open>
  The bytes the window slides over are the history and then the buffer; \<open>roll_at k\<close> is the hash after \<open>k\<close>
  bytes of the buffer have come in.
\<close>

definition slide :: "rh_state2 \<Rightarrow> u8 list \<Rightarrow> u8 list" where
  "slide state buffer = take (unat (rh_w state)) (rh_history state) @ buffer"

primrec roll_at :: "rh_state2 \<Rightarrow> u8 list \<Rightarrow> nat \<Rightarrow> u64" where
  "roll_at state buffer 0 = rh_hash state"
| "roll_at state buffer (Suc k) =
     hash_fn state (roll_at state buffer k) (buffer ! k) (slide state buffer ! k)"

definition triggers :: "rh_state2 \<Rightarrow> u8 list \<Rightarrow> u64 \<Rightarrow> u64 \<Rightarrow> nat \<Rightarrow> bool" where
  "triggers state buffer msk trigger k \<longleftrightarrow> roll_at state buffer k AND msk = trigger"

definition first_trigger :: "rh_state2 \<Rightarrow> u8 list \<Rightarrow> u64 \<Rightarrow> u64 \<Rightarrow> nat \<Rightarrow> nat option" where
  "first_trigger state buffer msk trigger n = find (triggers state buffer msk trigger) [1..<Suc n]"

lemma first_trigger_Some:
  assumes "1 \<le> k" "k \<le> n" "triggers state buffer msk trigger k"
    and "\<And>j. 1 \<le> j \<Longrightarrow> j < k \<Longrightarrow> \<not> triggers state buffer msk trigger j"
  shows "first_trigger state buffer msk trigger n = Some k"
proof -
  have "[1..<Suc n] ! (k - 1) = k" "k - 1 < length [1..<Suc n]"
    using assms(1,2) nth_upt [of 1 "k - 1" "Suc n"] by (simp_all del: upt_Suc)
  moreover have "\<not> triggers state buffer msk trigger ([1..<Suc n] ! j)" if "j < k - 1" for j
  proof -
    have "[1..<Suc n] ! j = Suc j" using assms(2) that nth_upt [of 1 j "Suc n"] by (simp del: upt_Suc)
    then show ?thesis using assms(4) [of "Suc j"] that by simp
  qed
  ultimately show ?thesis
    using assms(3) unfolding first_trigger_def find_Some_iff by (intro exI [of _ "k - 1"]) simp
qed

lemma first_trigger_None:
  assumes "\<And>j. 1 \<le> j \<Longrightarrow> j \<le> n \<Longrightarrow> \<not> triggers state buffer msk trigger j"
  shows "first_trigger state buffer msk trigger n = None"
  using assms by (auto simp: first_trigger_def find_None_iff)

lemma first_trigger_bounds:
  assumes "first_trigger state buffer msk trigger n = Some k"
  shows "1 \<le> k" "k \<le> n" "triggers state buffer msk trigger k"
  using assms unfolding first_trigger_def by (auto dest!: find_SomeD)

text \<open>A state whose window lies within its history and which is run within the buffer.\<close>

definition rh_wf :: "rh_state2 \<Rightarrow> bool" where
  "rh_wf state \<longleftrightarrow> unat (rh_w state) \<le> length (rh_history state)"

lemma slide_nth:
  assumes "rh_wf state"
  shows "i < unat (rh_w state) \<Longrightarrow> slide state buffer ! i = rh_history state ! i"
    "unat (rh_w state) \<le> i \<Longrightarrow> slide state buffer ! i = buffer ! (i - unat (rh_w state))"
  using assms by (simp_all add: slide_def rh_wf_def nth_append min_absorb2)

lemma run_head_spec:
  assumes wf: "rh_wf state" and len: "unat bl \<le> length buffer"
    and "i + k = unat (rh_w state)" "i \<le> unat bl"
    and "\<And>j. 1 \<le> j \<Longrightarrow> j \<le> i \<Longrightarrow> \<not> triggers state buffer msk trigger j"
  shows "\<exists>r. rolling_hash2_run_head k i state buffer bl (roll_at state buffer i) msk trigger = Inr r \<and>
     (case r of
        Inl (ret, j, h) \<Rightarrow> h = roll_at state buffer j \<and> j \<le> unat (rh_w state) \<and>
          (if ret = FINGERPRINT_RET_HIT then first_trigger state buffer msk trigger (unat bl) = Some j
           else ret = FINGERPRINT_RET_MAX \<and> j = unat bl \<and> first_trigger state buffer msk trigger (unat bl) = None)
      | Inr h \<Rightarrow> h = roll_at state buffer (unat (rh_w state)) \<and> unat (rh_w state) \<le> unat bl \<and>
          (\<forall>j. 1 \<le> j \<and> j \<le> unat (rh_w state) \<longrightarrow> \<not> triggers state buffer msk trigger j))"
  using assms(3-5)
proof (induction k arbitrary: i)
  case 0
  then show ?case by simp
next
  case (Suc k)
  show ?case
  proof (cases "i = unat bl")
    case True
    have "first_trigger state buffer msk trigger (unat bl) = None"
      using Suc.prems(3) True by (intro first_trigger_None) simp
    then show ?thesis using True Suc.prems(1)
      by (simp add: FINGERPRINT_RET_MAX_def FINGERPRINT_RET_HIT_def)
  next
    case False
    then have i: "i < unat bl" using Suc.prems(2) by simp
    have b: "byte_at buffer i = Inr (buffer ! i)" using i len by (simp add: byte_at_def)
    have h: "hash_fn state (roll_at state buffer i) (buffer ! i) (rh_history state ! i) = roll_at state buffer (Suc i)"
      using slide_nth(1) [OF wf, of i] Suc.prems(1) by simp
    show ?thesis
    proof (cases "triggers state buffer msk trigger (Suc i)")
      case True
      then have "first_trigger state buffer msk trigger (unat bl) = Some (Suc i)"
        using i Suc.prems(3) by (intro first_trigger_Some) simp_all
      then show ?thesis
        using False b h True Suc.prems(1) by (simp add: triggers_def Let_def del: roll_at.simps)
    next
      case no: False
      have no_j: "\<not> triggers state buffer msk trigger j" if "1 \<le> j" "j \<le> Suc i" for j
        using that no Suc.prems(3) by (cases "j = Suc i") simp_all
      have "Suc i + k = unat (rh_w state)" "Suc i \<le> unat bl" using Suc.prems(1) i by simp_all
      from Suc.IH [OF this no_j] show ?thesis
        using False b h no by (simp add: triggers_def Let_def del: roll_at.simps)
    qed
  qed
qed

lemma run_until_spec:
  assumes wf: "rh_wf state" and len: "unat bl \<le> length buffer" and max: "max_idx = int (unat bl)"
    and "unat (rh_w state) \<le> i" "i \<le> unat bl"
    and "\<And>j. 1 \<le> j \<Longrightarrow> j \<le> i \<Longrightarrow> \<not> triggers state buffer msk trigger j"
  shows "\<exists>j h. rolling_hash2_run_until i max_idx state buffer (unat (rh_w state)) (roll_at state buffer i) msk trigger =
       Inr (j, h) \<and>
     (case first_trigger state buffer msk trigger (unat bl) of
        Some k \<Rightarrow> Suc j = k \<and> h = roll_at state buffer k
      | None \<Rightarrow> j = unat bl \<and> h = roll_at state buffer j)"
  using assms(4-6)
proof (induction "unat bl - i" arbitrary: i)
  case 0
  then have "i = unat bl" by simp
  moreover from this have "first_trigger state buffer msk trigger (unat bl) = None"
    using 0(4) by (intro first_trigger_None) simp
  ultimately show ?case using max by (simp add: rolling_hash2_run_until.simps)
next
  case (Suc n)
  then have i: "i < unat bl" by simp
  have b: "byte_at buffer i = Inr (buffer ! i)"
      "byte_at buffer (i - unat (rh_w state)) = Inr (slide state buffer ! i)"
    using i len Suc.prems(1) slide_nth(2) [OF wf Suc.prems(1), of buffer] by (simp_all add: byte_at_def)
  have step: "rolling_hash2_run_until i max_idx state buffer (unat (rh_w state)) (roll_at state buffer i) msk trigger =
      (if triggers state buffer msk trigger (Suc i) then Inr (i, roll_at state buffer (Suc i))
       else rolling_hash2_run_until (Suc i) max_idx state buffer (unat (rh_w state)) (roll_at state buffer (Suc i)) msk trigger)"
  proof -
    have "int i < max_idx" unfolding max using i by (simp only: of_nat_less_iff)
    then show ?thesis using b by (subst rolling_hash2_run_until.simps) (simp add: Let_def triggers_def hash_fn_def)
  qed
  show ?case
  proof (cases "triggers state buffer msk trigger (Suc i)")
    case True
    then have "first_trigger state buffer msk trigger (unat bl) = Some (Suc i)"
      using i Suc.prems(3) by (intro first_trigger_Some) simp_all
    then show ?thesis using True step by simp
  next
    case False
    have no_j: "\<not> triggers state buffer msk trigger j" if "1 \<le> j" "j \<le> Suc i" for j
      using that False Suc.prems(3) by (cases "j = Suc i") simp_all
    have "n = unat bl - Suc i" "unat (rh_w state) \<le> Suc i" "Suc i \<le> unat bl" using Suc.hyps(2) Suc.prems(1) i by simp_all
    from Suc.hyps(1) [OF this no_j] show ?thesis using step False by simp
  qed
qed

text \<open>A run changes the hash and the bytes of the history only.\<close>

definition rh_same :: "rh_state2 \<Rightarrow> rh_state2 \<Rightarrow> bool" where
  "rh_same state state' \<longleftrightarrow> rh_w state' = rh_w state \<and> rh_table1 state' = rh_table1 state \<and>
     rh_table2 state' = rh_table2 state \<and> length (rh_history state') = length (rh_history state)"

lemma rh_same_shift:
  assumes "rh_wf state" "i \<le> unat (rh_w state)" "i \<le> length buffer"
  shows "rh_same state (state\<lparr>rh_history := shift_history state buffer i, rh_hash := h\<rparr>)"
  using assms by (simp add: rh_same_def shift_history_def rh_wf_def Let_def)

lemma rh_same_tail:
  assumes "rh_wf state" "unat (rh_w state) \<le> i" "i \<le> length buffer"
  shows "rh_same state (state\<lparr>rh_history := take (unat (rh_w state)) (drop (i - unat (rh_w state)) buffer) @
     drop (unat (rh_w state)) (rh_history state), rh_hash := h\<rparr>)"
  using assms by (simp add: rh_same_def rh_wf_def)

text \<open>What a run returns, as a function of the first trigger.\<close>

definition run_outcome :: "rh_state2 \<Rightarrow> u32 \<Rightarrow> nat option \<Rightarrow> (int \<times> rh_state2 \<times> u32) result \<Rightarrow> bool" where
  "run_outcome state bl ft res \<longleftrightarrow> (\<exists>state'. rh_same state state' \<and>
     res = (case ft of Some k \<Rightarrow> Inr (FINGERPRINT_RET_HIT, state', of_nat k)
            | None \<Rightarrow> Inr (FINGERPRINT_RET_MAX, state', bl)))"

lemma run_head_returns:
  assumes wf: "rh_wf state" and len: "unat bl \<le> length buffer"
    and r: "rolling_hash2_run_head (unat (rh_w state)) 0 state buffer bl (rh_hash state) (ucast msk) (ucast trigger) =
      Inr (Inl (ret, j, h))"
    and spec: "h = roll_at state buffer j \<and> j \<le> unat (rh_w state) \<and>
      (if ret = FINGERPRINT_RET_HIT then ft = Some j \<and> j \<le> unat bl
       else ret = FINGERPRINT_RET_MAX \<and> j = unat bl \<and> ft = None)"
  shows "run_outcome state bl ft (rolling_hash2_run state buffer bl msk trigger)"
proof -
  let ?s = "state\<lparr>rh_history := shift_history state buffer j, rh_hash := h\<rparr>"
  have "j \<le> length buffer" using spec len by (auto split: if_splits)
  then have "rh_same state ?s" using spec by (intro rh_same_shift [OF wf]) auto
  moreover have "rolling_hash2_run state buffer bl msk trigger = Inr (ret, ?s, of_nat j)"
    using r by (simp add: rolling_hash2_run_def Let_def)
  ultimately show ?thesis using spec unfolding run_outcome_def by (auto split: if_splits)
qed

lemma run_until_returns:
  assumes wf: "rh_wf state" and len: "unat bl \<le> length buffer" and w: "unat (rh_w state) \<le> unat bl"
    and r: "rolling_hash2_run_head (unat (rh_w state)) 0 state buffer bl (rh_hash state) (ucast msk) (ucast trigger) =
      Inr (Inr h0)"
    and u: "rolling_hash2_run_until (unat (rh_w state)) (sint bl) state buffer (unat (rh_w state)) h0
      (ucast msk) (ucast trigger) = Inr (j, h)"
    and spec: "case ft of Some k \<Rightarrow> Suc j = k \<and> k \<le> unat bl \<and> unat (rh_w state) \<le> k \<and> h AND ucast msk = ucast trigger
      | None \<Rightarrow> j = unat bl \<and> h AND ucast msk \<noteq> ucast trigger"
  shows "run_outcome state bl ft (rolling_hash2_run state buffer bl msk trigger)"
proof -
  let ?s = "\<lambda>i. state\<lparr>rh_history := take (unat (rh_w state)) (drop (i - unat (rh_w state)) buffer) @
     drop (unat (rh_w state)) (rh_history state), rh_hash := h\<rparr>"
  have res: "rolling_hash2_run state buffer bl msk trigger =
      (if h AND ucast msk = ucast trigger then Inr (FINGERPRINT_RET_HIT, ?s (Suc j), of_nat (Suc j))
       else Inr (FINGERPRINT_RET_MAX, ?s j, of_nat j))"
    using r u by (simp add: rolling_hash2_run_def Let_def)
  show ?thesis
  proof (cases ft)
    case None
    then have "rh_same state (?s j)" using spec len w by (intro rh_same_tail [OF wf]) auto
    then show ?thesis unfolding run_outcome_def res using spec None by auto
  next
    case (Some k)
    then have "rh_same state (?s (Suc j))" using spec len by (intro rh_same_tail [OF wf]) auto
    then show ?thesis unfolding run_outcome_def res using spec Some by auto
  qed
qed

text \<open>The two loops together: the first trigger, or the end of the buffer.\<close>

lemma run_spec:
  assumes wf: "rh_wf state" and len: "unat bl \<le> length buffer" and small: "unat bl < 2147483648"
    and quiet: "0 < unat (rh_w state)"
  shows "run_outcome state bl (first_trigger state buffer (ucast msk) (ucast trigger) (unat bl))
     (rolling_hash2_run state buffer bl msk trigger)"
proof -
  let ?m = "ucast msk :: u64" and ?t = "ucast trigger :: u64" and ?w = "unat (rh_w state)"
  let ?ft = "first_trigger state buffer ?m ?t (unat bl)"
  have no0: "\<not> triggers state buffer ?m ?t j" if "1 \<le> j" "j \<le> 0" for j using that by simp
  have zero: "0 + ?w = ?w" "0 \<le> unat bl" by simp_all
  from run_head_spec [OF wf len zero no0] obtain r where
    r: "rolling_hash2_run_head ?w 0 state buffer bl (rh_hash state) ?m ?t = Inr r" and
    spec: "case r of
        Inl (ret, j, h) \<Rightarrow> h = roll_at state buffer j \<and> j \<le> ?w \<and>
          (if ret = FINGERPRINT_RET_HIT then ?ft = Some j
           else ret = FINGERPRINT_RET_MAX \<and> j = unat bl \<and> ?ft = None)
      | Inr h \<Rightarrow> h = roll_at state buffer ?w \<and> ?w \<le> unat bl \<and>
          (\<forall>j. 1 \<le> j \<and> j \<le> ?w \<longrightarrow> \<not> triggers state buffer ?m ?t j)" unfolding roll_at.simps(1) by blast
  show ?thesis
  proof (cases r)
    case (Inl x)
    obtain ret j h where x: "x = (ret, j, h)" by (cases x)
    show ?thesis
      using r spec first_trigger_bounds(2) [of state buffer ?m ?t "unat bl" j] unfolding Inl x
      by (intro run_head_returns [OF wf len]) (auto split: if_splits)
  next
    case (Inr h0)
    then have h0: "h0 = roll_at state buffer ?w" "?w \<le> unat bl"
      and no: "\<And>j. 1 \<le> j \<Longrightarrow> j \<le> ?w \<Longrightarrow> \<not> triggers state buffer ?m ?t j" using spec by auto
    have mx: "sint bl = int (unat bl)" using sint_small [OF small] .
    from run_until_spec [OF wf len mx order_refl h0(2) no] obtain j h where
      u: "rolling_hash2_run_until ?w (sint bl) state buffer ?w (roll_at state buffer ?w) ?m ?t = Inr (j, h)" and
      uspec: "case ?ft of Some k \<Rightarrow> Suc j = k \<and> h = roll_at state buffer k
        | None \<Rightarrow> j = unat bl \<and> h = roll_at state buffer j" by blast
    have "\<not> triggers state buffer ?m ?t (unat bl)" if "?ft = None"
      using that h0(2) quiet by (auto simp: first_trigger_def find_None_iff simp del: upt_Suc)
    moreover have "?w < k" if "?ft = Some k" for k
      using no [of k] first_trigger_bounds [OF that] by (cases "k \<le> ?w") auto
    ultimately have "case ?ft of Some k \<Rightarrow> Suc j = k \<and> k \<le> unat bl \<and> ?w \<le> k \<and> h AND ?m = ?t
      | None \<Rightarrow> j = unat bl \<and> h AND ?m \<noteq> ?t"
      using uspec first_trigger_bounds [of state buffer ?m ?t "unat bl"]
      by (fastforce simp: triggers_def split: option.splits)
    then show ?thesis using run_until_returns [OF wf len h0(2)] r Inr u h0(1) by blast
  qed
qed

section \<open>The rolled hash is the hash of the window\<close>

lemma bit_rol64:
  "n \<le> 64 \<Longrightarrow> bit (rol64 n v) k \<longleftrightarrow> k < 64 \<and> (if n \<le> k then bit v (k - n) else bit v (k + (64 - n)))"
  using bit_imp_le_length [of v "k + (64 - n)"]
  by (auto simp: rol64_def bit_or_iff bit_push_bit_iff bit_drop_bit_eq add.commute)

lemma rol64_0 [simp]: "rol64 0 v = v"
  by (rule bit_word_eqI) (simp add: bit_rol64)

lemma rol64_zero [simp]: "rol64 n 0 = 0"
  by (simp add: rol64_def)

lemma rol64_add: "a + b \<le> 63 \<Longrightarrow> rol64 a (rol64 b v) = rol64 (a + b) v"
  by (rule bit_word_eqI) (auto simp: bit_rol64 intro: arg_cong [of _ _ "bit v"])

lemma rol64_xor: "n \<le> 64 \<Longrightarrow> rol64 n (x XOR y) = rol64 n x XOR rol64 n y"
  by (rule bit_word_eqI) (auto simp: bit_rol64 bit_xor_iff)

definition window_hash :: "u64 list \<Rightarrow> u8 list \<Rightarrow> u64" where
  "window_hash t bs = fold (\<lambda>b h. rol64 1 h XOR t ! unat b) bs 0"

lemma window_hash_start:
  assumes "length bs \<le> 63"
  shows "fold (\<lambda>b h. rol64 1 h XOR t ! unat b) bs h0 = rol64 (length bs) h0 XOR window_hash t bs"
  using assms
proof (induction bs arbitrary: h0)
  case Nil
  then show ?case by (simp add: window_hash_def)
next
  case (Cons b bs)
  let ?f = "\<lambda>b h. rol64 1 h XOR t ! unat b"
  have len: "length bs \<le> 63" using Cons.prems by simp
  have "fold ?f (b # bs) h0 = rol64 (length bs) (rol64 1 h0 XOR t ! unat b) XOR window_hash t bs"
    using Cons.IH [OF len] by simp
  moreover have "window_hash t (b # bs) = rol64 (length bs) (t ! unat b) XOR window_hash t bs"
    using Cons.IH [OF len, of "t ! unat b"] by (simp add: window_hash_def)
  ultimately show ?case
    using Cons.prems by (simp add: rol64_xor rol64_add xor.assoc)
qed

lemma window_hash_shift:
  assumes "length rest \<le> 62"
  shows "window_hash t (rest @ [n]) =
     rol64 1 (window_hash t (b # rest)) XOR (t ! unat n XOR rol64 (Suc (length rest)) (t ! unat b))"
proof -
  have "window_hash t (b # rest) = rol64 (length rest) (t ! unat b) XOR window_hash t rest"
    using window_hash_start [of rest t "t ! unat b"] assms by (simp add: window_hash_def)
  then have "rol64 1 (window_hash t (b # rest)) =
      rol64 (Suc (length rest)) (t ! unat b) XOR rol64 1 (window_hash t rest)"
    using assms by (simp add: rol64_xor rol64_add)
  moreover have "window_hash t (rest @ [n]) = rol64 1 (window_hash t rest) XOR t ! unat n"
    by (simp add: window_hash_def)
  ultimately show ?thesis by (simp add: xor.assoc xor.left_commute xor.commute)
qed

text \<open>A state as \<^verbatim>\<open>rolling_hash2_init\<close> and \<^verbatim>\<open>rolling_hash2_reset\<close> leave it.\<close>

definition rh_ready :: "rh_state2 \<Rightarrow> bool" where
  "rh_ready state \<longleftrightarrow>
     0 < unat (rh_w state) \<and> unat (rh_w state) \<le> FINGERPRINT_MAX_WINDOW \<and>
     length (rh_history state) = FINGERPRINT_MAX_WINDOW \<and> rh_table1 state = rolling_hash2_table1 \<and>
     rh_table2 state = map (rol64 (unat (rh_w state))) rolling_hash2_table1 \<and>
     rh_hash state = window_hash rolling_hash2_table1 (take (unat (rh_w state)) (rh_history state))"

lemma rh_ready_wf: "rh_ready state \<Longrightarrow> rh_wf state"
  by (simp add: rh_ready_def rh_wf_def)

lemma length_rolling_hash2_table1: "length rolling_hash2_table1 = 256"
  by (simp add: rolling_hash2_table1_def)

lemma table2_nth:
  assumes "rh_ready state"
  shows "rh_table2 state ! unat (b :: u8) = rol64 (unat (rh_w state)) (rolling_hash2_table1 ! unat b)"
proof -
  have "unat b < 256" using unat_lt [of b] by simp
  then show ?thesis using assms by (simp add: rh_ready_def length_rolling_hash2_table1)
qed

lemma roll_window:
  assumes ready: "rh_ready state" and "k \<le> length buffer"
  shows "roll_at state buffer k =
     window_hash rolling_hash2_table1 (take (unat (rh_w state)) (drop k (slide state buffer)))"
  using assms(2)
proof (induction k)
  case 0
  then show ?case using ready by (simp add: slide_def rh_ready_def min_def)
next
  case (Suc k)
  let ?w = "unat (rh_w state)" and ?s = "slide state buffer" and ?t = "rolling_hash2_table1"
  obtain v where w: "?w = Suc v" "v \<le> 62"
    using ready by (cases ?w) (auto simp: rh_ready_def FINGERPRINT_MAX_WINDOW_def)
  have len: "length ?s = ?w + length buffer"
    using ready by (simp add: slide_def rh_ready_def)
  have k: "k < length buffer" using Suc.prems by simp
  let ?rest = "take v (drop (Suc k) ?s)"
  have old: "take ?w (drop k ?s) = ?s ! k # ?rest"
    using k len w(1) by (simp add: Cons_nth_drop_Suc [symmetric])
  have new: "take ?w (drop (Suc k) ?s) = ?rest @ [buffer ! k]"
  proof -
    have "drop (Suc k) ?s ! v = ?s ! (Suc k + v)" using k len w(1) by simp
    also have "\<dots> = buffer ! k" using slide_nth(2) [OF rh_ready_wf [OF ready], of "Suc k + v"] w(1) by simp
    finally have "drop (Suc k) ?s ! v = buffer ! k" .
    then show ?thesis using k len w(1) take_Suc_conv_app_nth [of v "drop (Suc k) ?s"] by simp
  qed
  have "length ?rest = v" using k len w(1) by simp
  then have "window_hash ?t (?rest @ [buffer ! k]) =
      rol64 1 (window_hash ?t (?s ! k # ?rest)) XOR (?t ! unat (buffer ! k) XOR rol64 ?w (?t ! unat (?s ! k)))"
    using window_hash_shift [of ?rest ?t "buffer ! k" "?s ! k"] w by simp
  moreover have "rh_table1 state = ?t" using ready by (simp add: rh_ready_def)
  ultimately show ?case
    using Suc.IH k table2_nth [OF ready, of "?s ! k"] old new by (simp add: hash_fn_def)
qed

section \<open>Initialisation and reset\<close>

text \<open>A state that is initialised for a window width; only the hash and the history may be anything.\<close>

definition rh_init_for :: "nat \<Rightarrow> rh_state2 \<Rightarrow> bool" where
  "rh_init_for w state \<longleftrightarrow> unat (rh_w state) = w \<and> 0 < w \<and> w \<le> FINGERPRINT_MAX_WINDOW \<and>
     length (rh_history state) = FINGERPRINT_MAX_WINDOW \<and> rh_table1 state = rolling_hash2_table1 \<and>
     rh_table2 state = map (rol64 w) rolling_hash2_table1"

lemma rh_init_ok:
  assumes "0 < unat w" "unat w \<le> FINGERPRINT_MAX_WINDOW"
  obtains state where "rolling_hash2_init rh_state2_zero w = (0, state)" "rh_init_for (unat w) state"
  using assms that by (simp add: rolling_hash2_init_def rh_init_for_def rh_state2_zero_def)

lemma rh_init_same: "rh_init_for w state \<Longrightarrow> rh_same state state' \<Longrightarrow> rh_init_for w state'"
  by (simp add: rh_init_for_def rh_same_def)

lemma rh_reset_ok:
  assumes "rh_init_for w state" "w \<le> length init_bytes"
  obtains state' where "rolling_hash2_reset state init_bytes = Inr state'" "rh_ready state'"
    "rh_init_for w state'" "take w (rh_history state') = take w init_bytes"
  using assms that
  by (simp add: rolling_hash2_reset_def rh_init_for_def rh_ready_def window_hash_def Let_def)

text \<open>
  C25: from a state that was initialised and reset, a run over a buffer finds the first position at which the
  hash of the last \<open>w\<close> bytes, computed from scratch, meets the trigger, and reports the end of the buffer
  when there is none; it reads nothing beyond the buffer.
\<close>

theorem rolling_hash_finds_first:
  assumes "rh_ready state" "unat bl \<le> length buffer" "unat bl < 2147483648"
  shows "\<exists>state'. rolling_hash2_run state buffer bl msk trigger =
     (case find (\<lambda>k. window_hash rolling_hash2_table1 (take (unat (rh_w state)) (drop k (slide state buffer)))
                    AND ucast msk = ucast trigger) [1..<Suc (unat bl)] of
        Some k \<Rightarrow> Inr (FINGERPRINT_RET_HIT, state', of_nat k)
      | None \<Rightarrow> Inr (FINGERPRINT_RET_MAX, state', bl))"
proof -
  let ?P = "\<lambda>k. window_hash rolling_hash2_table1 (take (unat (rh_w state)) (drop k (slide state buffer)))
                    AND ucast msk = ucast trigger"
  have "0 < unat (rh_w state)" using assms(1) by (simp add: rh_ready_def)
  from run_spec [OF rh_ready_wf [OF assms(1)] assms(2,3) this]
  have "run_outcome state bl (first_trigger state buffer (ucast msk) (ucast trigger) (unat bl))
     (rolling_hash2_run state buffer bl msk trigger)" .
  moreover have "first_trigger state buffer (ucast msk) (ucast trigger) (unat bl) = find ?P [1..<Suc (unat bl)]"
    unfolding first_trigger_def
    using roll_window [OF assms(1)] assms(2)
    by (intro find_cong refl) (auto simp: triggers_def simp del: upt_Suc)
  ultimately show ?thesis unfolding run_outcome_def by auto
qed

theorem rolling_hash_finds_first_witness:
  "\<exists>state state1 state2. rh_ready state \<and>
     rolling_hash2_run state [7, 8, 9] 3 0 0 = Inr (FINGERPRINT_RET_HIT, state1, 1) \<and>
     rolling_hash2_run state [7, 8, 9] 3 0 1 = Inr (FINGERPRINT_RET_MAX, state2, 3)"
proof -
  obtain s0 where s0: "rolling_hash2_init rh_state2_zero 32 = (0, s0)" "rh_init_for 32 s0"
    using rh_init_ok [of 32] by (auto simp: FINGERPRINT_MAX_WINDOW_def)
  obtain s1 where s1: "rolling_hash2_reset s0 (replicate 32 0) = Inr s1" "rh_ready s1"
    using rh_reset_ok [OF s0(2), of "replicate 32 0"] by auto
  have "find (\<lambda>k. True) [1..<Suc 3] = Some 1" "find (\<lambda>k. False) [1..<Suc 3] = None"
    by (simp_all add: upt_conv_Cons find_None_iff)
  then show ?thesis
    using rolling_hash_finds_first [OF s1(2), of 3 "[7, 8, 9]" 0 0] rolling_hash_finds_first [OF s1(2), of 3 "[7, 8, 9]" 0 1] s1(2)
    by auto
qed

end
