(* ===== verification/Chunker.thy ===== *)
theory Chunker
  imports Rolling_Hash Chunk
begin

text \<open>
  \<^verbatim>\<open>chunker.h\<close>, \<^verbatim>\<open>chunker.c\<close>: content-defined chunking.  \<^verbatim>\<open>chunker_chunk_buffer\<close> either finds the first chunk
  of a buffer or keeps the whole buffer for later.  A \<^verbatim>\<open>char *\<close> that may be null is an option, \<open>Some bs\<close>
  standing for the bytes from the pointer to the end of its buffer.
\<close>

definition CHUNKER_WINDOW_WIDTH :: nat where "CHUNKER_WINDOW_WIDTH = 32"
definition CHUNKER_MIN_CHUNK_SIZE :: nat where "CHUNKER_MIN_CHUNK_SIZE = 2 * 1024"
definition CHUNKER_MAX_CHUNK_SIZE :: nat where "CHUNKER_MAX_CHUNK_SIZE = 24 * 1024"
definition CHUNKER_MASK :: u32 where "CHUNKER_MASK = 8191"
definition CHUNKER_TRIGGER :: u32 where "CHUNKER_TRIGGER = 26061973 AND CHUNKER_MASK"
definition CHUNKER_FOUND :: int where "CHUNKER_FOUND = 0"
definition CHUNKER_NOT_FOUND :: int where "CHUNKER_NOT_FOUND = -1"

record chunker =
  rh_state2 :: rh_state2
  retained :: "u8 list"
  retained_size :: u32

definition chunker_init :: "(int \<times> chunker) result" where
  "chunker_init =
     (case rolling_hash2_init rh_state2_zero (of_nat CHUNKER_WINDOW_WIDTH) of
        (ret, state) \<Rightarrow>
          ALWAYS (ret = 0)
            (Inr (ret, \<lparr>rh_state2 = state, retained = replicate CHUNKER_MAX_CHUNK_SIZE 0, retained_size = 0\<rparr>)))"

text \<open>\<^verbatim>\<open>memcpy\<close> of \<open>n\<close> bytes of the buffer into \<^verbatim>\<open>retained\<close>.\<close>

definition chunker_retain :: "chunker \<Rightarrow> u8 list \<Rightarrow> u32 \<Rightarrow> chunker result" where
  "chunker_retain chunker buffer n =
     (if unat n \<le> length buffer \<and> unat n \<le> length (retained chunker)
      then Inr (chunker\<lparr>retained := take (unat n) buffer @ drop (unat n) (retained chunker),
                        retained_size := n\<rparr>)
      else Inl OutOfBounds)"

definition chunker_chunk_buffer ::
    "(u8 list \<Rightarrow> u8 list) \<Rightarrow> chunker \<Rightarrow> u8 list option \<Rightarrow> u32 \<Rightarrow> (int \<times> chunker \<times> chunk_ref) result" where
  "chunker_chunk_buffer mh_sha256 chunker buffer buffer_length =
     ALWAYS (retained_size chunker = 0)
     (case buffer of
        None \<Rightarrow> Inl AssertFailed
      | Some bs \<Rightarrow>
          if unat buffer_length < CHUNKER_MIN_CHUNK_SIZE then
            rbind (chunker_retain chunker bs buffer_length) (\<lambda>chunker1.
            Inr (CHUNKER_NOT_FOUND, chunker1, chunk_ref_init))
          else
            rbind (rolling_hash2_reset (rh_state2 chunker)
                     (drop (CHUNKER_MIN_CHUNK_SIZE - CHUNKER_WINDOW_WIDTH) bs)) (\<lambda>state1.
            let max_len = (if unat buffer_length \<ge> CHUNKER_MAX_CHUNK_SIZE
                           then of_nat (CHUNKER_MAX_CHUNK_SIZE - CHUNKER_MIN_CHUNK_SIZE)
                           else buffer_length - of_nat CHUNKER_MIN_CHUNK_SIZE) in
            rbind (rolling_hash2_run state1 bs max_len CHUNKER_MASK CHUNKER_TRIGGER) (\<lambda>(ret_t, state2, offset).
            let chunker2 = chunker\<lparr>rh_state2 := state2\<rparr> in
            if ret_t = FINGERPRINT_RET_HIT then
              Inr (CHUNKER_FOUND, chunker2,
                   chunk_ref_set mh_sha256 bs (of_nat CHUNKER_MIN_CHUNK_SIZE + offset))
            else if max_len = of_nat (CHUNKER_MAX_CHUNK_SIZE - CHUNKER_MIN_CHUNK_SIZE) then
              Inr (CHUNKER_FOUND, chunker2, chunk_ref_set mh_sha256 bs (of_nat CHUNKER_MAX_CHUNK_SIZE))
            else
              rbind (chunker_retain chunker2 bs buffer_length) (\<lambda>chunker3.
              Inr (CHUNKER_NOT_FOUND, chunker3, chunk_ref_init)))))"

text \<open>The caller's buffer is returned with what was copied into it.\<close>

definition chunker_flush_retained :: "chunker \<Rightarrow> u8 list \<Rightarrow> u32 \<Rightarrow> (u32 \<times> chunker \<times> u8 list) result" where
  "chunker_flush_retained chunker buffer buffer_length =
     ALWAYS (buffer_length > retained_size chunker)
       (if retained_size chunker = 0 then Inr (0, chunker, buffer)
        else let n = unat (retained_size chunker) in
          if n \<le> length buffer \<and> n \<le> length (retained chunker)
          then Inr (retained_size chunker, chunker\<lparr>retained_size := 0\<rparr>,
                    take n (retained chunker) @ drop n buffer)
          else Inl OutOfBounds)"

section \<open>Where a chunk ends\<close>

text \<open>
  The cut as a function of the bytes alone.  The hash starts on the last 32 bytes before the minimal chunk
  size, but the bytes that come in are those from the start of the buffer, as in the code: the position
  found there, plus the minimal size, is where the chunk ends.
\<close>

definition cut_hash :: "u8 list \<Rightarrow> nat \<Rightarrow> u64" where
  "cut_hash bs k =
     window_hash rolling_hash2_table1
       (take CHUNKER_WINDOW_WIDTH
         (drop k (take CHUNKER_WINDOW_WIDTH (drop (CHUNKER_MIN_CHUNK_SIZE - CHUNKER_WINDOW_WIDTH) bs) @ bs)))"

definition cut_triggers :: "u8 list \<Rightarrow> nat \<Rightarrow> bool" where
  "cut_triggers bs k \<longleftrightarrow> cut_hash bs k AND ucast CHUNKER_MASK = ucast CHUNKER_TRIGGER"

definition chunk_cut :: "u8 list \<Rightarrow> nat \<Rightarrow> nat option" where
  "chunk_cut bs n =
     (if n < CHUNKER_MIN_CHUNK_SIZE then None
      else case find (cut_triggers bs) [1..<Suc (min n CHUNKER_MAX_CHUNK_SIZE - CHUNKER_MIN_CHUNK_SIZE)] of
             Some k \<Rightarrow> Some (CHUNKER_MIN_CHUNK_SIZE + k)
           | None \<Rightarrow> if CHUNKER_MAX_CHUNK_SIZE \<le> n then Some CHUNKER_MAX_CHUNK_SIZE else None)"

lemma chunk_cut_bounds:
  assumes "chunk_cut bs n = Some k"
  shows "CHUNKER_MIN_CHUNK_SIZE < k" "k \<le> CHUNKER_MAX_CHUNK_SIZE" "k \<le> n"
  using assms unfolding chunk_cut_def
  by (auto simp: CHUNKER_MIN_CHUNK_SIZE_def CHUNKER_MAX_CHUNK_SIZE_def simp del: upt_Suc
      split: if_splits option.splits dest!: find_SomeD)

lemma chunk_cut_None: "chunk_cut bs n = None \<Longrightarrow> n < CHUNKER_MAX_CHUNK_SIZE"
  by (auto simp: chunk_cut_def CHUNKER_MIN_CHUNK_SIZE_def CHUNKER_MAX_CHUNK_SIZE_def simp del: upt_Suc
      split: if_splits option.splits)

definition chunker_inv :: "chunker \<Rightarrow> bool" where
  "chunker_inv chunker \<longleftrightarrow>
     rh_init_for CHUNKER_WINDOW_WIDTH (rh_state2 chunker) \<and>
     length (retained chunker) = CHUNKER_MAX_CHUNK_SIZE \<and>
     unat (retained_size chunker) < CHUNKER_MAX_CHUNK_SIZE"

definition retained_bytes :: "chunker \<Rightarrow> u8 list" where
  "retained_bytes chunker = take (unat (retained_size chunker)) (retained chunker)"

lemma chunker_retain_ok:
  assumes "chunker_inv chunker" "unat n \<le> length bs" "unat n < CHUNKER_MAX_CHUNK_SIZE"
  obtains chunker' where "chunker_retain chunker bs n = Inr chunker'" "chunker_inv chunker'"
    "retained_bytes chunker' = take (unat n) bs" "retained_size chunker' = n"
  using assms that by (simp add: chunker_retain_def chunker_inv_def retained_bytes_def)

section \<open>The chunker finds the cut\<close>

text \<open>The run of the rolling hash inside \<^verbatim>\<open>chunker_chunk_buffer\<close>.\<close>

lemma chunker_run:
  assumes init: "rh_init_for CHUNKER_WINDOW_WIDTH state" and len: "CHUNKER_MIN_CHUNK_SIZE \<le> length bs"
    and max: "unat max_len \<le> length bs" "unat max_len < 2147483648"
  obtains state1 where
    "rolling_hash2_reset state (drop (CHUNKER_MIN_CHUNK_SIZE - CHUNKER_WINDOW_WIDTH) bs) = Inr state1"
    "\<exists>state2. rh_init_for CHUNKER_WINDOW_WIDTH state2 \<and>
       rolling_hash2_run state1 bs max_len CHUNKER_MASK CHUNKER_TRIGGER =
         (case find (cut_triggers bs) [1..<Suc (unat max_len)] of
            Some k \<Rightarrow> Inr (FINGERPRINT_RET_HIT, state2, of_nat k)
          | None \<Rightarrow> Inr (FINGERPRINT_RET_MAX, state2, max_len))"
proof -
  let ?init = "drop (CHUNKER_MIN_CHUNK_SIZE - CHUNKER_WINDOW_WIDTH) bs"
  have "CHUNKER_WINDOW_WIDTH \<le> length ?init"
    using len by (simp add: CHUNKER_WINDOW_WIDTH_def CHUNKER_MIN_CHUNK_SIZE_def)
  from rh_reset_ok [OF init this] obtain state1 where
    s1: "rolling_hash2_reset state ?init = Inr state1" "rh_ready state1"
      "rh_init_for CHUNKER_WINDOW_WIDTH state1"
      "take CHUNKER_WINDOW_WIDTH (rh_history state1) = take CHUNKER_WINDOW_WIDTH ?init" .
  have w: "unat (rh_w state1) = CHUNKER_WINDOW_WIDTH" using s1(3) by (simp add: rh_init_for_def)
  then have slide: "slide state1 bs = take CHUNKER_WINDOW_WIDTH ?init @ bs" using s1(4) by (simp add: slide_def)
  have trig: "triggers state1 bs (ucast CHUNKER_MASK) (ucast CHUNKER_TRIGGER) k \<longleftrightarrow> cut_triggers bs k"
    if "k \<le> length bs" for k
    using roll_window [OF s1(2) that] by (simp add: triggers_def cut_triggers_def cut_hash_def slide w)
  have "find (triggers state1 bs (ucast CHUNKER_MASK) (ucast CHUNKER_TRIGGER)) [1..<Suc (unat max_len)] =
      find (cut_triggers bs) [1..<Suc (unat max_len)]"
    using trig max(1) by (intro find_cong refl) (auto simp del: upt_Suc)
  then have ft: "first_trigger state1 bs (ucast CHUNKER_MASK) (ucast CHUNKER_TRIGGER) (unat max_len) =
      find (cut_triggers bs) [1..<Suc (unat max_len)]" by (simp only: first_trigger_def)
  have "0 < unat (rh_w state1)" using s1(3) by (simp add: rh_init_for_def)
  from run_spec [OF rh_ready_wf [OF s1(2)] max this, of CHUNKER_MASK CHUNKER_TRIGGER] ft
  have "run_outcome state1 max_len (find (cut_triggers bs) [1..<Suc (unat max_len)])
      (rolling_hash2_run state1 bs max_len CHUNKER_MASK CHUNKER_TRIGGER)" by (simp only:)
  then show ?thesis using that [OF s1(1)] rh_init_same [OF s1(3)] unfolding run_outcome_def by blast
qed

lemma max_len_value:
  assumes "CHUNKER_MIN_CHUNK_SIZE \<le> unat (n :: u32)"
    and "max_len = (if unat n \<ge> CHUNKER_MAX_CHUNK_SIZE
           then of_nat (CHUNKER_MAX_CHUNK_SIZE - CHUNKER_MIN_CHUNK_SIZE) else n - of_nat CHUNKER_MIN_CHUNK_SIZE)"
  shows "unat max_len = min (unat n) CHUNKER_MAX_CHUNK_SIZE - CHUNKER_MIN_CHUNK_SIZE"
    "max_len = of_nat (CHUNKER_MAX_CHUNK_SIZE - CHUNKER_MIN_CHUNK_SIZE) \<longleftrightarrow> CHUNKER_MAX_CHUNK_SIZE \<le> unat n"
proof -
  have v: "unat (of_nat (CHUNKER_MAX_CHUNK_SIZE - CHUNKER_MIN_CHUNK_SIZE) :: u32) = 22528"
    "unat (of_nat CHUNKER_MIN_CHUNK_SIZE :: u32) = 2048"
    by (simp_all add: CHUNKER_MAX_CHUNK_SIZE_def CHUNKER_MIN_CHUNK_SIZE_def)
  show u: "unat max_len = min (unat n) CHUNKER_MAX_CHUNK_SIZE - CHUNKER_MIN_CHUNK_SIZE"
    using assms v by (simp add: unat_sub_small CHUNKER_MAX_CHUNK_SIZE_def CHUNKER_MIN_CHUNK_SIZE_def)
  show "max_len = of_nat (CHUNKER_MAX_CHUNK_SIZE - CHUNKER_MIN_CHUNK_SIZE) \<longleftrightarrow> CHUNKER_MAX_CHUNK_SIZE \<le> unat n"
    unfolding word_unat_eq_iff u v(1)
    using assms(1) by (auto simp: CHUNKER_MAX_CHUNK_SIZE_def CHUNKER_MIN_CHUNK_SIZE_def)
qed

definition chunk_outcome ::
    "(u8 list \<Rightarrow> u8 list) \<Rightarrow> u8 list \<Rightarrow> u32 \<Rightarrow> nat option \<Rightarrow> (int \<times> chunker \<times> chunk_ref) result \<Rightarrow> bool" where
  "chunk_outcome mh bs n cu res \<longleftrightarrow> (\<exists>chunker'. chunker_inv chunker' \<and>
     (case cu of
        Some k \<Rightarrow> res = Inr (CHUNKER_FOUND, chunker', chunk_ref_set mh bs (of_nat k)) \<and> retained_size chunker' = 0
      | None \<Rightarrow> res = Inr (CHUNKER_NOT_FOUND, chunker', chunk_ref_init) \<and>
          retained_bytes chunker' = take (unat n) bs \<and> retained_size chunker' = n))"

lemma chunk_outcome_retain:
  assumes "chunker_inv chunker" "unat n \<le> length bs" "unat n < CHUNKER_MAX_CHUNK_SIZE"
  shows "chunk_outcome mh bs n None
     (rbind (chunker_retain chunker bs n) (\<lambda>c. Inr (CHUNKER_NOT_FOUND, c, chunk_ref_init)))"
proof -
  from chunker_retain_ok [OF assms] obtain chunker' where
    "chunker_retain chunker bs n = Inr chunker'" "chunker_inv chunker'"
    "retained_bytes chunker' = take (unat n) bs" "retained_size chunker' = n" .
  then show ?thesis by (auto simp: chunk_outcome_def)
qed

lemma chunk_buffer_run:
  assumes "retained_size chunker = 0" "\<not> unat n < CHUNKER_MIN_CHUNK_SIZE"
    and reset: "rolling_hash2_reset (rh_state2 chunker) (drop (CHUNKER_MIN_CHUNK_SIZE - CHUNKER_WINDOW_WIDTH) bs) = Inr state1"
    and max: "max_len = (if unat n \<ge> CHUNKER_MAX_CHUNK_SIZE then of_nat (CHUNKER_MAX_CHUNK_SIZE - CHUNKER_MIN_CHUNK_SIZE)
      else n - of_nat CHUNKER_MIN_CHUNK_SIZE)"
    and run: "rolling_hash2_run state1 bs max_len CHUNKER_MASK CHUNKER_TRIGGER =
      (case hit of Some k \<Rightarrow> Inr (FINGERPRINT_RET_HIT, state2, of_nat k)
       | None \<Rightarrow> Inr (FINGERPRINT_RET_MAX, state2, max_len))"
    and full: "max_len = of_nat (CHUNKER_MAX_CHUNK_SIZE - CHUNKER_MIN_CHUNK_SIZE) \<longleftrightarrow> CHUNKER_MAX_CHUNK_SIZE \<le> unat n"
  shows "chunker_chunk_buffer mh chunker (Some bs) n =
      (case hit of
         Some k \<Rightarrow> Inr (CHUNKER_FOUND, chunker\<lparr>rh_state2 := state2\<rparr>,
           chunk_ref_set mh bs (of_nat CHUNKER_MIN_CHUNK_SIZE + of_nat k))
       | None \<Rightarrow> if CHUNKER_MAX_CHUNK_SIZE \<le> unat n
           then Inr (CHUNKER_FOUND, chunker\<lparr>rh_state2 := state2\<rparr>, chunk_ref_set mh bs (of_nat CHUNKER_MAX_CHUNK_SIZE))
           else rbind (chunker_retain (chunker\<lparr>rh_state2 := state2\<rparr>) bs n)
                  (\<lambda>c. Inr (CHUNKER_NOT_FOUND, c, chunk_ref_init)))"
  unfolding chunker_chunk_buffer_def Let_def max [symmetric] option.case assms(1) reset if_not_P [OF assms(2)]
    rbind_simps run full
  by (cases hit) (simp_all add: FINGERPRINT_RET_HIT_def FINGERPRINT_RET_MAX_def)

text \<open>The call on a buffer of at least the minimal size, with the position found by the reference.\<close>

lemma chunk_buffer_large:
  assumes inv: "chunker_inv chunker" and empty: "retained_size chunker = 0" and len: "unat n \<le> length bs"
    and large: "\<not> unat n < CHUNKER_MIN_CHUNK_SIZE"
  obtains c where "chunker_inv c" "retained_size c = 0" "chunker_chunk_buffer mh chunker (Some bs) n =
      (case find (cut_triggers bs) [1..<Suc (min (unat n) CHUNKER_MAX_CHUNK_SIZE - CHUNKER_MIN_CHUNK_SIZE)] of
         Some k \<Rightarrow> Inr (CHUNKER_FOUND, c, chunk_ref_set mh bs (of_nat CHUNKER_MIN_CHUNK_SIZE + of_nat k))
       | None \<Rightarrow> if CHUNKER_MAX_CHUNK_SIZE \<le> unat n
           then Inr (CHUNKER_FOUND, c, chunk_ref_set mh bs (of_nat CHUNKER_MAX_CHUNK_SIZE))
           else rbind (chunker_retain c bs n) (\<lambda>c'. Inr (CHUNKER_NOT_FOUND, c', chunk_ref_init)))"
proof -
  let ?max = "if unat n \<ge> CHUNKER_MAX_CHUNK_SIZE then of_nat (CHUNKER_MAX_CHUNK_SIZE - CHUNKER_MIN_CHUNK_SIZE)
      else n - of_nat CHUNKER_MIN_CHUNK_SIZE :: u32"
  let ?hit = "find (cut_triggers bs) [1..<Suc (min (unat n) CHUNKER_MAX_CHUNK_SIZE - CHUNKER_MIN_CHUNK_SIZE)]"
  have n: "CHUNKER_MIN_CHUNK_SIZE \<le> unat n" using large by simp
  note m = max_len_value [OF n refl]
  have max: "unat ?max \<le> length bs" "unat ?max < 2147483648"
    unfolding m(1) using len by (auto simp: CHUNKER_MAX_CHUNK_SIZE_def CHUNKER_MIN_CHUNK_SIZE_def)
  have rh: "rh_init_for CHUNKER_WINDOW_WIDTH (rh_state2 chunker)" using inv by (simp add: chunker_inv_def)
  from chunker_run [OF rh le_trans [OF n len] max] obtain state1 state2 where
    s: "rolling_hash2_reset (rh_state2 chunker) (drop (CHUNKER_MIN_CHUNK_SIZE - CHUNKER_WINDOW_WIDTH) bs) = Inr state1"
      "rh_init_for CHUNKER_WINDOW_WIDTH state2"
      "rolling_hash2_run state1 bs ?max CHUNKER_MASK CHUNKER_TRIGGER =
         (case ?hit of Some k \<Rightarrow> Inr (FINGERPRINT_RET_HIT, state2, of_nat k)
          | None \<Rightarrow> Inr (FINGERPRINT_RET_MAX, state2, ?max))" unfolding m(1) by blast
  show ?thesis
  proof (rule that)
    show "chunker_inv (chunker\<lparr>rh_state2 := state2\<rparr>)" using inv s(2) by (simp add: chunker_inv_def)
    show "retained_size (chunker\<lparr>rh_state2 := state2\<rparr>) = 0" using empty by simp
  qed (rule chunk_buffer_run [OF empty large s(1) refl s(3) m(2)])
qed

lemma chunker_chunk_spec:
  assumes inv: "chunker_inv chunker" and empty: "retained_size chunker = 0" and len: "unat n \<le> length bs"
  shows "chunk_outcome mh bs n (chunk_cut bs (unat n)) (chunker_chunk_buffer mh chunker (Some bs) n)"
proof (cases "unat n < CHUNKER_MIN_CHUNK_SIZE")
  case True
  then have "unat n < CHUNKER_MAX_CHUNK_SIZE" by (simp add: CHUNKER_MAX_CHUNK_SIZE_def CHUNKER_MIN_CHUNK_SIZE_def)
  from chunk_outcome_retain [OF inv len this] True empty show ?thesis
    by (simp add: chunker_chunk_buffer_def chunk_cut_def)
next
  case False
  let ?hit = "find (cut_triggers bs) [1..<Suc (min (unat n) CHUNKER_MAX_CHUNK_SIZE - CHUNKER_MIN_CHUNK_SIZE)]"
  from chunk_buffer_large [OF inv empty len False, of mh] obtain c where
    c: "chunker_inv c" "retained_size c = 0" and call: "chunker_chunk_buffer mh chunker (Some bs) n =
      (case ?hit of
         Some k \<Rightarrow> Inr (CHUNKER_FOUND, c, chunk_ref_set mh bs (of_nat CHUNKER_MIN_CHUNK_SIZE + of_nat k))
       | None \<Rightarrow> if CHUNKER_MAX_CHUNK_SIZE \<le> unat n
           then Inr (CHUNKER_FOUND, c, chunk_ref_set mh bs (of_nat CHUNKER_MAX_CHUNK_SIZE))
           else rbind (chunker_retain c bs n) (\<lambda>c'. Inr (CHUNKER_NOT_FOUND, c', chunk_ref_init)))" .
  show ?thesis
  proof (cases "?hit = None \<and> unat n < CHUNKER_MAX_CHUNK_SIZE")
    case True
    then have "chunk_cut bs (unat n) = None" using True False by (simp add: chunk_cut_def del: upt_Suc)
    moreover from True have "?hit = None" "\<not> CHUNKER_MAX_CHUNK_SIZE \<le> unat n" by (blast, linarith)
    ultimately show ?thesis using chunk_outcome_retain [OF c(1) len] True
      unfolding call by (simp only: option.case if_False)
  next
    case hit: False
    then show ?thesis using call False c
      by (cases ?hit) (auto simp: chunk_cut_def chunk_outcome_def simp del: upt_Suc)
  qed
qed

section \<open>Which bytes the cut depends on\<close>

lemma cut_hash_take:
  assumes "CHUNKER_MIN_CHUNK_SIZE \<le> n" "k \<le> n"
  shows "cut_hash (take n bs) k = cut_hash bs k"
proof (cases "n \<le> length bs")
  case True
  have win: "take CHUNKER_WINDOW_WIDTH (drop (CHUNKER_MIN_CHUNK_SIZE - CHUNKER_WINDOW_WIDTH) (take n bs)) =
      take CHUNKER_WINDOW_WIDTH (drop (CHUNKER_MIN_CHUNK_SIZE - CHUNKER_WINDOW_WIDTH) bs)"
    using assms(1) by (simp add: drop_take min_def CHUNKER_WINDOW_WIDTH_def CHUNKER_MIN_CHUNK_SIZE_def)
  have len: "length (take CHUNKER_WINDOW_WIDTH (drop (CHUNKER_MIN_CHUNK_SIZE - CHUNKER_WINDOW_WIDTH) bs)) =
      CHUNKER_WINDOW_WIDTH"
    using assms(1) True by (simp add: CHUNKER_WINDOW_WIDTH_def CHUNKER_MIN_CHUNK_SIZE_def)
  have "take w (drop k (xs @ take n bs)) = take w (drop k (xs @ bs))" if "length xs = w" for w and xs :: "u8 list"
    using that assms(2) by (simp add: drop_take min_def)
  from this [OF len] show ?thesis by (simp only: cut_hash_def win)
next
  case False
  then show ?thesis by simp
qed

lemma chunk_cut_take: "chunk_cut (take n bs) n = chunk_cut bs n"
proof (cases "n < CHUNKER_MIN_CHUNK_SIZE")
  case False
  have "cut_triggers (take n bs) k = cut_triggers bs k"
    if "k \<in> set [1..<Suc (min n CHUNKER_MAX_CHUNK_SIZE - CHUNKER_MIN_CHUNK_SIZE)]" for k
    using that False cut_hash_take [of n k bs] by (auto simp: cut_triggers_def simp del: upt_Suc)
  then have "find (cut_triggers (take n bs)) [1..<Suc (min n CHUNKER_MAX_CHUNK_SIZE - CHUNKER_MIN_CHUNK_SIZE)] =
      find (cut_triggers bs) [1..<Suc (min n CHUNKER_MAX_CHUNK_SIZE - CHUNKER_MIN_CHUNK_SIZE)]"
    by (intro find_cong refl)
  then show ?thesis by (simp only: chunk_cut_def)
qed (simp add: chunk_cut_def)

lemma find_longer: "find P [i..<a] = Some k \<Longrightarrow> a \<le> b \<Longrightarrow> find P [i..<b] = Some k"
proof -
  assume f: "find P [i..<a] = Some k" and "a \<le> b"
  then have "[i..<b] = [i..<a] @ [a..<b]" if "i \<le> a"
    using that by (metis le_add_diff_inverse upt_add_eq_append)
  moreover have "i < a" using f by (cases "i < a") auto
  moreover have "find P (xs @ ys) = Some k" if "find P xs = Some k" for xs ys
    using that by (induction xs) auto
  ultimately show ?thesis using f by simp
qed

text \<open>A cut stays where it is when more bytes follow.\<close>

lemma chunk_cut_mono:
  assumes "chunk_cut bs n = Some k" "n \<le> m"
  shows "chunk_cut bs m = Some k"
proof -
  let ?hi = "\<lambda>n. Suc (min n CHUNKER_MAX_CHUNK_SIZE - CHUNKER_MIN_CHUNK_SIZE)"
  have n: "\<not> n < CHUNKER_MIN_CHUNK_SIZE" "\<not> m < CHUNKER_MIN_CHUNK_SIZE"
    using assms by (auto simp: chunk_cut_def split: if_splits)
  show ?thesis
  proof (cases "find (cut_triggers bs) [1..<?hi n]")
    case (Some j)
    then have "k = CHUNKER_MIN_CHUNK_SIZE + j" using assms(1) n(1) by (simp add: chunk_cut_def del: upt_Suc)
    moreover have "?hi n \<le> ?hi m" using assms(2) by simp
    ultimately show ?thesis using find_longer [OF Some] n(2) by (simp add: chunk_cut_def del: upt_Suc)
  next
    case None
    then have "CHUNKER_MAX_CHUNK_SIZE \<le> n" using assms(1) n(1) by (simp add: chunk_cut_def del: upt_Suc split: if_splits)
    then have "min m CHUNKER_MAX_CHUNK_SIZE = min n CHUNKER_MAX_CHUNK_SIZE" "CHUNKER_MAX_CHUNK_SIZE \<le> m"
      using assms(2) by simp_all
    then show ?thesis using assms(1) n \<open>CHUNKER_MAX_CHUNK_SIZE \<le> n\<close> by (simp add: chunk_cut_def del: upt_Suc split: option.splits)
  qed
qed

section \<open>Cutting a whole buffer\<close>

text \<open>The chunks of a byte sequence, and the rest that is too short to say where its chunk ends.\<close>

function split_chunks :: "u8 list \<Rightarrow> u8 list list \<times> u8 list" where
  "split_chunks bs =
     (case chunk_cut bs (length bs) of
        None \<Rightarrow> ([], bs)
      | Some k \<Rightarrow> (case split_chunks (drop k bs) of (cs, rest) \<Rightarrow> (take k bs # cs, rest)))"
  by pat_completeness auto

termination
proof (relation "measure length", goal_cases)
  case (2 bs k)
  then show ?case using chunk_cut_bounds [of bs "length bs" k] by simp
qed simp

declare split_chunks.simps [simp del]

lemma split_chunks_None: "chunk_cut bs (length bs) = None \<Longrightarrow> split_chunks bs = ([], bs)"
  by (simp add: split_chunks.simps [of bs])

lemma split_chunks_Some:
  "chunk_cut bs (length bs) = Some k \<Longrightarrow>
    split_chunks bs = (take k bs # fst (split_chunks (drop k bs)), snd (split_chunks (drop k bs)))"
  by (simp add: split_chunks.simps [of bs] split: prod.splits)

text \<open>A chunk the chunker may find.\<close>

definition chunk_sized :: "u8 list \<Rightarrow> bool" where
  "chunk_sized d \<longleftrightarrow> CHUNKER_MIN_CHUNK_SIZE < length d \<and> length d \<le> CHUNKER_MAX_CHUNK_SIZE"

lemma split_chunks_parts:
  "concat (fst (split_chunks bs)) @ snd (split_chunks bs) = bs \<and>
   (\<forall>d \<in> set (fst (split_chunks bs)). chunk_sized d) \<and> length (snd (split_chunks bs)) < CHUNKER_MAX_CHUNK_SIZE"
proof (induction bs rule: split_chunks.induct)
  case (1 bs)
  show ?case
  proof (cases "chunk_cut bs (length bs)")
    case None
    then show ?thesis using chunk_cut_None [OF None] by (simp add: split_chunks_None)
  next
    case (Some k)
    then have "chunk_sized (take k bs)" using chunk_cut_bounds [OF Some] by (simp add: chunk_sized_def)
    then show ?thesis using 1 [OF Some] by (simp add: split_chunks_Some [OF Some])
  qed
qed

text \<open>Cutting a sequence that arrives in two parts: the rest of the first is put in front of the second.\<close>

lemma split_chunks_append:
  "split_chunks (a @ b) =
     (fst (split_chunks a) @ fst (split_chunks (snd (split_chunks a) @ b)),
      snd (split_chunks (snd (split_chunks a) @ b)))"
proof (induction a rule: split_chunks.induct)
  case (1 a)
  show ?case
  proof (cases "chunk_cut a (length a)")
    case None
    then show ?thesis by (simp add: split_chunks_None)
  next
    case (Some k)
    have "chunk_cut (a @ b) (length a) = Some k" using chunk_cut_take [of "length a" "a @ b"] Some by simp
    then have ab: "chunk_cut (a @ b) (length (a @ b)) = Some k" by (rule chunk_cut_mono) simp
    have k: "k \<le> length a" using chunk_cut_bounds(3) [OF Some] .
    then show ?thesis using 1 [OF Some] by (simp add: split_chunks_Some [OF Some] split_chunks_Some [OF ab])
  qed
qed

text \<open>Example: a buffer of zeros never meets the trigger, so it is one chunk of the maximal size.\<close>

definition zeros :: "u8 list" where
  "zeros = replicate CHUNKER_MAX_CHUNK_SIZE 0"

lemma zeros_split: "split_chunks zeros = ([zeros], [])"
proof -
  have zero: "window_hash rolling_hash2_table1 (replicate 32 0) AND ucast CHUNKER_MASK \<noteq> ucast CHUNKER_TRIGGER"
    by code_simp
  have "cut_hash zeros k = window_hash rolling_hash2_table1 (replicate 32 0)" if "k \<le> 22528" for k
  proof -
    have "32 \<le> 24608 - k" using that by simp
    then show ?thesis
      by (simp add: cut_hash_def zeros_def CHUNKER_WINDOW_WIDTH_def CHUNKER_MIN_CHUNK_SIZE_def
          CHUNKER_MAX_CHUNK_SIZE_def min_def flip: replicate_add)
  qed
  then have "\<not> cut_triggers zeros k" if "k \<le> 22528" for k
    using that zero by (simp add: cut_triggers_def)
  then have "find (cut_triggers zeros) [1..<Suc 22528] = None" by (auto simp: find_None_iff simp del: upt_Suc)
  then have "chunk_cut zeros (length zeros) = Some CHUNKER_MAX_CHUNK_SIZE"
    by (simp add: chunk_cut_def zeros_def CHUNKER_MAX_CHUNK_SIZE_def CHUNKER_MIN_CHUNK_SIZE_def del: upt_Suc)
  moreover have "split_chunks [] = ([], [])"
    by (rule split_chunks_None) (simp add: chunk_cut_def CHUNKER_MIN_CHUNK_SIZE_def)
  ultimately show ?thesis using split_chunks_Some [of zeros CHUNKER_MAX_CHUNK_SIZE] by (simp add: zeros_def)
qed

section \<open>Properties of the chunker\<close>

lemma chunker_init_ok:
  obtains chunker where "chunker_init = Inr (0, chunker)" "chunker_inv chunker" "retained_size chunker = 0"
proof -
  have "unat (of_nat CHUNKER_WINDOW_WIDTH :: u32) = CHUNKER_WINDOW_WIDTH" by (simp add: CHUNKER_WINDOW_WIDTH_def)
  then obtain state where "rolling_hash2_init rh_state2_zero (of_nat CHUNKER_WINDOW_WIDTH) = (0, state)"
    "rh_init_for CHUNKER_WINDOW_WIDTH state"
    using rh_init_ok [of "of_nat CHUNKER_WINDOW_WIDTH"] by (auto simp: CHUNKER_WINDOW_WIDTH_def FINGERPRINT_MAX_WINDOW_def)
  then show ?thesis using that by (simp add: chunker_init_def chunker_inv_def CHUNKER_MAX_CHUNK_SIZE_def)
qed

lemma chunker_busy: "retained_size chunker \<noteq> 0 \<Longrightarrow> chunker_chunk_buffer mh chunker buffer n = Inl AssertFailed"
  by (simp add: chunker_chunk_buffer_def)

lemma flush_returns:
  assumes "chunker_inv chunker" "retained_size chunker < n" "unat n \<le> length buffer"
  shows "chunker_flush_retained chunker buffer n =
    Inr (retained_size chunker, chunker\<lparr>retained_size := 0\<rparr>,
      retained_bytes chunker @ drop (unat (retained_size chunker)) buffer)"
proof -
  have "unat (retained_size chunker) < unat n" using assms(2) by (simp add: word_less_nat_alt)
  then show ?thesis using assms
    by (auto simp: chunker_flush_retained_def chunker_inv_def retained_bytes_def Let_def)
qed

text \<open>
  C23: the chunker finds exactly the first chunk the reference cut describes, or retains the whole buffer when the
  cut is undecided; a chunker that retains something aborts.
\<close>

theorem chunker_finds_cut:
  assumes "chunker_inv chunker" "unat n \<le> length bs"
  shows "if retained_size chunker \<noteq> 0 then chunker_chunk_buffer mh chunker (Some bs) n = Inl AssertFailed
    else \<exists>chunker'. chunker_inv chunker' \<and>
      (case chunk_cut bs (unat n) of
         Some k \<Rightarrow> chunker_chunk_buffer mh chunker (Some bs) n =
             Inr (CHUNKER_FOUND, chunker', chunk_ref_set mh bs (of_nat k)) \<and> retained_size chunker' = 0
       | None \<Rightarrow> chunker_chunk_buffer mh chunker (Some bs) n = Inr (CHUNKER_NOT_FOUND, chunker', chunk_ref_init) \<and>
           retained_bytes chunker' = take (unat n) bs)"
proof (cases "retained_size chunker = 0")
  case True
  from chunker_chunk_spec [OF assms(1) True assms(2), of mh] True show ?thesis
    unfolding chunk_outcome_def by (auto split: option.splits)
next
  case False
  then show ?thesis by (simp add: chunker_busy)
qed

theorem chunker_finds_cut_witness:
  "\<exists>chunker chunker'. chunker_chunk_buffer id chunker (Some [1, 2, 3]) 3 =
      Inr (CHUNKER_NOT_FOUND, chunker', chunk_ref_init) \<and> retained_bytes chunker' = [1, 2, 3]"
proof -
  obtain chunker where c: "chunker_inv chunker" "retained_size chunker = 0" using chunker_init_ok by metis
  have "chunk_cut [1, 2, 3] 3 = None" by (simp add: chunk_cut_def CHUNKER_MIN_CHUNK_SIZE_def)
  with chunker_finds_cut [OF c(1), of 3 "[1, 2, 3]" id] c(2) show ?thesis by auto
qed

text \<open>
  Retaining and flushing is lossless: what an undecided call retained comes back at the front of the
  next buffer, which is otherwise untouched, and the chunker is ready again.
\<close>

theorem chunker_flush_roundtrip:
  assumes "chunker_inv chunker" "unat n \<le> length bs"
    and "chunker_chunk_buffer mh chunker (Some bs) n = Inr (CHUNKER_NOT_FOUND, chunker', ref)"
    and "n < m" "unat m \<le> length buffer"
  shows "\<exists>chunker''. chunker_flush_retained chunker' buffer m =
      Inr (n, chunker'', take (unat n) bs @ drop (unat n) buffer) \<and>
    chunker_inv chunker'' \<and> retained_size chunker'' = 0"
proof -
  have "retained_size chunker = 0" using assms(3) chunker_busy by (metis Inl_Inr_False)
  from chunker_chunk_spec [OF assms(1) this assms(2), of mh] assms(3)
  have c: "chunker_inv chunker'" "retained_bytes chunker' = take (unat n) bs" "retained_size chunker' = n"
    by (auto simp: chunk_outcome_def CHUNKER_FOUND_def CHUNKER_NOT_FOUND_def split: option.splits)
  have "chunker_inv (chunker'\<lparr>retained_size := 0\<rparr>)" using c(1) by (simp add: chunker_inv_def CHUNKER_MAX_CHUNK_SIZE_def)
  with flush_returns [OF c(1), of m buffer] assms(4,5) c(2,3) show ?thesis by auto
qed

theorem chunker_flush_roundtrip_witness:
  "\<exists>chunker chunker''. chunker_flush_retained chunker [0, 0, 0, 9] 4 = Inr (3, chunker'', [1, 2, 3, 9])"
proof -
  obtain chunker where c: "chunker_inv chunker" "retained_size chunker = 0" using chunker_init_ok by metis
  have "chunk_cut [1, 2, 3] 3 = None" by (simp add: chunk_cut_def CHUNKER_MIN_CHUNK_SIZE_def)
  with chunker_chunk_spec [OF c, of 3 "[1, 2, 3]" id] obtain chunker' where
    "chunker_chunk_buffer id chunker (Some [1, 2, 3]) 3 = Inr (CHUNKER_NOT_FOUND, chunker', chunk_ref_init)"
    by (auto simp: chunk_outcome_def)
  from chunker_flush_roundtrip [OF c(1) _ this, of 4 "[0, 0, 0, 9]"] show ?thesis by auto
qed

text \<open>The bytes that decide a cut are the first 22528, although a chunk may have 24576.\<close>

lemma chunk_cut_tail:
  assumes "take 22528 bs = take 22528 bs'"
  shows "chunk_cut bs n = chunk_cut bs' n"
proof -
  have "cut_triggers bs k = cut_triggers bs' k" if "k \<le> 22528" for k
    using that assms cut_hash_take [of 22528 k bs] cut_hash_take [of 22528 k bs']
    by (simp add: cut_triggers_def CHUNKER_MIN_CHUNK_SIZE_def)
  then have "find (cut_triggers bs) [1..<Suc (min n CHUNKER_MAX_CHUNK_SIZE - CHUNKER_MIN_CHUNK_SIZE)] =
      find (cut_triggers bs') [1..<Suc (min n CHUNKER_MAX_CHUNK_SIZE - CHUNKER_MIN_CHUNK_SIZE)]"
    by (intro find_cong refl) (auto simp: CHUNKER_MIN_CHUNK_SIZE_def CHUNKER_MAX_CHUNK_SIZE_def simp del: upt_Suc)
  then show ?thesis by (simp only: chunk_cut_def)
qed

text \<open>
  C39: the rolling hash is fed from the start of the buffer and not from the minimal chunk size, so a cut is
  decided by bytes 2048 positions before it: the last 2048 bytes of a chunk of maximal size have no influence on
  whether and where the buffer is cut.
\<close>

theorem chunker_ignores_tail:
  assumes "chunker_inv chunker" "retained_size chunker = 0" "unat n \<le> length bs" "unat n \<le> length bs'"
    and "take 22528 bs = take 22528 bs'"
  shows "map_sum id (\<lambda>(ret, _, ref). (ret, ref_buffer_size ref)) (chunker_chunk_buffer mh chunker (Some bs) n) =
    map_sum id (\<lambda>(ret, _, ref). (ret, ref_buffer_size ref)) (chunker_chunk_buffer mh chunker (Some bs') n)"
  using chunker_chunk_spec [OF assms(1,2,3), of mh] chunker_chunk_spec [OF assms(1,2,4), of mh]
    chunk_cut_tail [OF assms(5)]
  by (auto simp: chunk_outcome_def chunk_ref_set_def split: option.splits)

theorem chunker_ignores_tail_witness:
  "\<exists>chunker. chunker_inv chunker \<and>
    map_sum id (\<lambda>(ret, _, ref). (ret, ref_buffer_size ref)) (chunker_chunk_buffer id chunker (Some zeros) 24576) =
    map_sum id (\<lambda>(ret, _, ref). (ret, ref_buffer_size ref))
      (chunker_chunk_buffer id chunker (Some (replicate 22528 0 @ replicate 2048 1)) 24576)"
proof -
  obtain chunker where c: "chunker_inv chunker" "retained_size chunker = 0" using chunker_init_ok by metis
  have "take 22528 zeros = take 22528 (replicate 22528 0 @ replicate 2048 1)"
    by (simp add: zeros_def CHUNKER_MAX_CHUNK_SIZE_def)
  then show ?thesis
    using chunker_ignores_tail [OF c, of 24576 zeros "replicate 22528 0 @ replicate 2048 1" id] c(1)
    by (auto simp: zeros_def CHUNKER_MAX_CHUNK_SIZE_def)
qed

end
