(* ===== verification/Cache.thy ===== *)
theory Cache
  imports Cell_Store
begin

text \<open>
  \<^verbatim>\<open>cache_header.h\<close>, \<^verbatim>\<open>cache_header.c\<close>, \<^verbatim>\<open>cache.h\<close>, \<^verbatim>\<open>cache.c\<close>: a cache is an array of cells over one buffer.
  The first megabyte of the buffer holds the cache header, every further megabyte the slab of one cell.
  A buffer is \<open>(header, slots)\<close>: the cache header and, per slab, its cell header and body bytes as they
  are found there.  The array of \<^verbatim>\<open>struct cell\<close> is on the heap; \<open>None\<close> is the null pointer.
\<close>

definition CACHE_HEADER_MAGIC :: u64 where
  "CACHE_HEADER_MAGIC = 340865607434"

definition CACHE_CELL_SIZE :: nat where
  "CACHE_CELL_SIZE = 1024 * 1024"

record cache_header =
  cache_magic :: u64
  cell_count :: u64

type_synonym slot = "cell_header \<times> mem"

text \<open>\<^verbatim>\<open>cache_buffer\<close> and \<^verbatim>\<open>cache_buffer_size\<close> are zeroed by \<^verbatim>\<open>cache_init\<close> and not used after that.\<close>

record cache =
  cache_cells :: "cell list option"
  cache_header :: cache_header
  cache_buffer :: u64
  cache_buffer_size :: u64

section \<open>Operations\<close>

definition cache_header_init :: "cache_header \<Rightarrow> u64 \<Rightarrow> cache_header" where
  "cache_header_init header num =
     (if cache_magic header = CACHE_HEADER_MAGIC then header
      else header\<lparr>cell_count := num, cache_magic := CACHE_HEADER_MAGIC\<rparr>)"

text \<open>The loop over the slabs; a slab beyond the end of the buffer is out of bounds.\<close>

fun cache_init_cells :: "nat \<Rightarrow> slot list \<Rightarrow> cell list result" where
  "cache_init_cells 0 slots = Inr []"
| "cache_init_cells (Suc n) [] = Inl OutOfBounds"
| "cache_init_cells (Suc n) ((header, m) # slots) =
     rbind (cell_init header m (of_nat CACHE_CELL_SIZE)) (\<lambda>c.
     rbind (cache_init_cells n slots) (\<lambda>cs. Inr (c # cs)))"

definition cache_init :: "cache_header \<Rightarrow> slot list \<Rightarrow> u64 \<Rightarrow> cache result" where
  "cache_init header slots buffer_size =
     (let n = buffer_size div of_nat CACHE_CELL_SIZE in
      ALWAYS (n \<ge> 2)
        (let num = n - 1 in
         rbind (cache_init_cells (unat num) slots) (\<lambda>cs.
         Inr \<lparr>cache_cells = Some cs, cache_header = cache_header_init header num,
              cache_buffer = 0, cache_buffer_size = 0\<rparr>)))"

text \<open>
  A cache without cells was never opened, and then its header is the null pointer, too, or it was released, which is the last thing done
  before its buffer is unmapped; \<open>cache_get_cell_index\<close> and \<open>cache_get_metrics\<close> follow these pointers.
  \<^verbatim>\<open>memcpy\<close> of the first eight bytes into a \<^verbatim>\<open>uint64_t\<close>, little endian.\<close>

definition checksum_part :: "checksum \<Rightarrow> u64" where
  "checksum_part checksum =
     ucast (of_le32 (take 4 (bytes checksum))) OR push_bit 32 (ucast (of_le32 (take 4 (drop 4 (bytes checksum)))))"

definition cache_get_cell_index :: "cache \<Rightarrow> checksum \<Rightarrow> nat result" where
  "cache_get_cell_index cache checksum =
     (if cache_cells cache = None then Inl OutOfBounds
      else if cell_count (cache_header cache) = 0 then Inl DivisionByZero
      else Inr (unat (checksum_part checksum mod cell_count (cache_header cache))))"

text \<open>Access to the cell at an index of the array.\<close>

definition cache_cell :: "cache \<Rightarrow> nat \<Rightarrow> cell result" where
  "cache_cell cache i =
     (case cache_cells cache of
        None \<Rightarrow> Inl OutOfBounds
      | Some cs \<Rightarrow> if i < length cs then Inr (cs ! i) else Inl OutOfBounds)"

definition set_cache_cell :: "cache \<Rightarrow> nat \<Rightarrow> cell \<Rightarrow> cache" where
  "set_cache_cell cache i c = cache\<lparr>cache_cells := map_option (\<lambda>cs. cs[i := c]) (cache_cells cache)\<rparr>"

definition cache_add_chunk :: "cache \<Rightarrow> checksum \<Rightarrow> u8 list \<Rightarrow> u32 \<Rightarrow> (bool \<times> cache) result" where
  "cache_add_chunk cache checksum buffer buffer_size =
     rbind (cache_get_cell_index cache checksum) (\<lambda>i.
     rbind (cache_cell cache i) (\<lambda>c.
     rbind (cell_add_chunk c checksum buffer buffer_size) (\<lambda>(ret, c').
     Inr (ret, set_cache_cell cache i c'))))"

definition cache_has_chunk :: "cache \<Rightarrow> checksum \<Rightarrow> (bool \<times> cache) result" where
  "cache_has_chunk cache checksum =
     rbind (cache_get_cell_index cache checksum) (\<lambda>i.
     rbind (cache_cell cache i) (\<lambda>c.
     rbind (cell_has_chunk c checksum) (\<lambda>(ret, c').
     Inr (ret, set_cache_cell cache i c'))))"

definition cache_get_chunk :: "cache \<Rightarrow> checksum \<Rightarrow> chunk \<Rightarrow> (bool \<times> cache \<times> chunk) result" where
  "cache_get_chunk cache checksum chunk =
     rbind (cache_get_cell_index cache checksum) (\<lambda>i.
     rbind (cache_cell cache i) (\<lambda>c.
     rbind (cell_get_chunk c checksum chunk) (\<lambda>(ret, c', chunk').
     Inr (ret, set_cache_cell cache i c', chunk'))))"

fun cache_release_cells :: "nat \<Rightarrow> cell list \<Rightarrow> unit result" where
  "cache_release_cells 0 cs = Inr ()"
| "cache_release_cells (Suc n) [] = Inl OutOfBounds"
| "cache_release_cells (Suc n) (c # cs) = rbind (cell_release c) (\<lambda>_. cache_release_cells n cs)"

definition cache_release :: "cache \<Rightarrow> cache result" where
  "cache_release cache =
     (case cache_cells cache of
        None \<Rightarrow> Inr cache
      | Some cs \<Rightarrow>
          rbind (cache_release_cells (unat (cell_count (cache_header cache))) cs) (\<lambda>_.
          Inr (cache\<lparr>cache_cells := None\<rparr>)))"

fun cache_metrics_cells :: "nat \<Rightarrow> cell list \<Rightarrow> cache_metrics \<Rightarrow> (cache_metrics \<times> cell list) result" where
  "cache_metrics_cells 0 cs metrics = Inr (metrics, cs)"
| "cache_metrics_cells (Suc n) [] metrics = Inl OutOfBounds"
| "cache_metrics_cells (Suc n) (c # cs) metrics =
     rbind (cell_get_metrics c metrics) (\<lambda>(metrics1, c').
     rbind (cache_metrics_cells n cs metrics1) (\<lambda>(metrics2, cs').
     Inr (metrics2, c' # cs')))"

definition cache_get_metrics :: "cache \<Rightarrow> (cache_metrics \<times> cache) result" where
  "cache_get_metrics cache =
     (case cache_cells cache of
        None \<Rightarrow> Inl OutOfBounds
      | Some cs \<Rightarrow>
          rbind (cache_metrics_cells (unat (cell_count (cache_header cache))) cs cache_metrics_init)
            (\<lambda>(metrics, cs'). Inr (metrics, cache\<lparr>cache_cells := Some cs'\<rparr>)))"

section \<open>The cache as a chunk store\<close>

definition cell_index :: "cache \<Rightarrow> checksum \<Rightarrow> nat" where
  "cell_index cache ck = unat (checksum_part ck mod cell_count (cache_header cache))"

definition cells_of :: "cache \<Rightarrow> cell list" where
  "cells_of cache = (case cache_cells cache of None \<Rightarrow> [] | Some cs \<Rightarrow> cs)"

text \<open>Every chunk is in the cell its checksum selects.\<close>

definition cache_inv :: "cache \<Rightarrow> bool" where
  "cache_inv cache \<longleftrightarrow>
     cache_cells cache \<noteq> None \<and> cache_magic (cache_header cache) = CACHE_HEADER_MAGIC \<and>
     length (cells_of cache) = unat (cell_count (cache_header cache)) \<and>
     cells_of cache \<noteq> [] \<and> length (cells_of cache) < 2 ^ 44 \<and>
     (\<forall>c \<in> set (cells_of cache). cell_inv c \<and> slab_size c = of_nat CACHE_CELL_SIZE) \<and>
     (\<forall>i < length (cells_of cache). \<forall>ck \<in> dom (cell_map (cells_of cache ! i)). cell_index cache ck = i)"

definition cache_map :: "cache \<Rightarrow> checksum \<Rightarrow> u8 list option" where
  "cache_map cache ck = cell_map (cells_of cache ! cell_index cache ck) ck"

definition cache_safe :: "cache \<Rightarrow> checksum \<Rightarrow> u32 \<Rightarrow> bool" where
  "cache_safe cache ck bs \<longleftrightarrow> cell_safe (cells_of cache ! cell_index cache ck) ck bs"

lemma cache_invD:
  assumes "cache_inv cache"
  shows "cache_get_cell_index cache ck = Inr (cell_index cache ck)"
    "cache_cell cache (cell_index cache ck) = Inr (cells_of cache ! cell_index cache ck)"
    "cell_index cache ck < length (cells_of cache)"
    "cell_inv (cells_of cache ! cell_index cache ck)"
proof -
  from assms obtain cs where cs: "cache_cells cache = Some cs" "cells_of cache = cs"
    by (auto simp: cache_inv_def cells_of_def)
  have n: "length cs = unat (cell_count (cache_header cache))" "cs \<noteq> []"
    using assms cs(2) by (simp_all add: cache_inv_def)
  then have pos: "0 < unat (cell_count (cache_header cache))" by (metis length_greater_0_conv)
  then have "cell_count (cache_header cache) \<noteq> 0" by auto
  then show "cache_get_cell_index cache ck = Inr (cell_index cache ck)"
    using cs(1) by (simp add: cache_get_cell_index_def cell_index_def)
  show lt: "cell_index cache ck < length (cells_of cache)"
    using n pos cs(2) by (simp add: cell_index_def unat_mod)
  then show "cache_cell cache (cell_index cache ck) = Inr (cells_of cache ! cell_index cache ck)"
    using cs by (simp add: cache_cell_def)
  show "cell_inv (cells_of cache ! cell_index cache ck)"
    using assms lt by (simp add: cache_inv_def)
qed

lemma set_cache_cell_simps [simp]:
  "cells_of (set_cache_cell cache i c) = (cells_of cache)[i := c]"
  "cache_header (set_cache_cell cache i c) = cache_header cache"
  "cell_index (set_cache_cell cache i c) ck = cell_index cache ck"
  "cache_cells (set_cache_cell cache i c) = None \<longleftrightarrow> cache_cells cache = None"
  by (simp_all add: cells_of_def set_cache_cell_def cell_index_def split: option.splits)

lemma set_cache_cell_same:
  assumes "i < length (cells_of cache)"
  shows "set_cache_cell cache i (cells_of cache ! i) = cache"
  using assms by (cases cache) (auto simp: set_cache_cell_def cells_of_def split: option.splits)

text \<open>Replacing the selected cell by one whose contents gained at most one binding.\<close>

lemma cache_inv_update:
  assumes inv: "cache_inv cache" and i: "i = cell_index cache ck" and c': "cell_inv c'"
    and sz: "slab_size c' = slab_size (cells_of cache ! i)"
    and le: "cell_map c' \<subseteq>\<^sub>m (cell_map (cells_of cache ! i))(ck \<mapsto> d)"
  shows "cache_inv (set_cache_cell cache i c')"
    "cache_map (set_cache_cell cache i c') \<subseteq>\<^sub>m (cache_map cache)(ck \<mapsto> d)"
proof -
  let ?cs = "cells_of cache"
  note d = cache_invD [OF inv]
  have lt: "i < length ?cs" using d(3) i by simp
  have placed: "cell_index cache k = j" if "j < length ?cs" "k \<in> dom (cell_map (?cs ! j))" for j k
    using inv that unfolding cache_inv_def by blast
  have dom: "k = ck \<or> k \<in> dom (cell_map (?cs ! i))" if "k \<in> dom (cell_map c')" for k
    using map_le_implies_dom_le [OF le] that by auto
  have place: "cell_index cache k = j" if "j < length ?cs" "k \<in> dom (cell_map (?cs[i := c'] ! j))" for j k
  proof (cases "j = i")
    case True
    then have "k \<in> dom (cell_map c')" using that lt by simp
    from dom [OF this] show ?thesis using placed [OF lt] i True by blast
  next
    case False
    then have "k \<in> dom (cell_map (?cs ! j))" using that by simp
    then show ?thesis by (rule placed [OF that(1)])
  qed
  have "cell_inv x \<and> slab_size x = of_nat CACHE_CELL_SIZE" if "x \<in> set (?cs[i := c'])" for x
  proof -
    have "x = c' \<or> x \<in> set ?cs" using that set_update_subset_insert by fastforce
    then show ?thesis using inv c' sz lt by (auto simp: cache_inv_def)
  qed
  then show "cache_inv (set_cache_cell cache i c')" using inv place by (simp add: cache_inv_def)
  show "cache_map (set_cache_cell cache i c') \<subseteq>\<^sub>m (cache_map cache)(ck \<mapsto> d)"
    unfolding map_le_def
  proof
    fix k assume k: "k \<in> dom (cache_map (set_cache_cell cache i c'))"
    show "cache_map (set_cache_cell cache i c') k = ((cache_map cache)(ck \<mapsto> d)) k"
    proof (cases "cell_index cache k = i")
      case True
      then have eq: "cache_map (set_cache_cell cache i c') k = cell_map c' k"
        using lt by (simp add: cache_map_def)
      then have "k \<in> dom (cell_map c')" using k by (simp add: domIff)
      then show ?thesis using le eq True by (simp add: map_le_def cache_map_def)
    next
      case False
      then show ?thesis using i by (auto simp: cache_map_def)
    qed
  qed
qed

lemma cache_add_new:
  assumes inv: "cache_inv cache" and ok: "chunk_ok ck buffer bs" and absent: "cache_map cache ck = None"
    and safe: "cache_safe cache ck bs"
  obtains cache' where "cache_add_chunk cache ck buffer bs = Inr (True, cache')" "cache_inv cache'"
    "cache_map cache' \<subseteq>\<^sub>m (cache_map cache)(ck \<mapsto> take (unat bs) buffer)"
proof -
  note d = cache_invD [OF inv, of ck]
  let ?c = "cells_of cache ! cell_index cache ck"
  have "cell_map ?c ck = None" "\<not> self_evicts ?c bs"
    using absent safe by (simp_all add: cache_map_def cache_safe_def cell_safe_def)
  from add_chunk_new [OF d(4) ok this] obtain c' where
    c': "cell_add_chunk ?c ck buffer bs = Inr (True, c')" "cell_inv c'"
      "cell_map c' \<subseteq>\<^sub>m (cell_map ?c)(ck \<mapsto> take (unat bs) buffer)" "slab_size c' = slab_size ?c" .
  have "cache_add_chunk cache ck buffer bs = Inr (True, set_cache_cell cache (cell_index cache ck) c')"
    using d(1,2) c'(1) by (simp add: cache_add_chunk_def)
  then show ?thesis using that cache_inv_update [OF inv refl c'(2,4,3)] by blast
qed

interpretation caches: chunk_store cache_inv cache_map cache_safe cache_add_chunk cache_has_chunk cache_get_chunk
proof (unfold_locales, goal_cases)
  case (1 s ck buffer bs)
  note d = cache_invD [OF 1(1), of ck]
  from 1(3) cells.store_add_known [OF d(4) 1(2)] d set_cache_cell_same [OF d(3)]
  show ?case by (simp add: cache_map_def cache_add_chunk_def)
next
  case (2 s ck buffer bs)
  from cache_add_new [OF this] show ?case by metis
next
  case (3 s ck buffer bs)
  note d = cache_invD [OF 3(1), of ck]
  have "cell_map (cells_of s ! cell_index s ck) ck = None" "\<not> cell_safe (cells_of s ! cell_index s ck) ck bs"
    using 3(3,4) by (simp_all add: cache_map_def cache_safe_def)
  from cells.store_add_unsafe [OF d(4) 3(2) this] d show ?case by (simp add: cache_add_chunk_def)
next
  case (4 s ck)
  note d = cache_invD [OF 4(1), of ck]
  from cells.store_has [OF d(4) 4(2)] d set_cache_cell_same [OF d(3)]
  show ?case by (simp add: cache_map_def cache_has_chunk_def)
next
  case (5 s ck ch x)
  note d = cache_invD [OF 5(1), of ck]
  from 5(4) cells.store_get_known [OF d(4) 5(2,3)] d set_cache_cell_same [OF d(3)]
  show ?case by (fastforce simp: cache_map_def cache_get_chunk_def)
next
  case (6 s ck ch)
  note d = cache_invD [OF 6(1), of ck]
  from 6(3) cells.store_get_unknown [OF d(4) 6(2)] d set_cache_cell_same [OF d(3)]
  show ?case by (simp add: cache_map_def cache_get_chunk_def)
next
  case (7 bs buffer s ck)
  then show ?case by (simp add: cache_add_chunk_def cells.store_add_take)
qed

section \<open>Opening a buffer\<close>

text \<open>What the opening of one slab may yield, and the list of cells it yields for a buffer.\<close>

lemma init_cells_all:
  assumes "length slots = n" "\<And>i. i < n \<Longrightarrow> cell_init (fst (slots ! i)) (snd (slots ! i)) (of_nat CACHE_CELL_SIZE) = Inr (cs ! i)"
    and "length cs = n"
  shows "cache_init_cells n slots = Inr cs"
  using assms
proof (induction n arbitrary: slots cs)
  case 0
  then show ?case by simp
next
  case (Suc n)
  from Suc.prems obtain h m ss c ds where
    s: "slots = (h, m) # ss" "cs = c # ds" "length ss = n" "length ds = n"
    by (cases slots; cases cs) auto
  have "cache_init_cells n ss = Inr ds"
    using Suc.prems(2) [of "Suc i" for i] s by (intro Suc.IH) auto
  moreover have "cell_init h m (of_nat CACHE_CELL_SIZE) = Inr c" using Suc.prems(2) [of 0] s by simp
  ultimately show ?case using s by simp
qed

text \<open>A buffer size that belongs to \<open>n\<close> cells: \<open>n + 1\<close> megabytes and a rest.\<close>

definition size_for :: "u64 \<Rightarrow> nat \<Rightarrow> bool" where
  "size_for sz n \<longleftrightarrow> 1 \<le> n \<and> unat sz div CACHE_CELL_SIZE = Suc n"

lemma size_for_slots:
  assumes "size_for sz n"
  shows "unat (sz div of_nat CACHE_CELL_SIZE) = Suc n" "unat (sz div of_nat CACHE_CELL_SIZE - 1) = n"
    "2 \<le> sz div of_nat CACHE_CELL_SIZE" "n < 2 ^ 44"
proof -
  have c: "unat (of_nat CACHE_CELL_SIZE :: u64) = CACHE_CELL_SIZE" by (simp add: CACHE_CELL_SIZE_def)
  show q: "unat (sz div of_nat CACHE_CELL_SIZE) = Suc n"
    using assms c by (simp add: unat_div size_for_def)
  then show "unat (sz div of_nat CACHE_CELL_SIZE - 1) = n" by (simp add: word_nat)
  show "2 \<le> sz div of_nat CACHE_CELL_SIZE" using q assms by (simp add: word_le_nat_alt size_for_def)
  have "unat sz < 2 ^ 64" using unat_lt [of sz] by simp
  then have "unat sz div CACHE_CELL_SIZE < 2 ^ 44"
    by (simp add: CACHE_CELL_SIZE_def less_mult_imp_div_less)
  then show "n < 2 ^ 44" using assms by (simp add: size_for_def)
qed

lemma cache_init_cells_ok:
  assumes "size_for sz n" "length slots = n" "length cs = n"
    and "\<And>i. i < n \<Longrightarrow> cell_init (fst (slots ! i)) (snd (slots ! i)) (of_nat CACHE_CELL_SIZE) = Inr (cs ! i)"
  shows "cache_init header slots sz =
    Inr \<lparr>cache_cells = Some cs, cache_header = cache_header_init header (of_nat n),
         cache_buffer = 0, cache_buffer_size = 0\<rparr>"
proof -
  note z = size_for_slots [OF assms(1)]
  have "sz div of_nat CACHE_CELL_SIZE - 1 = of_nat n" unfolding word_unat_eq_iff z(2) using z(4) by (simp add: word_nat)
  then show ?thesis
    using init_cells_all [OF assms(2) assms(4) assms(3)] z(2,3) by (simp add: cache_init_def Let_def)
qed

text \<open>
  The image of a cache in its buffer, where the slabs in \<open>damaged\<close> may hold anything whose header is not
  sane: slabs that were never used, or on which an update was interrupted.
\<close>

definition image_of :: "cache \<Rightarrow> nat set \<Rightarrow> slot list \<Rightarrow> bool" where
  "image_of cache damaged slots \<longleftrightarrow>
     length slots = length (cells_of cache) \<and>
     (\<forall>i < length slots. if i \<in> damaged then \<not> cell_header_sane (fst (slots ! i))
        else slots ! i = (cell_header (cells_of cache ! i), slab (cells_of cache ! i)))"

lemma geometry_slab: "ok_geometry (of_nat CACHE_CELL_SIZE)"
  by (simp add: ok_geometry_def CACHE_CELL_SIZE_def)

text \<open>One slab of such an image.\<close>

definition slot_opens :: "cache \<Rightarrow> nat set \<Rightarrow> slot list \<Rightarrow> nat \<Rightarrow> cell \<Rightarrow> bool" where
  "slot_opens cache damaged slots i c \<longleftrightarrow>
     cell_init (fst (slots ! i)) (snd (slots ! i)) (of_nat CACHE_CELL_SIZE) = Inr c \<and>
     cell_inv c \<and> slab_size c = of_nat CACHE_CELL_SIZE \<and>
     cell_map c = (if i \<in> damaged then Map.empty else cell_map (cells_of cache ! i))"

lemma image_slot:
  assumes "cache_inv cache" "image_of cache damaged slots" "i < length slots"
  shows "\<exists>c. slot_opens cache damaged slots i c"
proof (cases "i \<in> damaged")
  case True
  then have "\<not> cell_header_sane (fst (slots ! i))" using assms(2,3) by (simp add: image_of_def)
  from cell_init_insane [OF this geometry_slab, of "snd (slots ! i)"] obtain c where
    "cell_init (fst (slots ! i)) (snd (slots ! i)) (of_nat CACHE_CELL_SIZE) = Inr c" "cell_inv c"
    "cell_map c = Map.empty" "slab_size c = of_nat CACHE_CELL_SIZE" .
  with True show ?thesis by (auto simp: slot_opens_def)
next
  case False
  let ?c = "cells_of cache ! i"
  have "?c \<in> set (cells_of cache)" using assms(2,3) by (simp add: image_of_def)
  then have c: "cell_inv ?c" "slab_size ?c = of_nat CACHE_CELL_SIZE" using assms(1) by (simp_all add: cache_inv_def)
  have sl: "slots ! i = (cell_header ?c, slab ?c)" using assms(2,3) False by (simp add: image_of_def)
  have "cell_init (fst (slots ! i)) (snd (slots ! i)) (of_nat CACHE_CELL_SIZE) = Inr ?c"
    using cell_init_own [OF c(1)] unfolding c(2) sl fst_conv snd_conv .
  then show ?thesis using c False by (auto simp: slot_opens_def)
qed

lemma open_image:
  assumes inv: "cache_inv cache" and img: "image_of cache damaged slots"
    and sz: "size_for sz (length (cells_of cache))"
  obtains cache' where "cache_init (cache_header cache) slots sz = Inr cache'" "cache_inv cache'"
    "\<And>ck. cache_map cache' ck = (if cell_index cache ck \<in> damaged then None else cache_map cache ck)"
proof -
  let ?n = "length (cells_of cache)"
  have len: "length slots = ?n" using img by (simp add: image_of_def)
  have "\<forall>i < ?n. \<exists>c. slot_opens cache damaged slots i c" using image_slot [OF inv img] len by simp
  then obtain f where "\<forall>i < ?n. slot_opens cache damaged slots i (f i)" by metis
  then have f: "\<And>i. i < ?n \<Longrightarrow> cell_init (fst (slots ! i)) (snd (slots ! i)) (of_nat CACHE_CELL_SIZE) = Inr (f i)"
      "\<And>i. i < ?n \<Longrightarrow> cell_inv (f i)" "\<And>i. i < ?n \<Longrightarrow> slab_size (f i) = of_nat CACHE_CELL_SIZE"
      "\<And>i. i < ?n \<Longrightarrow> cell_map (f i) = (if i \<in> damaged then Map.empty else cell_map (cells_of cache ! i))"
    unfolding slot_opens_def by blast+
  let ?cs = "map f [0..<?n]"
  let ?cache = "\<lparr>cache_cells = Some ?cs, cache_header = cache_header cache, cache_buffer = 0, cache_buffer_size = 0\<rparr>"
  have magic: "cache_magic (cache_header cache) = CACHE_HEADER_MAGIC" using inv by (simp add: cache_inv_def)
  have each: "cell_init (fst (slots ! i)) (snd (slots ! i)) (of_nat CACHE_CELL_SIZE) = Inr (?cs ! i)"
    if "i < ?n" for i
  proof -
    have "?cs ! i = f i" using that by simp
    then show ?thesis using f(1) [OF that] by (simp only:)
  qed
  have "length ?cs = ?n" by simp
  note opened = cache_init_cells_ok [OF sz len this each, of "cache_header cache"]
  have hdr: "cache_header_init (cache_header cache) (of_nat ?n) = cache_header cache"
    using magic by (simp add: cache_header_init_def)
  have res: "cache_init (cache_header cache) slots sz = Inr ?cache" using opened unfolding hdr .
  have cs: "cells_of ?cache = ?cs" "cell_index ?cache ck = cell_index cache ck" for ck
    by (simp_all add: cells_of_def cell_index_def)
  have placed: "cell_index cache ck = i" if "i < ?n" "ck \<in> dom (cell_map (?cs ! i))" for i ck
  proof -
    have "ck \<in> dom (cell_map (cells_of cache ! i))" using that f(4) [of i] by (auto split: if_splits)
    then show ?thesis using inv that(1) unfolding cache_inv_def by blast
  qed
  have "0 < unat (cell_count (cache_header cache))"
    using cache_invD(3) [OF inv, of checksum_init] inv by (simp add: cache_inv_def)
  then have "cache_inv ?cache"
    using inv f(2,3) placed unfolding cache_inv_def cs by auto
  moreover have "cache_map ?cache ck = (if cell_index cache ck \<in> damaged then None else cache_map cache ck)" for ck
    using f(4) [OF cache_invD(3) [OF inv, of ck]] cache_invD(3) [OF inv, of ck]
    by (simp add: cache_map_def cs)
  ultimately show ?thesis using that res by blast
qed

section \<open>Metrics\<close>

lemma metrics_cells_sum:
  assumes "\<forall>c \<in> set cs. cell_inv c" "n = length cs"
  shows "cache_metrics_cells n cs metrics = Inr (metrics
     \<lparr>met_byte_count := met_byte_count metrics + of_nat (sum_list (map cell_bytes cs)),
      met_entry_count := met_entry_count metrics + of_nat (sum_list (map cell_chunks cs))\<rparr>, cs)"
  using assms
proof (induction cs arbitrary: n metrics)
  case Nil
  then show ?case by simp
next
  case (Cons c cs)
  then have "cell_inv c" by simp
  from cell_metrics_add(1) [OF this] Cons show ?case by (simp add: add.assoc)
qed

text \<open>The contents of the cells are disjoint, so the sums over the cells count the contents of the cache.\<close>

lemma cache_sum:
  assumes inv: "cache_inv cache"
  shows "(\<Sum>ck \<in> dom (cache_map cache). f ck (cache_map cache ck)) =
     sum_list (map (\<lambda>c. \<Sum>ck \<in> dom (cell_map c). f ck (cell_map c ck)) (cells_of cache))"
proof -
  let ?cs = "cells_of cache"
  let ?A = "\<lambda>i. dom (cell_map (?cs ! i))"
  have placed: "cell_index cache ck = i" if "i < length ?cs" "ck \<in> ?A i" for i ck
    using inv that unfolding cache_inv_def by blast
  have dom: "dom (cache_map cache) = (\<Union>i \<in> {..<length ?cs}. ?A i)"
  proof
    show "dom (cache_map cache) \<subseteq> (\<Union>i \<in> {..<length ?cs}. ?A i)"
    proof
      fix ck assume "ck \<in> dom (cache_map cache)"
      then have "ck \<in> ?A (cell_index cache ck)" by (simp add: cache_map_def domIff)
      then show "ck \<in> (\<Union>i \<in> {..<length ?cs}. ?A i)" using cache_invD(3) [OF inv, of ck] by blast
    qed
    show "(\<Union>i \<in> {..<length ?cs}. ?A i) \<subseteq> dom (cache_map cache)"
    proof
      fix ck assume "ck \<in> (\<Union>i \<in> {..<length ?cs}. ?A i)"
      then obtain i where i: "i < length ?cs" "ck \<in> ?A i" by blast
      then show "ck \<in> dom (cache_map cache)" using placed [OF i] by (simp add: cache_map_def domIff)
    qed
  qed
  have fin: "finite (?A i)" if "i < length ?cs" for i
  proof -
    have "cell_inv (?cs ! i)" using inv that by (simp add: cache_inv_def)
    then show ?thesis using cell_map_dom by (metis cell_invD finite_imageI List.finite_set)
  qed
  have "(\<Sum>ck \<in> dom (cache_map cache). f ck (cache_map cache ck)) =
      (\<Sum>i<length ?cs. \<Sum>ck \<in> ?A i. f ck (cache_map cache ck))"
    unfolding dom using fin placed by (intro sum.UNION_disjoint) blast+
  also have "\<dots> = (\<Sum>i<length ?cs. \<Sum>ck \<in> ?A i. f ck (cell_map (?cs ! i) ck))"
    using placed by (intro sum.cong refl) (simp add: cache_map_def)
  also have "\<dots> = sum_list (map (\<lambda>c. \<Sum>ck \<in> dom (cell_map c). f ck (cell_map c ck)) ?cs)"
    by (simp add: sum_list_sum_nth atLeast0LessThan)
  finally show ?thesis .
qed

lemma sum_list_bound: "(\<And>x. x \<in> set xs \<Longrightarrow> g x \<le> (k :: nat)) \<Longrightarrow> sum_list (map g xs) \<le> k * length xs"
  by (induction xs) (auto simp: add_mono)

text \<open>C34: the metrics of a cache are the number of chunks it holds and the number of their bytes, without wrap-around.\<close>

theorem cache_metrics_exact:
  assumes "cache_inv cache"
  shows "\<exists>metrics. cache_get_metrics cache = Inr (metrics, cache) \<and>
     unat (met_entry_count metrics) = card (dom (cache_map cache)) \<and>
     unat (met_byte_count metrics) = (\<Sum>ck \<in> dom (cache_map cache). length (the (cache_map cache ck)))"
proof -
  let ?cs = "cells_of cache"
  let ?m = "\<lparr>met_byte_count = of_nat (sum_list (map cell_bytes ?cs)), met_entry_count = of_nat (sum_list (map cell_chunks ?cs))\<rparr>"
  have inv: "\<forall>c \<in> set ?cs. cell_inv c" and len: "length ?cs = unat (cell_count (cache_header cache))" "length ?cs < 2 ^ 44"
    and cs: "cache_cells cache = Some ?cs"
    using assms by (auto simp: cache_inv_def cells_of_def split: option.splits)
  have res: "cache_get_metrics cache = Inr (?m, cache)"
    using metrics_cells_sum [OF inv len(1) [symmetric]] cs
    by (simp add: cache_get_metrics_def cache_metrics_init_def)
  have "sum_list (map cell_bytes ?cs) \<le> 1019872 * length ?cs"
    using inv cell_metrics_add(2) by (intro sum_list_bound) blast
  moreover have "sum_list (map cell_chunks ?cs) \<le> 4095 * length ?cs"
    using inv cell_metrics_add(3) by (intro sum_list_bound) (blast intro: less_imp_le)
  ultimately have small: "sum_list (map cell_bytes ?cs) < 18446744073709551616"
      "sum_list (map cell_chunks ?cs) < 18446744073709551616"
    using len(2) by simp_all
  have "card (dom (cache_map cache)) = sum_list (map cell_chunks ?cs)"
    using cache_sum [OF assms, of "\<lambda>_ _. 1 :: nat"] by (simp add: cell_chunks_def [abs_def])
  moreover have "(\<Sum>ck \<in> dom (cache_map cache). length (the (cache_map cache ck))) = sum_list (map cell_bytes ?cs)"
    using cache_sum [OF assms, of "\<lambda>_ v. length (the v)"] by (simp add: cell_bytes_def [abs_def])
  ultimately show ?thesis using res small by (auto simp: word_nat)
qed

section \<open>Opening a new buffer\<close>

text \<open>
  A buffer without the cache magic is opened like one that holds an empty cache with all slabs damaged.
\<close>

definition empty_cache :: "nat \<Rightarrow> cell \<Rightarrow> cache" where
  "empty_cache n c = \<lparr>cache_cells = Some (replicate n c),
     cache_header = \<lparr>cache_magic = CACHE_HEADER_MAGIC, cell_count = of_nat n\<rparr>,
     cache_buffer = 0, cache_buffer_size = 0\<rparr>"

lemma empty_cache_inv:
  assumes "cell_inv c" "slab_size c = of_nat CACHE_CELL_SIZE" "cell_map c = Map.empty" "1 \<le> n" "n < 2 ^ 44"
  shows "cache_inv (empty_cache n c)" "cells_of (empty_cache n c) = replicate n c"
  using assms by (simp_all add: cache_inv_def empty_cache_def cells_of_def word_nat)

lemma cache_init_new_header:
  assumes "cache_magic h \<noteq> CACHE_HEADER_MAGIC" "size_for sz n"
  shows "cache_init h slots sz = cache_init \<lparr>cache_magic = CACHE_HEADER_MAGIC, cell_count = of_nat n\<rparr> slots sz"
proof -
  have "sz div of_nat CACHE_CELL_SIZE - 1 = of_nat n"
    unfolding word_unat_eq_iff using size_for_slots(2,4) [OF assms(2)] by (simp add: word_nat)
  then show ?thesis using assms(1) by (cases h) (simp add: cache_init_def Let_def cache_header_init_def)
qed

lemma open_new:
  assumes "cache_magic h \<noteq> CACHE_HEADER_MAGIC" "\<forall>slot \<in> set slots. \<not> cell_header_sane (fst slot)"
    and sz: "size_for sz (length slots)"
  obtains cache where "cache_init h slots sz = Inr cache" "cache_inv cache" "cache_map cache = Map.empty"
proof -
  let ?n = "length slots"
  from cell_init_insane [OF blank_header_insane geometry_slab, of "\<lambda>_. 0"] obtain c where
    c: "cell_inv c" "cell_map c = Map.empty" "slab_size c = of_nat CACHE_CELL_SIZE" by metis
  have n: "1 \<le> ?n" "?n < 2 ^ 44" using sz size_for_slots(4) [OF sz] by (simp_all add: size_for_def)
  note e = empty_cache_inv [OF c(1,3,2) n]
  have "image_of (empty_cache ?n c) UNIV slots" using assms(2) e(2) by (simp add: image_of_def)
  moreover have "size_for sz (length (cells_of (empty_cache ?n c)))" using sz e(2) by simp
  ultimately obtain cache where
    o: "cache_init (cache_header (empty_cache ?n c)) slots sz = Inr cache" "cache_inv cache"
      "\<And>ck. cache_map cache ck = (if cell_index (empty_cache ?n c) ck \<in> UNIV then None
         else cache_map (empty_cache ?n c) ck)"
    using open_image [OF e(1)] by metis
  have "cache_init h slots sz = Inr cache"
    using o(1) cache_init_new_header [OF assms(1) sz] by (simp add: empty_cache_def)
  moreover have "cache_map cache = Map.empty" using o(3) by auto
  ultimately show ?thesis using that o(2) by blast
qed

section \<open>The life of a cache\<close>

text \<open>
  \<open>P ck d\<close> is what the callers guarantee of the chunks they add, for example that \<open>ck\<close> is the digest of
  \<open>d\<close>.  Reopening may find any set of slabs damaged by interrupted updates.
\<close>

inductive cache_reachable :: "(checksum \<Rightarrow> u8 list \<Rightarrow> bool) \<Rightarrow> cache \<Rightarrow> bool" for P where
  create: "cache_magic h \<noteq> CACHE_HEADER_MAGIC \<Longrightarrow> \<forall>slot \<in> set slots. \<not> cell_header_sane (fst slot) \<Longrightarrow>
    size_for sz (length slots) \<Longrightarrow> cache_init h slots sz = Inr cache \<Longrightarrow> cache_reachable P cache"
| add: "cache_reachable P cache \<Longrightarrow> chunk_ok ck buffer bs \<Longrightarrow> P ck (take (unat bs) buffer) \<Longrightarrow>
    cache_add_chunk cache ck buffer bs = Inr (b, cache') \<Longrightarrow> cache_reachable P cache'"
| get: "cache_reachable P cache \<Longrightarrow> wf_checksum ck \<Longrightarrow> wf_chunk ch \<Longrightarrow>
    cache_get_chunk cache ck ch = Inr (b, cache', ch') \<Longrightarrow> cache_reachable P cache'"
| reopen: "cache_reachable P cache \<Longrightarrow> image_of cache damaged slots \<Longrightarrow> size_for sz (length slots) \<Longrightarrow>
    cache_init (cache_header cache) slots sz = Inr cache' \<Longrightarrow> cache_reachable P cache'"

lemma reachable_cache_holds:
  assumes "cache_reachable P cache"
  shows "cache_inv cache \<and> caches.holds_only P cache"
  using assms
proof (induction rule: cache_reachable.induct)
  case (create h slots sz cache)
  from open_new [OF create(1-3)] create(4) have "cache_inv cache" "cache_map cache = Map.empty" by (metis sum.inject(2))+
  then show ?case by (simp add: caches.holds_only_def)
next
  case (add cache ck buffer bs b cache')
  then show ?case using caches.success_inv(1) caches.holds_only_add by blast
next
  case (get cache ck ch b cache' ch')
  then have "cache' = cache"
    using caches.store_get_known [of cache ck ch] caches.store_get_unknown [of cache ck ch]
    by (cases "cache_map cache ck") auto
  then show ?case using get by simp
next
  case (reopen cache damaged slots sz cache')
  then have sz: "size_for sz (length (cells_of cache))" by (simp add: image_of_def)
  from reopen have inv: "cache_inv cache" and P: "caches.holds_only P cache" by blast+
  from open_image [OF inv reopen(2) sz] reopen(4) have "cache_inv cache'"
    "\<And>ck. cache_map cache' ck = (if cell_index cache ck \<in> damaged then None else cache_map cache ck)"
    by (metis sum.inject(2))+
  then show ?case using P by (simp add: caches.holds_only_def)
qed

section \<open>Properties of the cache\<close>

text \<open>A cache of two megabytes, one cell, for the witnesses.\<close>

lemma two_megabytes: "size_for 2097152 1"
  by (simp add: size_for_def CACHE_CELL_SIZE_def)

definition blank_cache_header :: cache_header where
  "blank_cache_header = \<lparr>cache_magic = 0, cell_count = 0\<rparr>"

lemma blank_cache:
  obtains cache where "cache_init blank_cache_header [(blank_header, \<lambda>_. 0)] 2097152 = Inr cache"
    "cache_inv cache" "cache_map cache = Map.empty" "cache_reachable P cache"
proof -
  have m: "cache_magic blank_cache_header \<noteq> CACHE_HEADER_MAGIC"
    by (simp add: blank_cache_header_def CACHE_HEADER_MAGIC_def)
  have s: "\<forall>slot \<in> set [(blank_header, \<lambda>_. 0 :: u8)]. \<not> cell_header_sane (fst slot)"
    using blank_header_insane by simp
  have z: "size_for 2097152 (length [(blank_header, \<lambda>_ :: nat. 0 :: u8)])" using two_megabytes by simp
  from open_new [OF m s z] obtain cache where
    "cache_init blank_cache_header [(blank_header, \<lambda>_. 0)] 2097152 = Inr cache"
    "cache_inv cache" "cache_map cache = Map.empty" .
  with cache_reachable.create [OF m s z] show ?thesis using that by blast
qed

text \<open>A buffer that was never a cache is opened as an empty one, one cell per megabyte but the first.\<close>

theorem cache_opens_new:
  assumes "cache_magic h \<noteq> CACHE_HEADER_MAGIC" "\<forall>slot \<in> set slots. \<not> cell_header_sane (fst slot)"
    and "size_for sz (length slots)"
  shows "\<exists>cache. cache_init h slots sz = Inr cache \<and> cache_inv cache \<and> cache_map cache = Map.empty"
  using open_new [OF assms] by metis

theorem cache_opens_new_witness:
  "\<exists>cache. cache_init blank_cache_header [(blank_header, \<lambda>_. 0)] 2097152 = Inr cache \<and> cache_inv cache \<and>
     cache_map cache = Map.empty"
  using cache_opens_new [of blank_cache_header "[(blank_header, \<lambda>_. 0)]" 2097152] blank_header_insane two_megabytes
  by (simp add: blank_cache_header_def CACHE_HEADER_MAGIC_def)

text \<open>
  C28: a cache that is opened again has exactly the chunks it had, except those of the cells on which an
  update was interrupted; damage to one cell costs no chunk of another.
\<close>

theorem cache_reopen_isolates_damage:
  assumes "cache_inv cache" "image_of cache damaged slots" "size_for sz (length (cells_of cache))"
  shows "\<exists>cache'. cache_init (cache_header cache) slots sz = Inr cache' \<and> cache_inv cache' \<and>
     (\<forall>ck. cache_map cache' ck = (if cell_index cache ck \<in> damaged then None else cache_map cache ck))"
  using open_image [OF assms] by metis

theorem cache_reopen_isolates_damage_witness:
  "\<exists>cache cache'. cache_inv cache \<and>
     cache_init (cache_header cache) (map (\<lambda>c. (cell_header c, slab c)) (cells_of cache)) 2097152 = Inr cache' \<and>
     cache_map cache' = cache_map cache"
proof -
  obtain cache where c: "cache_init blank_cache_header [(blank_header, \<lambda>_. 0)] 2097152 = Inr cache" "cache_inv cache"
    using blank_cache [of "\<lambda>_ _. True"] by metis
  have "size_for 2097152 (length (cells_of cache))"
    using c(1) two_megabytes
    by (auto simp: cache_init_def Let_def rbind_eq_Inr ALWAYS_eq_Inr CACHE_CELL_SIZE_def cells_of_def)
  moreover have "image_of cache {} (map (\<lambda>c. (cell_header c, slab c)) (cells_of cache))" by (simp add: image_of_def)
  ultimately show ?thesis using cache_reopen_isolates_damage [OF c(2), of "{}"] c(2) by (fastforce intro: ext)
qed

text \<open>
  C27: adding a new chunk to a cache, if it returns, returns true; nothing appears but the new chunk, and
  nothing that stays has other bytes.  It returns unless the selected cell is in the state its code aborts on.
\<close>

theorem cache_add_chunk_refines:
  assumes "cache_inv cache" "chunk_ok ck buffer bs" "cache_map cache ck = None"
  shows "(if cache_safe cache ck bs then
     \<exists>cache'. cache_add_chunk cache ck buffer bs = Inr (True, cache') \<and> cache_inv cache' \<and>
       cache_map cache' \<subseteq>\<^sub>m (cache_map cache)(ck \<mapsto> take (unat bs) buffer)
     else cache_add_chunk cache ck buffer bs = Inl AssertFailed)"
  using caches.store_add_new [OF assms] caches.store_add_unsafe [OF assms] by simp

theorem cache_add_chunk_refines_witness:
  "\<exists>cache. cache_inv cache \<and> (if cache_safe cache sample_checksum 214 then
     \<exists>cache'. cache_add_chunk cache sample_checksum sample_buffer 214 = Inr (True, cache') \<and> cache_inv cache' \<and>
       cache_map cache' \<subseteq>\<^sub>m (cache_map cache)(sample_checksum \<mapsto> take (unat (214 :: u32)) sample_buffer)
     else cache_add_chunk cache sample_checksum sample_buffer 214 = Inl AssertFailed)"
proof -
  obtain cache where c: "cache_inv cache" "cache_map cache = Map.empty" using blank_cache [of "\<lambda>_ _. True"] by metis
  then have "cache_map cache sample_checksum = None" by simp
  from cache_add_chunk_refines [OF c(1) sample_ok(1) this] c(1) show ?thesis by blast
qed

text \<open>
  C21: end-to-end integrity.  If every chunk that was ever added had the property \<open>P\<close>, say that its
  checksum is the digest of its bytes, then through all evictions, reopenings and crashes every chunk a
  successful lookup hands out has it, under the checksum that was asked for.
\<close>

theorem cache_get_integrity:
  assumes "cache_reachable P cache" "wf_checksum ck" "wf_chunk ch"
    and "cache_get_chunk cache ck ch = Inr (True, cache', ch')"
  shows "P ck (chunk_data ch') \<and> ch_checksum ch' = ck \<and> cache' = cache"
proof -
  have "cache_inv cache" "caches.holds_only P cache" using reachable_cache_holds [OF assms(1)] by blast+
  from caches.get_holds [OF this(1) assms(2,3) this(2) assms(4)] show ?thesis .
qed

text \<open>A cache that holds the sample chunk, reached by adding it.\<close>

lemma one_cell:
  assumes "cache_init blank_cache_header [(blank_header, \<lambda>_. 0)] 2097152 = Inr cache"
  obtains c where "cell_init blank_header (\<lambda>_. 0) 1048576 = Inr c" "cells_of cache = [c]"
  using assms by (auto simp: cache_init_def Let_def rbind_eq_Inr ALWAYS_eq_Inr CACHE_CELL_SIZE_def cells_of_def)

lemma cache_with:
  assumes ck: "chunk_ok ck sample_buffer 214" and "P ck sample_buffer"
  obtains cache where "cache_reachable P cache" "cache_map cache ck = Some sample_buffer"
    "length (cells_of cache) = 1"
proof -
  obtain cache where c: "cache_init blank_cache_header [(blank_header, \<lambda>_. 0)] 2097152 = Inr cache" "cache_inv cache"
    "cache_map cache = Map.empty" "cache_reachable P cache" using blank_cache [of P] by metis
  from one_cell [OF c(1)] obtain cell where cell: "cell_init blank_header (\<lambda>_. 0) 1048576 = Inr cell" "cells_of cache = [cell]" .
  obtain cell' where "cell_init blank_header (\<lambda>_. 0) 1048576 = Inr cell'" "cell_inv cell'" "append_fits cell' 214"
    "cell_map cell' = Map.empty" using blank_cell by metis
  with cell(1) have b: "cell_inv cell" "append_fits cell 214" "cell_map cell = Map.empty" by auto
  then obtain its where "addable cell its ck sample_buffer 214"
    using ck by (auto simp: cell_inv_def addable_def)
  from add_chunk_append [OF this b(2)] obtain c' where
    c': "cell_add_chunk cell ck sample_buffer 214 = Inr (True, c')"
    "cell_map c' = (cell_map cell)(ck \<mapsto> take (unat (214 :: u32)) sample_buffer)" by metis
  note d = cache_invD [OF c(2), of ck]
  have i: "cell_index cache ck = 0" using d(3) cell(2) by simp
  let ?cache = "set_cache_cell cache 0 c'"
  have "cache_add_chunk cache ck sample_buffer 214 = Inr (True, ?cache)"
    using d(1,2) c'(1) i cell(2) by (simp add: cache_add_chunk_def)
  moreover have "P ck (take (unat (214 :: u32)) sample_buffer)" using assms(2) by (simp add: sample_buffer_def)
  ultimately have "cache_reachable P ?cache" using cache_reachable.add [OF c(4) ck] by blast
  moreover have "cache_map ?cache ck = Some sample_buffer"
    using c'(2) i cell(2) by (simp add: cache_map_def sample_buffer_def)
  moreover have "length (cells_of ?cache) = 1" using cell(2) by simp
  ultimately show ?thesis using that by blast
qed

lemma sample_cache:
  assumes "P sample_checksum sample_buffer"
  obtains cache where "cache_reachable P cache" "cache_map cache sample_checksum = Some sample_buffer"
    "length (cells_of cache) = 1"
  using cache_with [of sample_checksum P] sample_ok(1) assms by metis

theorem cache_get_integrity_witness:
  "\<exists>cache ch'. cache_get_chunk cache sample_checksum chunk_init = Inr (True, cache, ch') \<and>
     length (chunk_data ch') = 214"
proof -
  obtain cache where c: "cache_reachable (\<lambda>_ d. length d = 214) cache" "cache_map cache sample_checksum = Some sample_buffer"
    using sample_cache [of "\<lambda>_ d. length d = 214"] by (auto simp: sample_buffer_def)
  have "cache_inv cache" using reachable_cache_holds [OF c(1)] by blast
  from caches.store_get_known [OF this sample_ok(2) wf_chunk_init c(2)] obtain ch' where
    g: "cache_get_chunk cache sample_checksum chunk_init = Inr (True, cache, ch')" by blast
  from cache_get_integrity [OF c(1) sample_ok(2) wf_chunk_init g] g show ?thesis by blast
qed

theorem cache_metrics_exact_witness:
  "\<exists>cache metrics. cache_get_metrics cache = Inr (metrics, cache) \<and> unat (met_entry_count metrics) = 1 \<and>
     unat (met_byte_count metrics) = 214"
proof -
  let ?P = "\<lambda>ck d. ck = sample_checksum"
  obtain cache where c: "cache_reachable ?P cache" "cache_map cache sample_checksum = Some sample_buffer"
    using sample_cache [of ?P] by metis
  have i: "cache_inv cache" "caches.holds_only ?P cache" using reachable_cache_holds [OF c(1)] by blast+
  have "dom (cache_map cache) = {sample_checksum}" using i(2) c(2) by (auto simp: caches.holds_only_def)
  moreover have "length sample_buffer = 214" by (simp add: sample_buffer_def)
  ultimately show ?thesis using cache_metrics_exact [OF i(1)] c(2) by auto
qed

end
