(* ===== verification/Msys.thy ===== *)
theory Msys
  imports Cache
begin

text \<open>
  \<^verbatim>\<open>msys.h\<close>, \<^verbatim>\<open>msys.c\<close>: the wrappers of the system calls.  The operating system is not part of the
  repository: the record \<open>os\<close> holds its calls as functions on a state \<open>'w\<close>, of which every theorem names
  what it relies on.  Return codes and file descriptors are C integers; the flag values are those of
  Linux, and none of the theorems depends on them.
\<close>

definition O_RDWR :: int where "O_RDWR = 2"
definition O_CREAT :: int where "O_CREAT = 64"
definition S_IRUSR :: int where "S_IRUSR = 256"
definition S_IWUSR :: int where "S_IWUSR = 128"
definition PROT_READ :: int where "PROT_READ = 1"
definition PROT_WRITE :: int where "PROT_WRITE = 2"
definition MAP_SHARED_VALIDATE :: int where "MAP_SHARED_VALIDATE = 3"
definition MAP_SYNC :: int where "MAP_SYNC = 524288"
definition EOPNOTSUPP :: int where "EOPNOTSUPP = 95"

text \<open>
  What \<^verbatim>\<open>mmap\<close> returns: an address and what the file holds there, seen as the buffer of a cache (its
  header and its slabs), or \<^verbatim>\<open>MAP_FAILED\<close> with the value of \<^verbatim>\<open>errno\<close>.  Of \<^verbatim>\<open>struct stat\<close> only the size is
  used.
\<close>

datatype mmap_result = Mapped u64 "Cache.cache_header" "slot list" | MapFailed int

record 'w os =
  os_access :: "string \<Rightarrow> int \<Rightarrow> 'w \<Rightarrow> int \<times> 'w"
  os_remove :: "string \<Rightarrow> 'w \<Rightarrow> int \<times> 'w"
  os_open :: "string \<Rightarrow> int \<Rightarrow> int \<Rightarrow> 'w \<Rightarrow> int \<times> 'w"
  os_stat :: "string \<Rightarrow> 'w \<Rightarrow> (int \<times> int) \<times> 'w"
  os_write :: "int \<Rightarrow> u8 list \<Rightarrow> 'w \<Rightarrow> int \<times> 'w"
  os_close :: "int \<Rightarrow> 'w \<Rightarrow> int \<times> 'w"
  os_fsync :: "int \<Rightarrow> 'w \<Rightarrow> int \<times> 'w"
  os_mmap :: "u64 \<Rightarrow> u64 \<Rightarrow> int \<Rightarrow> int \<Rightarrow> int \<Rightarrow> int \<Rightarrow> 'w \<Rightarrow> mmap_result \<times> 'w"
  os_munmap :: "u64 \<Rightarrow> u64 \<Rightarrow> 'w \<Rightarrow> int \<times> 'w"

definition msys_access :: "'w os \<Rightarrow> string \<Rightarrow> int \<Rightarrow> 'w \<Rightarrow> int \<times> 'w" where
  "msys_access os pathname mode = os_access os pathname mode"

definition msys_unlink :: "'w os \<Rightarrow> string \<Rightarrow> 'w \<Rightarrow> int \<times> 'w" where
  "msys_unlink os pathname = os_remove os pathname"

definition msys_open :: "'w os \<Rightarrow> string \<Rightarrow> int \<Rightarrow> 'w \<Rightarrow> int \<times> 'w" where
  "msys_open os pathname flags = os_open os pathname flags (S_IRUSR OR S_IWUSR)"

definition msys_stat :: "'w os \<Rightarrow> string \<Rightarrow> 'w \<Rightarrow> (int \<times> int) \<times> 'w" where
  "msys_stat os path = os_stat os path"

definition msys_write :: "'w os \<Rightarrow> int \<Rightarrow> u8 list \<Rightarrow> 'w \<Rightarrow> int \<times> 'w" where
  "msys_write os fd buf = os_write os fd buf"

definition msys_close :: "'w os \<Rightarrow> int \<Rightarrow> 'w \<Rightarrow> int \<times> 'w" where
  "msys_close os fd = os_close os fd"

definition msys_fsync :: "'w os \<Rightarrow> int \<Rightarrow> 'w \<Rightarrow> int \<times> 'w" where
  "msys_fsync os fd = os_fsync os fd"

definition msys_mmap :: "'w os \<Rightarrow> u64 \<Rightarrow> u64 \<Rightarrow> int \<Rightarrow> int \<Rightarrow> int \<Rightarrow> int \<Rightarrow> 'w \<Rightarrow> mmap_result \<times> 'w" where
  "msys_mmap os addr len prot flags fd offset = os_mmap os addr len prot flags fd offset"

definition msys_munmap :: "'w os \<Rightarrow> u64 \<Rightarrow> u64 \<Rightarrow> 'w \<Rightarrow> int \<times> 'w" where
  "msys_munmap os addr len = os_munmap os addr len"

lemmas msys_defs = msys_access_def msys_unlink_def msys_open_def msys_stat_def msys_write_def msys_close_def
  msys_fsync_def msys_mmap_def msys_munmap_def

end
