(* ===== verification/Cache_Manager.thy ===== *)
theory Cache_Manager
  imports Msys
begin

text \<open>
  \<^verbatim>\<open>cache_manager.h\<close>, \<^verbatim>\<open>cache_manager.c\<close>: a cache in a memory-mapped file.  The buffer of zeros that \<^verbatim>\<open>xmalloc\<close>
  allocates is a list here; \<^verbatim>\<open>Xmalloc\<close> adds the heap.
\<close>

definition CACHE_MANAGER_MB :: nat where
  "CACHE_MANAGER_MB = 1048576"

record cache_manager =
  mgr_cache :: cache
  mgr_ptr :: u64
  mgr_memory_size :: u64
  mgr_fd :: int
  mgr_dax :: int

text \<open>\<open>mgr_ptr\<close> is the address of the mapping, 0 for the null pointer.\<close>

definition zero_cache :: cache where
  "zero_cache = \<lparr>cache_cells = None, cache_header = \<lparr>cache_magic = 0, cell_count = 0\<rparr>,
     cache_buffer = 0, cache_buffer_size = 0\<rparr>"

definition cache_manager_init :: cache_manager where
  "cache_manager_init = \<lparr>mgr_cache = zero_cache, mgr_ptr = 0, mgr_memory_size = 0, mgr_fd = -1, mgr_dax = 0\<rparr>"

definition cache_manager_filesize :: "u64 \<Rightarrow> u64" where
  "cache_manager_filesize requested_size =
     (let mb = requested_size div of_nat CACHE_MANAGER_MB in (mb + 1) * of_nat CACHE_MANAGER_MB)"

section \<open>Creating the file\<close>

text \<open>
  The inner loop, one megabyte of zeros: it ends only when enough has been written or a write fails, so a
  device that keeps writing nothing keeps it going for ever; that is the value \<open>None\<close>.  The result of
  \<^verbatim>\<open>write\<close>, a \<^verbatim>\<open>ssize_t\<close>, is kept in an \<^verbatim>\<open>int\<close>.
\<close>

definition as_int :: "int \<Rightarrow> int" where
  "as_int n = signed_take_bit 31 n"

lemma as_int_small: "- (2 ^ 31) \<le> n \<Longrightarrow> n < 2 ^ 31 \<Longrightarrow> as_int n = n"
  unfolding as_int_def by (rule signed_take_bit_int_eq_self) simp_all

partial_function (option) write_megabyte :: "'w os \<Rightarrow> int \<Rightarrow> u64 \<Rightarrow> 'w \<Rightarrow> (int \<times> 'w) option" where
  "write_megabyte os fd written w =
     (case msys_write os fd (replicate (unat (of_nat CACHE_MANAGER_MB - written)) 0) w of
        (ret, w1) \<Rightarrow>
          let ret_t = as_int ret in
          if ret_t < 0 then Some (-1, w1)
          else let written1 = written + of_int ret_t in
            if written1 < of_nat CACHE_MANAGER_MB then write_megabyte os fd written1 w1
            else Some (0, w1))"

fun write_megabytes :: "nat \<Rightarrow> 'w os \<Rightarrow> int \<Rightarrow> 'w \<Rightarrow> (int \<times> 'w) option" where
  "write_megabytes 0 os fd w = Some (0, w)"
| "write_megabytes (Suc n) os fd w =
     (case write_megabyte os fd 0 w of
        None \<Rightarrow> None
      | Some (ret, w1) \<Rightarrow> if ret = 0 then write_megabytes n os fd w1 else Some (ret, w1))"

definition cache_manager_create_file ::
    "'w os \<Rightarrow> string \<Rightarrow> u64 \<Rightarrow> 'w \<Rightarrow> (int \<times> 'w) result option" where
  "cache_manager_create_file os filename sz w =
     (case msys_open os filename (O_RDWR OR O_CREAT) w of
        (fd, w1) \<Rightarrow>
          if fd < 0 then Some (Inr (-1, w1))
          else (case write_megabytes (unat (sz div of_nat CACHE_MANAGER_MB)) os fd w1 of
             None \<Rightarrow> None
           | Some (ret, w2) \<Rightarrow>
               let (synced, w3) = (if ret = 0 then (case msys_fsync os fd w2 of (r, w') \<Rightarrow> (r = 0, w'))
                                   else (True, w2)) in
               Some (ALWAYS synced
                 (case msys_close os fd w3 of (r, w4) \<Rightarrow> ALWAYS (r = 0) (Inr (ret, w4))))))"

definition cache_manager_check_file ::
    "'w os \<Rightarrow> string \<Rightarrow> u64 \<Rightarrow> 'w \<Rightarrow> (int \<times> 'w) result option" where
  "cache_manager_check_file os filename required_size w =
     (case msys_stat os filename w of
        ((ret_t, st_size), w1) \<Rightarrow>
          if ret_t \<noteq> 0 then cache_manager_create_file os filename required_size w1
          else if st_size \<noteq> sint required_size then
            (case msys_unlink os filename w1 of
               (ret_u, w2) \<Rightarrow>
                 if ret_u \<noteq> 0 then Some (Inr (ret_u, w2))
                 else cache_manager_create_file os filename required_size w2)
          else Some (Inr (0, w1)))"

section \<open>Opening and releasing\<close>

definition cache_manager_release ::
    "'w os \<Rightarrow> cache_manager \<Rightarrow> 'w \<Rightarrow> (cache_manager \<times> 'w) result" where
  "cache_manager_release os mgr w =
     rbind (cache_release (mgr_cache mgr)) (\<lambda>cache1.
     let mgr1 = mgr\<lparr>mgr_cache := cache1\<rparr> in
     rbind (if mgr_ptr mgr1 \<noteq> 0 then
              (case msys_munmap os (mgr_ptr mgr1) (mgr_memory_size mgr1) w of
                 (r, w1) \<Rightarrow> ALWAYS (r = 0) (Inr (mgr1\<lparr>mgr_ptr := 0\<rparr>, w1)))
            else Inr (mgr1, w)) (\<lambda>(mgr2, w2).
     if mgr_fd mgr2 \<noteq> -1 then
       (case msys_close os (mgr_fd mgr2) w2 of
          (r, w3) \<Rightarrow> ALWAYS (r = 0) (Inr (mgr2\<lparr>mgr_fd := -1\<rparr>, w3)))
     else Inr (mgr2, w2)))"

text \<open>The two attempts at \<^verbatim>\<open>mmap\<close>: with \<^verbatim>\<open>MAP_SYNC\<close>, and without when that is not supported.\<close>

definition map_file :: "'w os \<Rightarrow> u64 \<Rightarrow> int \<Rightarrow> 'w \<Rightarrow> (int \<times> u64 \<times> Cache.cache_header \<times> slot list) option \<times> 'w" where
  "map_file os sz fd w =
     (case msys_mmap os 0 sz (PROT_READ OR PROT_WRITE) (MAP_SHARED_VALIDATE OR MAP_SYNC) fd 0 w of
        (Mapped ptr header slots, w1) \<Rightarrow> (Some (1, ptr, header, slots), w1)
      | (MapFailed errno, w1) \<Rightarrow>
          if errno = EOPNOTSUPP then
            (case msys_mmap os 0 sz (PROT_READ OR PROT_WRITE) MAP_SHARED_VALIDATE fd 0 w1 of
               (Mapped ptr header slots, w2) \<Rightarrow> (Some (0, ptr, header, slots), w2)
             | (MapFailed _, w2) \<Rightarrow> (None, w2))
          else (None, w1))"

definition cache_manager_open_cache ::
    "'w os \<Rightarrow> cache_manager \<Rightarrow> string \<Rightarrow> u64 \<Rightarrow> 'w \<Rightarrow> (int \<times> cache_manager \<times> 'w) result option" where
  "cache_manager_open_cache os mgr filename sz w =
     (let mgr1 = mgr\<lparr>mgr_memory_size := cache_manager_filesize sz\<rparr> in
      case cache_manager_check_file os filename (mgr_memory_size mgr1) w of
        None \<Rightarrow> None
      | Some res \<Rightarrow> Some
          (rbind res (\<lambda>(ret_t, w1).
           if ret_t \<noteq> 0 then Inr (ret_t, mgr1, w1)
           else
             case msys_open os filename O_RDWR w1 of
               (fd, w2) \<Rightarrow>
                 let mgr2 = mgr1\<lparr>mgr_fd := fd\<rparr> in
                 if fd < 0 then Inr (fd, mgr2, w2)
                 else (case map_file os (mgr_memory_size mgr2) fd w2 of
                    (None, w3) \<Rightarrow>
                      rbind (cache_manager_release os mgr2 w3) (\<lambda>(mgr3, w4). Inr (-1, mgr3, w4))
                  | (Some (dax, ptr, header, slots), w3) \<Rightarrow>
                      let mgr3 = mgr2\<lparr>mgr_dax := (if dax = 1 then 1 else mgr_dax mgr2), mgr_ptr := ptr\<rparr> in
                      rbind (cache_init header slots (mgr_memory_size mgr3)) (\<lambda>cache.
                      Inr (0, mgr3\<lparr>mgr_cache := cache\<rparr>, w3))))))"

section \<open>Chunks\<close>

definition cache_manager_add_chunk ::
    "cache_manager \<Rightarrow> checksum \<Rightarrow> u8 list \<Rightarrow> u32 \<Rightarrow> (bool \<times> cache_manager) result" where
  "cache_manager_add_chunk mgr checksum buffer buffer_size =
     rbind (cache_add_chunk (mgr_cache mgr) checksum buffer buffer_size)
       (\<lambda>(ret, cache). Inr (ret, mgr\<lparr>mgr_cache := cache\<rparr>))"

definition cache_manager_has_chunk :: "cache_manager \<Rightarrow> checksum \<Rightarrow> (bool \<times> cache_manager) result" where
  "cache_manager_has_chunk mgr checksum =
     rbind (cache_has_chunk (mgr_cache mgr) checksum) (\<lambda>(ret, cache). Inr (ret, mgr\<lparr>mgr_cache := cache\<rparr>))"

definition cache_manager_get_chunk ::
    "cache_manager \<Rightarrow> checksum \<Rightarrow> chunk \<Rightarrow> (bool \<times> cache_manager \<times> chunk) result" where
  "cache_manager_get_chunk mgr checksum chunk =
     rbind (cache_get_chunk (mgr_cache mgr) checksum chunk)
       (\<lambda>(ret, cache, chunk'). Inr (ret, mgr\<lparr>mgr_cache := cache\<rparr>, chunk'))"

definition cache_manager_cache_metrics :: "cache_manager \<Rightarrow> (cache_metrics \<times> cache_manager) result" where
  "cache_manager_cache_metrics mgr =
     rbind (cache_get_metrics (mgr_cache mgr)) (\<lambda>(metrics, cache). Inr (metrics, mgr\<lparr>mgr_cache := cache\<rparr>))"

text \<open>The manager is a chunk store because its cache is one.\<close>

definition mgr_inv :: "cache_manager \<Rightarrow> bool" where
  "mgr_inv mgr \<longleftrightarrow> cache_inv (mgr_cache mgr)"

definition mgr_map :: "cache_manager \<Rightarrow> checksum \<Rightarrow> u8 list option" where
  "mgr_map mgr = cache_map (mgr_cache mgr)"

definition mgr_safe :: "cache_manager \<Rightarrow> checksum \<Rightarrow> u32 \<Rightarrow> bool" where
  "mgr_safe mgr = cache_safe (mgr_cache mgr)"

interpretation managers: chunk_store mgr_inv mgr_map mgr_safe
    cache_manager_add_chunk cache_manager_has_chunk cache_manager_get_chunk
proof (unfold_locales, goal_cases)
  case (1 s ck buffer bs)
  then show ?case using caches.store_add_known [of "mgr_cache s" ck buffer bs]
    by (simp add: mgr_inv_def mgr_map_def cache_manager_add_chunk_def)
next
  case (2 s ck buffer bs)
  then show ?case using caches.store_add_new [of "mgr_cache s" ck buffer bs]
    by (fastforce simp: mgr_inv_def mgr_map_def mgr_safe_def cache_manager_add_chunk_def)
next
  case (3 s ck buffer bs)
  then show ?case using caches.store_add_unsafe [of "mgr_cache s" ck buffer bs]
    by (simp add: mgr_inv_def mgr_map_def mgr_safe_def cache_manager_add_chunk_def)
next
  case (4 s ck)
  then show ?case using caches.store_has [of "mgr_cache s" ck]
    by (simp add: mgr_inv_def mgr_map_def cache_manager_has_chunk_def)
next
  case (5 s ck ch d)
  then show ?case using caches.store_get_known [of "mgr_cache s" ck ch d]
    by (fastforce simp: mgr_inv_def mgr_map_def cache_manager_get_chunk_def)
next
  case (6 s ck ch)
  then show ?case using caches.store_get_unknown [of "mgr_cache s" ck ch]
    by (simp add: mgr_inv_def mgr_map_def cache_manager_get_chunk_def)
next
  case (7 bs buffer s ck)
  then show ?case by (simp add: cache_manager_add_chunk_def caches.store_add_take)
qed

section \<open>File size\<close>

text \<open>
  The file is a whole number of megabytes, strictly larger than requested and by at most one
  megabyte, as long as the request is not within a megabyte of \<open>2 ^ 64\<close>.
\<close>

lemma filesize_rounds_up:
  assumes "unat sz < 2 ^ 64 - 2 ^ 20"
  shows "CACHE_MANAGER_MB dvd unat (cache_manager_filesize sz) \<and> unat sz < unat (cache_manager_filesize sz) \<and>
     unat (cache_manager_filesize sz) \<le> unat sz + CACHE_MANAGER_MB"
proof -
  have mb: "unat (of_nat CACHE_MANAGER_MB :: u64) = 1048576" by (simp add: CACHE_MANAGER_MB_def)
  have q: "unat (sz div of_nat CACHE_MANAGER_MB) = unat sz div 1048576" by (simp add: unat_div mb)
  have s: "unat sz < 18446744073708503040" using assms by simp
  then have q1: "unat (sz div of_nat CACHE_MANAGER_MB + 1) = unat sz div 1048576 + 1"
    using q by (simp add: word_nat)
  have "(unat sz div 1048576 + 1) * 1048576 < 18446744073709551616" using s by simp
  then have "unat (cache_manager_filesize sz) = (unat sz div 1048576 + 1) * 1048576"
    using q1 mb by (simp add: cache_manager_filesize_def Let_def unat_mult_small)
  moreover have "unat sz < (unat sz div 1048576 + 1) * 1048576"
    "(unat sz div 1048576 + 1) * 1048576 \<le> unat sz + 1048576" by simp_all
  ultimately show ?thesis by (simp add: CACHE_MANAGER_MB_def)
qed

section \<open>Writing the file\<close>

lemma stat_size: "w < 2 ^ 63 \<Longrightarrow> sint (word_of_nat w :: u64) = int w"
proof -
  assume w: "w < 2 ^ 63"
  have "uint (word_of_nat w :: u64) = int w"
    using w by (simp add: uint_nat word_nat)
  then have "sint (word_of_nat w :: u64) = signed_take_bit 63 (int w)" by (simp add: sint_uint)
  also have "\<dots> = int w"
    by (rule signed_take_bit_int_eq_self) (use w in \<open>simp_all add: order_trans [of _ 0]\<close>)
  finally show ?thesis .
qed

text \<open>
  What the manual pages promise of the calls on one file, in terms of its size (0 when there is no file) and of the offset of
  a descriptor that is open for it.  A file that is opened without \<^verbatim>\<open>O_TRUNC\<close> keeps its contents and is written from its start; a write may fail,
  and otherwise overwrites, from the offset on, some but not more bytes than it was given; when it gets past the end the file becomes longer.
\<close>

definition file_contract :: "'w os \<Rightarrow> string \<Rightarrow> ('w \<Rightarrow> nat) \<Rightarrow> ('w \<Rightarrow> int \<Rightarrow> nat option) \<Rightarrow> bool" where
  "file_contract os filename fsize offset \<longleftrightarrow>
     (\<forall>w fd w'. msys_open os filename (O_RDWR OR O_CREAT) w = (fd, w') \<and> 0 \<le> fd \<longrightarrow>
        offset w' fd = Some 0 \<and> fsize w' = fsize w) \<and>
     (\<forall>w fd p bs ret w'. msys_write os fd bs w = (ret, w') \<and> offset w fd = Some p \<and> 0 \<le> ret \<longrightarrow>
        ret \<le> int (length bs) \<and> offset w' fd = Some (p + nat ret) \<and> fsize w' = max (fsize w) (p + nat ret)) \<and>
     (\<forall>w fd w'. msys_fsync os fd w = (0, w') \<longrightarrow> offset w' fd = offset w fd \<and> fsize w' = fsize w) \<and>
     (\<forall>w fd w'. msys_close os fd w = (0, w') \<longrightarrow> fsize w' = fsize w) \<and>
     (\<forall>w ret st w'. msys_stat os filename w = ((ret, st), w') \<longrightarrow> fsize w' = fsize w \<and> (ret = 0 \<longrightarrow> st = int (fsize w))) \<and>
     (\<forall>w w'. msys_unlink os filename w = (0, w') \<longrightarrow> fsize w' = 0)"

text \<open>A failed write returns -1; a successful one that writes nothing is possible by the manual, and is excluded where the loop has to end.\<close>

definition write_progress :: "'w os \<Rightarrow> bool" where
  "write_progress os \<longleftrightarrow>
     (\<forall>w fd bs ret w'. msys_write os fd bs w = (ret, w') \<and> bs \<noteq> [] \<longrightarrow> ret = -1 \<or> 0 < ret)"

lemma file_contractD:
  assumes "file_contract os filename fsize offset"
  shows "msys_open os filename (O_RDWR OR O_CREAT) w = (fd, w') \<Longrightarrow> 0 \<le> fd \<Longrightarrow> offset w' fd = Some 0 \<and> fsize w' = fsize w"
    "msys_write os fd bs w = (ret, w') \<Longrightarrow> offset w fd = Some p \<Longrightarrow> 0 \<le> ret \<Longrightarrow>
       ret \<le> int (length bs) \<and> offset w' fd = Some (p + nat ret) \<and> fsize w' = max (fsize w) (p + nat ret)"
    "msys_fsync os fd w = (0, w') \<Longrightarrow> fsize w' = fsize w"
    "msys_close os fd w = (0, w') \<Longrightarrow> fsize w' = fsize w"
    "msys_stat os filename w = ((r, st), w') \<Longrightarrow> fsize w' = fsize w \<and> (r = 0 \<longrightarrow> st = int (fsize w))"
    "msys_unlink os filename w = (0, w') \<Longrightarrow> fsize w' = 0"
  using assms unfolding file_contract_def by metis+

text \<open>A call of the operating system that fails somewhere.\<close>

definition write_fails :: "'w os \<Rightarrow> bool" where
  "write_fails os \<longleftrightarrow> (\<exists>fd bs w. fst (msys_write os fd bs w) = -1)"

definition sync_fails :: "'w os \<Rightarrow> bool" where
  "sync_fails os \<longleftrightarrow> (\<exists>fd w. fst (msys_fsync os fd w) \<noteq> 0 \<or> fst (msys_close os fd w) \<noteq> 0)"

text \<open>So many bytes were written from offset \<open>p\<close> on, or a write failed.\<close>

definition wrote :: "'w os \<Rightarrow> ('w \<Rightarrow> nat) \<Rightarrow> ('w \<Rightarrow> int \<Rightarrow> nat option) \<Rightarrow> int \<Rightarrow> nat \<Rightarrow> nat \<Rightarrow> 'w \<Rightarrow> int \<times> 'w \<Rightarrow> bool" where
  "wrote os fsize offset fd p n w r \<longleftrightarrow>
     fst r = -1 \<and> write_fails os \<or>
     fst r = 0 \<and> offset (snd r) fd = Some (p + n) \<and> (0 < n \<longrightarrow> fsize (snd r) = max (fsize w) (p + n)) \<and>
       (n = 0 \<longrightarrow> fsize (snd r) = fsize w)"

lemma write_megabyte_returns:
  assumes os: "file_contract os filename fsize offset" "write_progress os"
    and "unat written < CACHE_MANAGER_MB" "offset w fd = Some p"
  shows "\<exists>r. write_megabyte os fd written w = Some r \<and> wrote os fsize offset fd p (CACHE_MANAGER_MB - unat written) w r"
  using assms(3,4)
proof (induction "CACHE_MANAGER_MB - unat written" arbitrary: written w p rule: less_induct)
  case less
  have mb: "unat (of_nat CACHE_MANAGER_MB :: u64) = CACHE_MANAGER_MB" by (simp add: CACHE_MANAGER_MB_def)
  let ?left = "unat (of_nat CACHE_MANAGER_MB - written)"
  have left: "?left = CACHE_MANAGER_MB - unat written"
    using less.prems mb by (subst unat_sub_small) simp_all
  obtain ret w1 where wr: "msys_write os fd (replicate ?left 0) w = (ret, w1)" by (metis surj_pair)
  have "replicate ?left (0 :: u8) \<noteq> []" using left less.prems by simp
  with os(2) wr consider "ret = -1" | "0 < ret" unfolding write_progress_def by blast
  then show ?case
  proof cases
    case 1
    then have "write_fails os" using wr unfolding write_fails_def by (metis fst_conv)
    moreover have "write_megabyte os fd written w = Some (-1, w1)"
      using 1 by (subst write_megabyte.simps) (simp add: wr as_int_small)
    ultimately show ?thesis by (simp add: wrote_def)
  next
    case 2
    note r = file_contractD(2) [OF os(1) wr less.prems(2)]
    obtain n where n: "ret = int n" "0 < n" "n \<le> CACHE_MANAGER_MB - unat written"
      using 2 r left by (cases ret) auto
    then have at: "offset w1 fd = Some (p + n)" "fsize w1 = max (fsize w) (p + n)" using r by simp_all
    have "as_int ret = int n" using n by (simp add: as_int_small CACHE_MANAGER_MB_def)
    then have unfold: "write_megabyte os fd written w =
        (if written + of_nat n < of_nat CACHE_MANAGER_MB then write_megabyte os fd (written + of_nat n) w1 else Some (0, w1))"
      by (subst write_megabyte.simps) (simp add: wr Let_def)
    have sum: "unat (written + of_nat n) = unat written + n"
      using n less.prems by (simp add: word_nat CACHE_MANAGER_MB_def)
    show ?thesis
    proof (cases "unat written + n < CACHE_MANAGER_MB")
      case True
      from less.hyps [OF _ _ at(1), of "written + of_nat n"] sum n(2) True
      have "\<exists>r. write_megabyte os fd (written + of_nat n) w1 = Some r \<and>
        wrote os fsize offset fd (p + n) (CACHE_MANAGER_MB - (unat written + n)) w1 r" by simp
      then obtain r where
        "write_megabyte os fd (written + of_nat n) w1 = Some r"
        "wrote os fsize offset fd (p + n) (CACHE_MANAGER_MB - (unat written + n)) w1 r" by blast
      then show ?thesis
        using unfold sum mb True at(2) by (auto simp: word_less_nat_alt wrote_def)
    next
      case False
      then have "CACHE_MANAGER_MB - unat written = n" using n(3) by simp
      then show ?thesis using unfold sum mb False at n(2) by (simp add: word_less_nat_alt wrote_def)
    qed
  qed
qed

lemma write_megabytes_returns:
  assumes "file_contract os filename fsize offset" "write_progress os" "offset w fd = Some p"
  shows "\<exists>r. write_megabytes n os fd w = Some r \<and> wrote os fsize offset fd p (n * CACHE_MANAGER_MB) w r"
  using assms(3)
proof (induction n arbitrary: w p)
  case 0
  then show ?case by (simp add: wrote_def)
next
  case (Suc n)
  have "unat (0 :: u64) < CACHE_MANAGER_MB" by (simp add: CACHE_MANAGER_MB_def)
  from write_megabyte_returns [OF assms(1,2) this Suc.prems] obtain ret w1 where
    one: "write_megabyte os fd 0 w = Some (ret, w1)" "wrote os fsize offset fd p CACHE_MANAGER_MB w (ret, w1)" by auto
  show ?case
  proof (cases "ret = 0")
    case True
    with one(2) have "offset w1 fd = Some (p + CACHE_MANAGER_MB)" "fsize w1 = max (fsize w) (p + CACHE_MANAGER_MB)"
      by (simp_all add: wrote_def CACHE_MANAGER_MB_def)
    with Suc.IH [OF this(1)] one True show ?thesis by (cases n) (auto simp: wrote_def add.assoc CACHE_MANAGER_MB_def)
  next
    case False
    with one show ?thesis by (auto simp: wrote_def)
  qed
qed

text \<open>
  Creating the file: what the result means.  \<open>max\<close> because a file that is already there is overwritten in place.
\<close>

definition created :: "'w os \<Rightarrow> string \<Rightarrow> ('w \<Rightarrow> nat) \<Rightarrow> nat \<Rightarrow> 'w \<Rightarrow> (int \<times> 'w) result \<Rightarrow> bool" where
  "created os filename fsize n w r \<longleftrightarrow>
     (case r of
        Inl e \<Rightarrow> e = AssertFailed \<and> sync_fails os
      | Inr (ret, w') \<Rightarrow>
          ret = 0 \<and> fsize w' = max (fsize w) n \<or>
          ret = -1 \<and> (write_fails os \<or> (\<exists>w. fst (msys_open os filename (O_RDWR OR O_CREAT) w) < 0)))"

lemma create_file_outcome:
  assumes os: "file_contract os filename fsize offset" "write_progress os"
  shows "\<exists>r. cache_manager_create_file os filename sz w = Some r \<and>
    created os filename fsize (unat sz div CACHE_MANAGER_MB * CACHE_MANAGER_MB) w r"
proof -
  obtain fd w1 where o: "msys_open os filename (O_RDWR OR O_CREAT) w = (fd, w1)" by (metis surj_pair)
  have mb: "unat (sz div of_nat CACHE_MANAGER_MB) = unat sz div CACHE_MANAGER_MB"
    by (simp add: unat_div CACHE_MANAGER_MB_def)
  show ?thesis
  proof (cases "fd < 0")
    case True
    then have "\<exists>w. fst (msys_open os filename (O_RDWR OR O_CREAT) w) < 0" using o by (metis fst_conv)
    then show ?thesis using True by (simp add: cache_manager_create_file_def o created_def)
  next
    case False
    then have at: "offset w1 fd = Some 0" "fsize w1 = fsize w" using file_contractD(1) [OF os(1) o] by simp_all
    from write_megabytes_returns [OF os at(1), of "unat sz div CACHE_MANAGER_MB"] obtain ret w2 where
      w2: "write_megabytes (unat sz div CACHE_MANAGER_MB) os fd w1 = Some (ret, w2)"
        "wrote os fsize offset fd 0 (unat sz div CACHE_MANAGER_MB * CACHE_MANAGER_MB) w1 (ret, w2)" by auto
    obtain r3 w3 where s: "msys_fsync os fd w2 = (r3, w3)" by (metis surj_pair)
    let ?w = "if ret = 0 then w3 else w2"
    obtain r4 w4 where c: "msys_close os fd ?w = (r4, w4)" by (metis surj_pair)
    have res: "cache_manager_create_file os filename sz w =
        Some (ALWAYS (ret = 0 \<longrightarrow> r3 = 0) (ALWAYS (r4 = 0) (Inr (ret, w4))))"
      using False w2(1) s c by (cases "ret = 0") (simp_all add: cache_manager_create_file_def o mb)
    consider "ret = 0" "r3 \<noteq> 0" | "r4 \<noteq> 0" | "ret = 0 \<longrightarrow> r3 = 0" "r4 = 0" by blast
    then show ?thesis
    proof cases
      case 1
      then have "sync_fails os" using s unfolding sync_fails_def by (metis fst_conv)
      then show ?thesis using res 1 by (simp add: created_def ALWAYS_def)
    next
      case 2
      then have "sync_fails os" using c unfolding sync_fails_def by (metis fst_conv)
      then show ?thesis using res 2 by (simp add: created_def ALWAYS_def)
    next
      case 3
      have "fsize w4 = fsize w2" if "ret = 0"
        using file_contractD(3) [OF os(1), of fd w2 w3] file_contractD(4) [OF os(1), of fd w3 w4] s c that 3 by simp
      then show ?thesis
        using res 3 w2(2) at(2)
        by (cases "unat sz div CACHE_MANAGER_MB * CACHE_MANAGER_MB = 0") (auto simp: created_def wrote_def ALWAYS_def)
    qed
  qed
qed

definition checked :: "'w os \<Rightarrow> string \<Rightarrow> ('w \<Rightarrow> nat) \<Rightarrow> nat \<Rightarrow> 'w \<Rightarrow> (int \<times> 'w) result \<Rightarrow> bool" where
  "checked os filename fsize n w r \<longleftrightarrow>
     (case r of
        Inl e \<Rightarrow> e = AssertFailed \<and> sync_fails os
      | Inr (ret, w') \<Rightarrow>
          ret = 0 \<and> n \<le> fsize w' \<and> (fst (fst (msys_stat os filename w)) = 0 \<or> fsize w \<le> n \<longrightarrow> fsize w' = n) \<or>
          ret \<noteq> 0 \<and> (write_fails os \<or> (\<exists>w. fst (msys_open os filename (O_RDWR OR O_CREAT) w) < 0) \<or>
            (\<exists>w. fst (msys_unlink os filename w) \<noteq> 0)))"


text \<open>A disk with one file: its size and the offset of the descriptor 3; there is no file when the size is 0.\<close>

definition disk_os :: "(nat \<times> nat) os" where
  "disk_os = \<lparr>os_access = (\<lambda>_ _ w. (0, w)), os_remove = (\<lambda>_ w. (0, (0, snd w))), os_open = (\<lambda>_ _ _ w. (3, (fst w, 0))),
     os_stat = (\<lambda>_ w. ((if fst w = 0 then -1 else 0, int (fst w)), w)),
     os_write = (\<lambda>_ bs w. (int (length bs), (max (fst w) (snd w + length bs), snd w + length bs))),
     os_close = (\<lambda>_ w. (0, w)), os_fsync = (\<lambda>_ w. (0, w)),
     os_mmap = (\<lambda>_ _ _ _ _ _ w. (MapFailed 0, w)), os_munmap = (\<lambda>_ _ w. (0, w))\<rparr>"

lemma disk_os_contract: "file_contract disk_os name fst (\<lambda>w fd. Some (snd w))" "write_progress disk_os"
  by (simp_all add: file_contract_def write_progress_def disk_os_def msys_defs)


text \<open>The simplest system: the state is the length of the file, and writes write everything.\<close>

definition simple_os :: "nat os" where
  "simple_os = \<lparr>os_access = (\<lambda>_ _ w. (0, w)), os_remove = (\<lambda>_ w. (0, 0)), os_open = (\<lambda>_ _ _ w. (3, w)),
     os_stat = (\<lambda>_ w. ((0, int w), w)), os_write = (\<lambda>_ bs w. (int (length bs), w + length bs)),
     os_close = (\<lambda>_ w. (0, w)), os_fsync = (\<lambda>_ w. (0, w)),
     os_mmap = (\<lambda>_ n _ _ _ _ w. (Mapped 4096 blank_cache_header
        (replicate (unat n div CACHE_CELL_SIZE - 1) (blank_header, \<lambda>_. 0)), w)),
     os_munmap = (\<lambda>_ _ w. (0, w))\<rparr>"

text \<open>
  C38: a device on which \<^verbatim>\<open>write\<close> keeps returning 0 keeps the inner loop going for ever; the C code has no
  guard against it.
\<close>

theorem write_zero_spins:
  assumes "\<And>fd bs w. fst (msys_write os fd bs w) = 0"
  shows "write_megabyte os fd 0 w = None"
proof -
  have stuck: "written = 0 \<and> (\<forall>fd bs w. fst (msys_write os fd bs w) = 0) \<longrightarrow> False"
    if "write_megabyte os fd written w = Some r" for written w r
    using that
  proof (induction os fd written w r rule: write_megabyte.raw_induct)
    case (1 wm os fd written w r)
    show ?case
    proof
      assume h: "written = 0 \<and> (\<forall>fd bs w. fst (msys_write os fd bs w) = 0)"
      obtain w1 where "msys_write os fd (replicate (unat (of_nat CACHE_MANAGER_MB - written)) 0) w = (0, w1)"
        using h by (metis prod.collapse)
      then have "wm os fd 0 w1 = Some r" "write_megabyte os fd 0 w1 = Some r"
        using 1(2,3) h by (simp_all add: as_int_def Let_def CACHE_MANAGER_MB_def write_megabyte.simps [of os fd 0 w])
      then show False using 1(1) h by blast
    qed
  qed (rule that)
  show ?thesis
  proof (cases "write_megabyte os fd 0 w")
    case (Some r)
    then show ?thesis using stuck [OF Some] assms by simp
  qed
qed

theorem write_zero_spins_witness:
  "write_megabyte (simple_os\<lparr>os_write := \<lambda>_ _ w. (0, w)\<rparr>) 3 0 0 = None"
  using write_zero_spins [of "simple_os\<lparr>os_write := \<lambda>_ _ w. (0, w)\<rparr>" 3 0] by (simp add: msys_defs)

section \<open>Opening a cache\<close>

lemma filesize_value: "unat sz < 1048576 \<Longrightarrow> cache_manager_filesize sz = 1048576"
proof -
  assume "unat sz < 1048576"
  then have "unat (sz div of_nat CACHE_MANAGER_MB) = 0" by (simp add: unat_div CACHE_MANAGER_MB_def)
  then have "sz div of_nat CACHE_MANAGER_MB = 0" by (simp add: unat_eq_zero)
  then show ?thesis by (simp add: cache_manager_filesize_def Let_def CACHE_MANAGER_MB_def)
qed

text \<open>The part of \<^verbatim>\<open>cache_manager_open_cache\<close> that comes after the mapping.\<close>

definition maps_file :: "'w os \<Rightarrow> string \<Rightarrow> u64 \<Rightarrow> 'w \<Rightarrow> int \<times> int \<times> u64 \<times> Cache.cache_header \<times> slot list \<times> 'w \<Rightarrow> bool" where
  "maps_file os filename sz w r \<longleftrightarrow> (case r of (fd, dax, ptr, header, slots, w3) \<Rightarrow>
     \<exists>w1 w2. cache_manager_check_file os filename (cache_manager_filesize sz) w = Some (Inr (0, w1)) \<and>
       msys_open os filename O_RDWR w1 = (fd, w2) \<and> 0 \<le> fd \<and>
       map_file os (cache_manager_filesize sz) fd w2 = (Some (dax, ptr, header, slots), w3))"

lemma open_cache_mapped:
  assumes "maps_file os filename sz w (fd, dax, ptr, header, slots, w3)"
  shows "cache_manager_open_cache os mgr filename sz w =
    Some (rbind (cache_init header slots (cache_manager_filesize sz)) (\<lambda>cache.
      Inr (0, mgr\<lparr>mgr_memory_size := cache_manager_filesize sz, mgr_fd := fd,
        mgr_dax := (if dax = 1 then 1 else mgr_dax mgr), mgr_ptr := ptr, mgr_cache := cache\<rparr>, w3)))"
  using assms by (auto simp: maps_file_def cache_manager_open_cache_def Let_def)

text \<open>
  C37: opening a cache of less than one megabyte aborts: its file has one megabyte, which is all taken by the cache
  header, and the assertion of \<^verbatim>\<open>cache_init\<close> fails.
\<close>

theorem open_small_cache_aborts:
  assumes "unat sz < 1048576" "maps_file os filename sz w (fd, dax, ptr, header, slots, w3)"
  shows "cache_manager_open_cache os mgr filename sz w = Some (Inl AssertFailed)"
  unfolding open_cache_mapped [OF assms(2)] filesize_value [OF assms(1)]
  by (simp add: cache_init_def CACHE_CELL_SIZE_def ALWAYS_def word_le_nat_alt)

lemma simple_os_maps:
  assumes "cache_manager_filesize sz = of_nat w" "w < 2 ^ 63"
  shows "maps_file simple_os name sz w (3, 1, 4096, blank_cache_header,
    replicate (w div CACHE_CELL_SIZE - 1) (blank_header, \<lambda>_. 0), w)"
  using assms
  by (simp add: maps_file_def cache_manager_check_file_def map_file_def simple_os_def msys_defs stat_size word_nat)

theorem open_small_cache_aborts_witness:
  "cache_manager_open_cache simple_os cache_manager_init ''cache'' 1000 1048576 = Some (Inl AssertFailed)"
proof -
  have z: "unat (1000 :: u64) < 1048576" by simp
  show ?thesis using open_small_cache_aborts [OF z simple_os_maps] filesize_value [OF z] by simp
qed

text \<open>
  Opening a cache of a megabyte or more on a file that was never a cache gives an open manager of an
  empty cache, with one cell per megabyte of the file but the first.
\<close>

theorem open_cache_new_file:
  assumes "maps_file os filename sz w (fd, dax, ptr, header, slots, w3)"
    and "cache_magic header \<noteq> CACHE_HEADER_MAGIC" "\<forall>slot \<in> set slots. \<not> cell_header_sane (fst slot)"
    and "size_for (cache_manager_filesize sz) (length slots)"
  shows "\<exists>mgr'. cache_manager_open_cache os mgr filename sz w = Some (Inr (0, mgr', w3)) \<and> mgr_inv mgr' \<and>
     mgr_map mgr' = Map.empty \<and> mgr_fd mgr' = fd \<and> mgr_ptr mgr' = ptr"
proof -
  from open_new [OF assms(2-4)] obtain cache where
    "cache_init header slots (cache_manager_filesize sz) = Inr cache" "cache_inv cache" "cache_map cache = Map.empty" .
  then show ?thesis unfolding open_cache_mapped [OF assms(1)] by (simp add: mgr_inv_def mgr_map_def)
qed

theorem open_cache_new_file_witness:
  "\<exists>mgr'. cache_manager_open_cache simple_os cache_manager_init ''cache'' 1048576 2097152 =
     Some (Inr (0, mgr', 2097152)) \<and> mgr_inv mgr' \<and> mgr_map mgr' = Map.empty"
proof -
  have f: "cache_manager_filesize 1048576 = 2097152" by (simp add: cache_manager_filesize_def CACHE_MANAGER_MB_def)
  then have m: "maps_file simple_os ''cache'' 1048576 2097152
      (3, 1, 4096, blank_cache_header, [(blank_header, \<lambda>_. 0)], 2097152)"
    using simple_os_maps [of 1048576 2097152 "''cache''"] by (simp add: CACHE_CELL_SIZE_def)
  have "cache_magic blank_cache_header \<noteq> CACHE_HEADER_MAGIC"
    by (simp add: blank_cache_header_def CACHE_HEADER_MAGIC_def)
  from open_cache_new_file [OF m this, of cache_manager_init] blank_header_insane two_megabytes f
  show ?thesis by auto
qed

text \<open>
  Opening the file of a cache that was closed or interrupted gives a manager that holds what the cache
  held, but for the cells an update was interrupted on.
\<close>

theorem open_cache_again:
  assumes "maps_file os filename sz w (fd, dax, ptr, cache_header cache, slots, w3)"
    and "cache_inv cache" "image_of cache damaged slots"
    and "size_for (cache_manager_filesize sz) (length (cells_of cache))"
  shows "\<exists>mgr'. cache_manager_open_cache os mgr filename sz w = Some (Inr (0, mgr', w3)) \<and> mgr_inv mgr' \<and>
     (\<forall>ck. mgr_map mgr' ck = (if cell_index cache ck \<in> damaged then None else cache_map cache ck))"
proof -
  from open_image [OF assms(2-4)] obtain cache' where
    "cache_init (cache_header cache) slots (cache_manager_filesize sz) = Inr cache'" "cache_inv cache'"
    "\<And>ck. cache_map cache' ck = (if cell_index cache ck \<in> damaged then None else cache_map cache ck)" by metis
  then show ?thesis unfolding open_cache_mapped [OF assms(1)] by (simp add: mgr_inv_def mgr_map_def)
qed

text \<open>An operating system whose files are there and whose \<^verbatim>\<open>mmap\<close> maps the given image.\<close>

definition image_os :: "Cache.cache_header \<Rightarrow> slot list \<Rightarrow> nat os" where
  "image_os header slots = simple_os\<lparr>os_mmap := \<lambda>_ _ _ _ _ _ w. (Mapped 4096 header slots, w)\<rparr>"

lemma image_os_maps:
  assumes "cache_manager_filesize sz = of_nat w" "w < 2 ^ 63"
  shows "maps_file (image_os header slots) name sz w (3, 1, 4096, header, slots, w)"
  using assms
  by (simp add: image_os_def maps_file_def cache_manager_check_file_def map_file_def simple_os_def msys_defs stat_size word_nat)

theorem open_cache_again_witness:
  "\<exists>cache mgr'. cache_map cache sample_checksum = Some sample_buffer \<and> mgr_map mgr' = cache_map cache \<and>
     cache_manager_open_cache (image_os (cache_header cache) (map (\<lambda>c. (cell_header c, slab c)) (cells_of cache)))
       cache_manager_init ''cache'' 1048576 2097152 = Some (Inr (0, mgr', 2097152))"
proof -
  obtain cache where c: "cache_reachable (\<lambda>_ _. True) cache" "cache_map cache sample_checksum = Some sample_buffer"
    "length (cells_of cache) = 1"
    using sample_cache [of "\<lambda>_ _. True"] by auto
  have inv: "cache_inv cache" using reachable_cache_holds [OF c(1)] by blast
  let ?slots = "map (\<lambda>c. (cell_header c, slab c)) (cells_of cache)"
  have f: "cache_manager_filesize 1048576 = of_nat 2097152"
    by (simp add: cache_manager_filesize_def CACHE_MANAGER_MB_def)
  have img: "image_of cache {} ?slots" by (simp add: image_of_def)
  have "size_for (cache_manager_filesize 1048576) (length (cells_of cache))" using f c(3) two_megabytes by simp
  from open_cache_again [OF image_os_maps [OF f] inv img this, of cache_manager_init "''cache''"] obtain mgr' where
    m: "cache_manager_open_cache (image_os (cache_header cache) ?slots) cache_manager_init ''cache'' 1048576 2097152 =
      Some (Inr (0, mgr', 2097152))" "\<forall>ck. mgr_map mgr' ck = cache_map cache ck" by auto
  from m(2) have "mgr_map mgr' = cache_map cache" by (intro ext) simp
  with m(1) c(2) show ?thesis by blast
qed

text \<open>
  When the file cannot be mapped, the manager closes it again and reports -1; it is as it was before but
  for the size it remembers.
\<close>

theorem open_cache_unmapped:
  assumes "cache_cells (mgr_cache mgr) = None" "mgr_ptr mgr = 0" "mgr_fd mgr = -1"
    and "cache_manager_check_file os filename (cache_manager_filesize sz) w = Some (Inr (0, w1))"
    and "msys_open os filename O_RDWR w1 = (fd, w2)" "0 \<le> fd"
    and "map_file os (cache_manager_filesize sz) fd w2 = (None, w3)" "msys_close os fd w3 = (0, w4)"
  shows "cache_manager_open_cache os mgr filename sz w =
     Some (Inr (-1, mgr\<lparr>mgr_memory_size := cache_manager_filesize sz\<rparr>, w4))"
proof -
  let ?mgr = "mgr\<lparr>mgr_memory_size := cache_manager_filesize sz, mgr_fd := fd\<rparr>"
  have "cache_manager_release os ?mgr w3 = Inr (mgr\<lparr>mgr_memory_size := cache_manager_filesize sz\<rparr>, w4)"
    using assms(1-3,6,8) by (cases mgr) (simp add: cache_manager_release_def cache_release_def Let_def)
  then show ?thesis using assms(4-7) by (simp add: cache_manager_open_cache_def Let_def)
qed

theorem open_cache_unmapped_witness:
  "cache_manager_open_cache (simple_os\<lparr>os_mmap := \<lambda>_ _ _ _ _ _ w. (MapFailed EOPNOTSUPP, w)\<rparr>)
     cache_manager_init ''cache'' 1048576 2097152 =
   Some (Inr (-1, cache_manager_init\<lparr>mgr_memory_size := 2097152\<rparr>, 2097152))"
proof -
  have f: "cache_manager_filesize 1048576 = 2097152" by (simp add: cache_manager_filesize_def CACHE_MANAGER_MB_def)
  let ?os = "simple_os\<lparr>os_mmap := \<lambda>_ _ _ _ _ _ w. (MapFailed EOPNOTSUPP, w)\<rparr>"
  have "cache_manager_check_file ?os ''cache'' 2097152 2097152 = Some (Inr (0, 2097152))"
    by (simp add: cache_manager_check_file_def simple_os_def msys_defs stat_size word_nat)
  moreover have "map_file ?os 2097152 3 2097152 = (None, 2097152)"
    by (simp add: map_file_def msys_defs)
  ultimately show ?thesis
    using open_cache_unmapped [of cache_manager_init ?os "''cache''" 1048576 2097152 2097152 3 2097152 2097152 2097152] f
    by (simp add: cache_manager_init_def zero_cache_def simple_os_def msys_defs)
qed

end
