(* ===== verification/Chunk_Streamer.thy ===== *)
theory Chunk_Streamer
  imports Chunker Cache_Manager
begin

text \<open>
  \<^verbatim>\<open>chunk_streamer.h\<close>, \<^verbatim>\<open>chunk_streamer.c\<close>: cuts what is streamed through it into chunks and puts the chunks
  that are new into a cache.  The pointer to the cache manager is the manager itself here: between two calls
  of the streamer others may change it, so every theorem takes any manager in good order.
\<close>

record chunk_streamer =
  streamer_chunker :: chunker
  streamer_manager :: cache_manager
  chunk_added :: u32
  chunk_hit :: u32

definition chunk_streamer_init :: "cache_manager \<Rightarrow> (int \<times> chunk_streamer) result" where
  "chunk_streamer_init cache_manager =
     rbind chunker_init (\<lambda>(ret, chunker).
     Inr (ret, \<lparr>streamer_chunker = chunker, streamer_manager = cache_manager, chunk_added = 0, chunk_hit = 0\<rparr>))"

text \<open>What the loop does with a chunk it was given.\<close>

definition chunk_streamer_store :: "chunk_streamer \<Rightarrow> chunk_ref \<Rightarrow> chunk_streamer result" where
  "chunk_streamer_store streamer cref =
     rbind (cache_manager_has_chunk (streamer_manager streamer) (ref_checksum cref)) (\<lambda>(known, mgr).
     if known then
       Inr (streamer\<lparr>streamer_manager := mgr, chunk_hit := chunk_hit streamer + 1\<rparr>)
     else
       rbind (cache_manager_add_chunk mgr (ref_checksum cref) (ref_buffer cref) (ref_buffer_size cref)) (\<lambda>(_, mgr1).
       Inr (streamer\<lparr>streamer_manager := mgr1, chunk_added := chunk_added streamer + 1\<rparr>)))"

text \<open>\<^verbatim>\<open>for (;;)\<close>: \<open>ptr\<close> is what is left of the buffer, \<open>None\<close> for the null pointer.\<close>

partial_function (option) chunk_streamer_loop ::
    "(u8 list \<Rightarrow> u8 list) \<Rightarrow> chunk_streamer \<Rightarrow> u8 list option \<Rightarrow> u32 \<Rightarrow> (int \<times> chunk_streamer) result option" where
  "chunk_streamer_loop mh_sha256 streamer ptr buffer_left =
     (case chunker_chunk_buffer mh_sha256 (streamer_chunker streamer) ptr buffer_left of
        Inl e \<Rightarrow> Some (Inl e)
      | Inr (ret_t, chunker, cref) \<Rightarrow>
          let streamer1 = streamer\<lparr>streamer_chunker := chunker\<rparr> in
          if ret_t = CHUNKER_NOT_FOUND then Some (Inr (0, streamer1))
          else (case chunk_streamer_store streamer1 cref of
              Inl e \<Rightarrow> Some (Inl e)
            | Inr streamer2 \<Rightarrow>
                chunk_streamer_loop mh_sha256 streamer2
                  (map_option (drop (unat (ref_buffer_size cref))) ptr)
                  (buffer_left - ref_buffer_size cref)))"

definition chunk_streamer_process_buffer ::
    "(u8 list \<Rightarrow> u8 list) \<Rightarrow> chunk_streamer \<Rightarrow> u8 list option \<Rightarrow> u32 \<Rightarrow> (int \<times> chunk_streamer) result option" where
  "chunk_streamer_process_buffer mh_sha256 streamer buffer buffer_size =
     chunk_streamer_loop mh_sha256 streamer buffer buffer_size"

definition chunk_streamer_flush_retained ::
    "chunk_streamer \<Rightarrow> u8 list \<Rightarrow> u32 \<Rightarrow> (u32 \<times> chunk_streamer \<times> u8 list) result" where
  "chunk_streamer_flush_retained streamer buffer buffer_length =
     rbind (chunker_flush_retained (streamer_chunker streamer) buffer buffer_length) (\<lambda>(ret, chunker, buffer').
     Inr (ret, streamer\<lparr>streamer_chunker := chunker\<rparr>, buffer'))"

section \<open>The reference: storing the chunks one after the other\<close>

definition digest :: "(u8 list \<Rightarrow> u8 list) \<Rightarrow> u8 list \<Rightarrow> checksum" where
  "digest mh d = \<lparr>bytes = mh d\<rparr>"

definition store_chunk :: "(u8 list \<Rightarrow> u8 list) \<Rightarrow> chunk_streamer \<Rightarrow> u8 list \<Rightarrow> chunk_streamer result" where
  "store_chunk mh streamer d = chunk_streamer_store streamer (chunk_ref_set mh d (of_nat (length d)))"

fun store_chunks :: "(u8 list \<Rightarrow> u8 list) \<Rightarrow> chunk_streamer \<Rightarrow> u8 list list \<Rightarrow> chunk_streamer result" where
  "store_chunks mh streamer [] = Inr streamer"
| "store_chunks mh streamer (d # ds) = rbind (store_chunk mh streamer d) (\<lambda>s. store_chunks mh s ds)"

text \<open>Storing does not look at the chunker.\<close>

lemma store_ref_chunker:
  "chunk_streamer_store (s\<lparr>streamer_chunker := c\<rparr>) r =
     rbind (chunk_streamer_store s r) (\<lambda>s'. Inr (s'\<lparr>streamer_chunker := c\<rparr>))"
  by (auto simp: chunk_streamer_store_def rbind_def split: sum.splits)

lemma store_chunks_chunker:
  "store_chunks mh (s\<lparr>streamer_chunker := c\<rparr>) ds =
     rbind (store_chunks mh s ds) (\<lambda>s'. Inr (s'\<lparr>streamer_chunker := c\<rparr>))"
proof (induction ds arbitrary: s)
  case Nil
  then show ?case by simp
next
  case (Cons d ds)
  then show ?case
    by (cases "store_chunk mh s d") (simp_all add: store_chunk_def store_ref_chunker)
qed

lemma store_chunks_append:
  "store_chunks mh s (ds @ es) = rbind (store_chunks mh s ds) (\<lambda>s'. store_chunks mh s' es)"
  by (induction ds arbitrary: s) (simp_all add: rbind_assoc)

text \<open>A chunk at the front of a longer buffer is stored like its own bytes.\<close>

lemma store_ref_prefix:
  assumes "k \<le> length bs" "k < 2 ^ 32"
  shows "chunk_streamer_store s (chunk_ref_set mh bs (of_nat k)) = store_chunk mh s (take k bs)"
proof -
  have k: "unat (of_nat k :: u32) = k" using assms(2) by (simp add: word_nat)
  have "cache_manager_add_chunk mgr ck (take k bs) (of_nat k) = cache_manager_add_chunk mgr ck bs (of_nat k)" for mgr ck
    using managers.store_add_take [of "of_nat k" bs mgr ck] assms(1) unfolding k .
  moreover have "checksum_gen mh (take k bs) (of_nat (length (take k bs))) = checksum_gen mh bs (of_nat k)"
    using assms(1) by (simp only: checksum_gen_def length_take k) (simp add: k min_def)
  ultimately show ?thesis
    using assms(1) by (simp add: chunk_streamer_store_def store_chunk_def chunk_ref_set_def min_def cong: if_cong)
qed

section \<open>The loop implements the reference\<close>

text \<open>What is left in the chunker and what the call returns, given the chunks and the rest of its buffer.\<close>

definition streams_to ::
    "(u8 list \<Rightarrow> u8 list) \<Rightarrow> chunk_streamer \<Rightarrow> u8 list list \<Rightarrow> u8 list \<Rightarrow> (int \<times> chunk_streamer) result option \<Rightarrow> bool" where
  "streams_to mh s ds rest res \<longleftrightarrow>
     (case store_chunks mh s ds of
        Inl e \<Rightarrow> res = Some (Inl e)
      | Inr s' \<Rightarrow> \<exists>c. chunker_inv c \<and> retained_bytes c = rest \<and> unat (retained_size c) = length rest \<and>
          res = Some (Inr (0, s'\<lparr>streamer_chunker := c\<rparr>)))"

lemma streams_to_chunker:
  "streams_to mh (s\<lparr>streamer_chunker := c\<rparr>) ds rest res \<longleftrightarrow> streams_to mh s ds rest res"
  by (cases "store_chunks mh s ds") (simp_all add: streams_to_def store_chunks_chunker)

text \<open>One round of the loop: the chunker finds nothing more, or a chunk that is stored.\<close>

lemma loop_ends:
  assumes "chunker_chunk_buffer mh (streamer_chunker s) (Some bs) n = Inr (CHUNKER_NOT_FOUND, c, cref)"
  shows "chunk_streamer_loop mh s (Some bs) n = Some (Inr (0, s\<lparr>streamer_chunker := c\<rparr>))"
  using assms by (subst chunk_streamer_loop.simps) (simp add: Let_def)

lemma loop_goes_on:
  assumes "chunker_chunk_buffer mh (streamer_chunker s) (Some bs) n =
      Inr (CHUNKER_FOUND, c, chunk_ref_set mh bs (of_nat k))"
    and "k \<le> length bs" "k < 2 ^ 32"
  shows "chunk_streamer_loop mh s (Some bs) n =
    (case store_chunk mh (s\<lparr>streamer_chunker := c\<rparr>) (take k bs) of Inl e \<Rightarrow> Some (Inl e)
     | Inr s2 \<Rightarrow> chunk_streamer_loop mh s2 (Some (drop k bs)) (n - of_nat k))"
proof -
  have "unat (of_nat k :: u32) = k" using assms(3) by (simp add: word_nat)
  moreover have "ref_buffer_size (chunk_ref_set mh bs (of_nat k)) = of_nat k" by (simp add: chunk_ref_set_def)
  ultimately show ?thesis
    using assms(1) store_ref_prefix [OF assms(2,3), of "s\<lparr>streamer_chunker := c\<rparr>" mh]
    by (subst chunk_streamer_loop.simps)
      (simp add: Let_def CHUNKER_FOUND_def CHUNKER_NOT_FOUND_def cong: sum.case_cong)
qed

text \<open>What the round contributes to the outcome.\<close>

lemma streams_to_Cons:
  assumes "res = (case store_chunk mh s d of Inl e \<Rightarrow> Some (Inl e) | Inr s2 \<Rightarrow> f s2)"
    and "\<And>s2. store_chunk mh s d = Inr s2 \<Longrightarrow> streams_to mh s2 ds rest (f s2)"
  shows "streams_to mh s (d # ds) rest res"
  using assms by (cases "store_chunk mh s d") (simp_all add: streams_to_def)

lemma store_keeps_chunker:
  "store_chunk mh (s\<lparr>streamer_chunker := c\<rparr>) d = Inr s2 \<Longrightarrow> streamer_chunker s2 = c"
  unfolding store_chunk_def store_ref_chunker by (auto simp: rbind_eq_Inr)

lemma loop_streams:
  assumes "chunker_inv (streamer_chunker s)" "retained_size (streamer_chunker s) = 0" "unat n \<le> length bs"
  shows "streams_to mh s (fst (split_chunks (take (unat n) bs))) (snd (split_chunks (take (unat n) bs)))
    (chunk_streamer_loop mh s (Some bs) n)"
  using assms
proof (induction "unat n" arbitrary: s bs n rule: less_induct)
  case less
  let ?bs = "take (unat n) bs"
  have len: "length ?bs = unat n" using less.prems(3) by simp
  then have cut: "chunk_cut ?bs (length ?bs) = chunk_cut bs (unat n)" by (simp add: chunk_cut_take)
  have out: "chunk_outcome mh bs n (chunk_cut bs (unat n))
      (chunker_chunk_buffer mh (streamer_chunker s) (Some bs) n)"
    by (rule chunker_chunk_spec [OF less.prems])
  show ?case
  proof (cases "chunk_cut bs (unat n)")
    case None
    with out obtain c where c: "chunker_inv c" "retained_bytes c = ?bs" "retained_size c = n"
      "chunker_chunk_buffer mh (streamer_chunker s) (Some bs) n = Inr (CHUNKER_NOT_FOUND, c, chunk_ref_init)"
      by (auto simp: chunk_outcome_def)
    have "split_chunks ?bs = ([], ?bs)" by (rule split_chunks_None) (simp only: cut None)
    then show ?thesis using loop_ends [OF c(4)] c(1-3) len by (auto simp: streams_to_def intro!: exI [of _ c])
  next
    case (Some k)
    note b = chunk_cut_bounds [OF Some]
    from out Some obtain c where c: "chunker_inv c" "retained_size c = 0"
      "chunker_chunk_buffer mh (streamer_chunker s) (Some bs) n = Inr (CHUNKER_FOUND, c, chunk_ref_set mh bs (of_nat k))"
      by (auto simp: chunk_outcome_def)
    have k: "k \<le> length bs" "k < 2 ^ 32" "unat (of_nat k :: u32) = k"
      using b(2,3) less.prems(3) by (simp_all add: word_nat CHUNKER_MAX_CHUNK_SIZE_def)
    have left: "unat (n - of_nat k) = unat n - k" using b(3) k(3) by (simp add: unat_sub_small)
    have split: "split_chunks ?bs = (take k bs # fst (split_chunks (take (unat (n - of_nat k)) (drop k bs))),
        snd (split_chunks (take (unat (n - of_nat k)) (drop k bs))))"
      using split_chunks_Some [of ?bs k] cut Some b(3) unfolding left by (simp add: min_def drop_take)
    have "streams_to mh (s\<lparr>streamer_chunker := c\<rparr>) (fst (split_chunks ?bs)) (snd (split_chunks ?bs))
        (chunk_streamer_loop mh s (Some bs) n)"
      unfolding split fst_conv snd_conv
    proof (rule streams_to_Cons [OF loop_goes_on [OF c(3) k(1,2)]], rule less.hyps)
      fix s2 assume "store_chunk mh (s\<lparr>streamer_chunker := c\<rparr>) (take k bs) = Inr s2"
      from store_keeps_chunker [OF this]
      show "chunker_inv (streamer_chunker s2)" "retained_size (streamer_chunker s2) = 0" using c by simp_all
      show "unat (n - of_nat k) < unat n" using left b(1,3) by (simp add: CHUNKER_MIN_CHUNK_SIZE_def)
      show "unat (n - of_nat k) \<le> length (drop k bs)" using left less.prems(3) by simp
    qed
    then show ?thesis by (simp only: streams_to_chunker)
  qed
qed

section \<open>What storing chunks does\<close>

text \<open>The digest is the multi-hash SHA-256 of the vendored library; all that is used of it here is its length.\<close>

definition wf_digest :: "(u8 list \<Rightarrow> u8 list) \<Rightarrow> bool" where
  "wf_digest mh \<longleftrightarrow> (\<forall>d. length (mh d) = CHECKSUM_SIZE)"

lemma sized_chunk_ok:
  assumes "wf_digest mh" "chunk_sized d"
  shows "chunk_ok (digest mh d) d (of_nat (length d))" "wf_checksum (digest mh d)"
    "unat (of_nat (length d) :: u32) = length d"
proof -
  have l: "2048 < length d" "length d \<le> 24576"
    using assms(2) by (simp_all add: chunk_sized_def CHUNKER_MIN_CHUNK_SIZE_def CHUNKER_MAX_CHUNK_SIZE_def)
  then show u: "unat (of_nat (length d) :: u32) = length d" by (simp add: word_nat)
  show ck: "wf_checksum (digest mh d)" using assms(1) by (simp add: wf_digest_def wf_checksum_def digest_def)
  show "chunk_ok (digest mh d) d (of_nat (length d))"
    unfolding chunk_ok_def u using ck l by (simp add: ok_size_def MIN_ENTRY_def MAX_ENTRY_def)
qed

lemma store_chunk_unfold:
  assumes "unat (of_nat (length d) :: u32) = length d"
  shows "store_chunk mh s d =
     rbind (cache_manager_has_chunk (streamer_manager s) (digest mh d)) (\<lambda>(known, mgr).
     if known then Inr (s\<lparr>streamer_manager := mgr, chunk_hit := chunk_hit s + 1\<rparr>)
     else rbind (cache_manager_add_chunk mgr (digest mh d) d (of_nat (length d))) (\<lambda>(_, mgr1).
       Inr (s\<lparr>streamer_manager := mgr1, chunk_added := chunk_added s + 1\<rparr>)))"
proof -
  have "checksum_gen mh d (of_nat (length d)) = digest mh d"
    unfolding checksum_gen_def assms by (simp add: digest_def)
  then show ?thesis by (simp add: store_chunk_def chunk_streamer_store_def chunk_ref_set_def cong: if_cong)
qed

text \<open>Whether the manager can take a chunk in its present state: it knows it, or adding it does not abort.\<close>

definition can_store :: "(u8 list \<Rightarrow> u8 list) \<Rightarrow> chunk_streamer \<Rightarrow> u8 list \<Rightarrow> bool" where
  "can_store mh s d \<longleftrightarrow> mgr_map (streamer_manager s) (digest mh d) \<noteq> None \<or>
     mgr_safe (streamer_manager s) (digest mh d) (of_nat (length d))"

lemma store_known:
  assumes inv: "mgr_inv (streamer_manager s)" and wf: "wf_digest mh" and d: "chunk_sized d"
    and known: "mgr_map (streamer_manager s) (digest mh d) \<noteq> None"
  shows "store_chunk mh s d = Inr (s\<lparr>chunk_hit := chunk_hit s + 1\<rparr>)"
  using managers.store_has [OF inv sized_chunk_ok(2) [OF wf d]] known
  by (simp add: store_chunk_unfold [OF sized_chunk_ok(3) [OF wf d]])

lemma store_new:
  assumes inv: "mgr_inv (streamer_manager s)" and wf: "wf_digest mh" and d: "chunk_sized d"
    and new: "mgr_map (streamer_manager s) (digest mh d) = None"
  shows "if can_store mh s d then
      \<exists>mgr. store_chunk mh s d = Inr (s\<lparr>streamer_manager := mgr, chunk_added := chunk_added s + 1\<rparr>) \<and> mgr_inv mgr \<and>
        mgr_map mgr \<subseteq>\<^sub>m (mgr_map (streamer_manager s))(digest mh d \<mapsto> d)
    else store_chunk mh s d = Inl AssertFailed"
proof -
  note ok = sized_chunk_ok [OF wf d]
  have has: "cache_manager_has_chunk (streamer_manager s) (digest mh d) = Inr (False, streamer_manager s)"
    using managers.store_has [OF inv ok(2)] new by simp
  show ?thesis
  proof (cases "can_store mh s d")
    case True
    then have "mgr_safe (streamer_manager s) (digest mh d) (of_nat (length d))" using new by (simp add: can_store_def)
    from managers.store_add_new [OF inv ok(1) new this] True show ?thesis
      by (auto simp: store_chunk_unfold [OF ok(3)] has ok(3))
  next
    case False
    then have "\<not> mgr_safe (streamer_manager s) (digest mh d) (of_nat (length d))" by (simp add: can_store_def)
    from managers.store_add_unsafe [OF inv ok(1) new this] False show ?thesis
      by (simp add: store_chunk_unfold [OF ok(3)] has)
  qed
qed

text \<open>Both cases together: what one chunk, and then a list of them, does to a streamer in good order.\<close>

lemma store_one:
  assumes "mgr_inv (streamer_manager s)" "wf_digest mh" "chunk_sized d"
  shows "if can_store mh s d then
      \<exists>s'. store_chunk mh s d = Inr s' \<and> mgr_inv (streamer_manager s') \<and>
        chunk_added s' + chunk_hit s' = chunk_added s + chunk_hit s + 1 \<and>
        mgr_map (streamer_manager s') \<subseteq>\<^sub>m (if mgr_map (streamer_manager s) (digest mh d) = None
          then (mgr_map (streamer_manager s))(digest mh d \<mapsto> d) else mgr_map (streamer_manager s))
    else store_chunk mh s d = Inl AssertFailed"
proof (cases "mgr_map (streamer_manager s) (digest mh d) = None")
  case True
  from store_new [OF assms True] True show ?thesis by (auto simp: algebra_simps split: if_splits)
next
  case False
  then have "can_store mh s d" by (simp add: can_store_def)
  then show ?thesis using store_known [OF assms False] assms(1) False by (auto simp: algebra_simps)
qed

lemma store_one_holds:
  assumes "mgr_inv (streamer_manager s)" "wf_digest mh" "chunk_sized d" "store_chunk mh s d = Inr s'"
    and "managers.holds_only P (streamer_manager s)" "P (digest mh d) d"
  shows "managers.holds_only P (streamer_manager s')"
proof -
  have "mgr_map (streamer_manager s') \<subseteq>\<^sub>m (if mgr_map (streamer_manager s) (digest mh d) = None
      then (mgr_map (streamer_manager s))(digest mh d \<mapsto> d) else mgr_map (streamer_manager s))"
    using store_one [OF assms(1-3)] assms(4) by (auto split: if_splits)
  then show ?thesis
    using managers.holds_only_le [OF _ assms(5,6)] assms(5)
    by (cases "mgr_map (streamer_manager s) (digest mh d) = None")
      (simp_all add: managers.holds_only_def map_le_def, metis domI)
qed

lemma store_chunks_ok:
  assumes "mgr_inv (streamer_manager s)" "wf_digest mh" "\<forall>d \<in> set ds. chunk_sized d"
    and "store_chunks mh s ds = Inr s'"
  shows "mgr_inv (streamer_manager s') \<and>
    chunk_added s' + chunk_hit s' = chunk_added s + chunk_hit s + of_nat (length ds) \<and>
    (managers.holds_only P (streamer_manager s) \<longrightarrow> (\<forall>d \<in> set ds. P (digest mh d) d) \<longrightarrow>
      managers.holds_only P (streamer_manager s'))"
  using assms(1,3,4)
proof (induction ds arbitrary: s)
  case Nil
  then show ?case by simp
next
  case (Cons d ds)
  from Cons.prems(3) obtain s1 where s1: "store_chunk mh s d = Inr s1" "store_chunks mh s1 ds = Inr s'"
    by (auto simp: rbind_eq_Inr)
  have d: "chunk_sized d" "\<forall>d \<in> set ds. chunk_sized d" using Cons.prems(2) by simp_all
  have one: "mgr_inv (streamer_manager s1)" "chunk_added s1 + chunk_hit s1 = chunk_added s + chunk_hit s + 1"
    using store_one [OF Cons.prems(1) assms(2) d(1)] s1(1) by (auto split: if_splits)
  from Cons.IH [OF one(1) d(2) s1(2)] one(2) store_one_holds [OF Cons.prems(1) assms(2) d(1) s1(1)]
  show ?case by (simp add: algebra_simps)
qed

lemma store_chunks_fails:
  assumes "mgr_inv (streamer_manager s)" "wf_digest mh" "\<forall>d \<in> set ds. chunk_sized d"
    and "store_chunks mh s ds = Inl e"
  shows "e = AssertFailed \<and> (\<exists>pre d post s1. ds = pre @ d # post \<and> store_chunks mh s pre = Inr s1 \<and> \<not> can_store mh s1 d)"
  using assms(1,3,4)
proof (induction ds arbitrary: s)
  case Nil
  then show ?case by simp
next
  case (Cons d ds)
  have d: "chunk_sized d" "\<forall>d \<in> set ds. chunk_sized d" using Cons.prems(2) by simp_all
  note one = store_one [OF Cons.prems(1) assms(2) d(1)]
  show ?case
  proof (cases "can_store mh s d")
    case True
    with one obtain s1 where s1: "store_chunk mh s d = Inr s1" "mgr_inv (streamer_manager s1)" by auto
    then have "store_chunks mh s1 ds = Inl e" using Cons.prems(3) by simp
    from Cons.IH [OF s1(2) d(2) this] obtain pre d' post s2 where
      r: "e = AssertFailed" "ds = pre @ d' # post" "store_chunks mh s1 pre = Inr s2" "\<not> can_store mh s2 d'" by blast
    then have "d # ds = (d # pre) @ d' # post" "store_chunks mh s (d # pre) = Inr s2" using s1(1) by simp_all
    with r(1,4) show ?thesis by blast
  next
    case False
    then have "e = AssertFailed" using one Cons.prems(3) by simp
    moreover have "d # ds = [] @ d # ds" "store_chunks mh s [] = Inr s" by simp_all
    ultimately show ?thesis using False by blast
  qed
qed

lemma store_chunks_known:
  assumes "mgr_inv (streamer_manager s)" "wf_digest mh" "\<forall>d \<in> set ds. chunk_sized d"
    and "\<forall>d \<in> set ds. mgr_map (streamer_manager s) (digest mh d) \<noteq> None"
  shows "store_chunks mh s ds = Inr (s\<lparr>chunk_hit := chunk_hit s + of_nat (length ds)\<rparr>)"
  using assms(1,3,4)
proof (induction ds arbitrary: s)
  case Nil
  then show ?case by simp
next
  case (Cons d ds)
  have "store_chunk mh s d = Inr (s\<lparr>chunk_hit := chunk_hit s + 1\<rparr>)"
    using store_known [OF Cons.prems(1) assms(2)] Cons.prems(2,3) by simp
  then show ?case using Cons.IH [of "s\<lparr>chunk_hit := chunk_hit s + 1\<rparr>"] Cons.prems by (simp add: algebra_simps)
qed


section \<open>Properties of the streamer\<close>

definition streamer_ready :: "chunk_streamer \<Rightarrow> bool" where
  "streamer_ready s \<longleftrightarrow> chunker_inv (streamer_chunker s) \<and> retained_size (streamer_chunker s) = 0 \<and>
     mgr_inv (streamer_manager s)"

lemma process_streams:
  assumes "streamer_ready s" "unat n \<le> length bs"
  shows "streams_to mh s (fst (split_chunks (take (unat n) bs))) (snd (split_chunks (take (unat n) bs)))
    (chunk_streamer_process_buffer mh s (Some bs) n)"
  using loop_streams [of s n bs mh] assms by (simp add: streamer_ready_def chunk_streamer_process_buffer_def)

lemma streamer_init_ready:
  assumes "mgr_inv mgr"
  obtains s where "chunk_streamer_init mgr = Inr (0, s)" "streamer_ready s" "streamer_manager s = mgr"
    "chunk_added s = 0" "chunk_hit s = 0"
proof -
  obtain c where c: "chunker_init = Inr (0, c)" "chunker_inv c" "retained_size c = 0" by (rule chunker_init_ok)
  let ?s = "\<lparr>streamer_chunker = c, streamer_manager = mgr, chunk_added = 0, chunk_hit = 0\<rparr>"
  have "chunk_streamer_init mgr = Inr (0, ?s)" by (simp add: chunk_streamer_init_def c(1))
  then show ?thesis using that [of ?s] c(2,3) assms by (simp add: streamer_ready_def)
qed

text \<open>
  C6: processing a buffer terminates.  Either it returns 0, with the manager in good order, one of the two
  counters moved for every chunk of the buffer, everything in the cache either there before or a chunk of the buffer
  under its digest, and the chunks and the retained rest making up the buffer; or some chunk reached the
  cell in the state in which the cell's code aborts.
\<close>

theorem process_buffer_returns:
  assumes "streamer_ready s" "wf_digest mh" "unat n \<le> length bs"
  shows "\<exists>ds rest. split_chunks (take (unat n) bs) = (ds, rest) \<and> concat ds @ rest = take (unat n) bs \<and>
    (case chunk_streamer_process_buffer mh s (Some bs) n of
       None \<Rightarrow> False
     | Some (Inl e) \<Rightarrow> e = AssertFailed \<and>
         (\<exists>pre d post s1. ds = pre @ d # post \<and> store_chunks mh s pre = Inr s1 \<and> \<not> can_store mh s1 d)
     | Some (Inr (ret, s')) \<Rightarrow> ret = 0 \<and> mgr_inv (streamer_manager s') \<and> chunker_inv (streamer_chunker s') \<and>
         chunk_added s' + chunk_hit s' = chunk_added s + chunk_hit s + of_nat (length ds) \<and>
         retained_bytes (streamer_chunker s') = rest \<and>
         (\<forall>ck d. mgr_map (streamer_manager s') ck = Some d \<longrightarrow>
            mgr_map (streamer_manager s) ck = Some d \<or> d \<in> set ds \<and> ck = digest mh d))"
proof -
  obtain ds rest where sp: "split_chunks (take (unat n) bs) = (ds, rest)" by (metis surj_pair)
  have parts: "concat ds @ rest = take (unat n) bs" "\<forall>d \<in> set ds. chunk_sized d"
    using split_chunks_parts [of "take (unat n) bs"] sp by simp_all
  have inv: "mgr_inv (streamer_manager s)" using assms(1) by (simp add: streamer_ready_def)
  have st: "streams_to mh s ds rest (chunk_streamer_process_buffer mh s (Some bs) n)"
    using process_streams [OF assms(1,3), of mh] sp by simp
  show ?thesis
  proof (cases "store_chunks mh s ds")
    case (Inl e)
    with store_chunks_fails [OF inv assms(2) parts(2) Inl] st sp parts(1) show ?thesis
      by (simp add: streams_to_def)
  next
    case (Inr s')
    let ?P = "\<lambda>ck d. mgr_map (streamer_manager s) ck = Some d \<or> d \<in> set ds \<and> ck = digest mh d"
    from Inr st obtain c where c: "chunker_inv c" "retained_bytes c = rest"
      "chunk_streamer_process_buffer mh s (Some bs) n = Some (Inr (0, s'\<lparr>streamer_chunker := c\<rparr>))"
      by (auto simp: streams_to_def)
    from store_chunks_ok [OF inv assms(2) parts(2) Inr, of ?P] c sp parts(1) show ?thesis
      by (simp add: managers.holds_only_def)
  qed
qed

text \<open>
  For the witnesses: a digest that is the same for all chunks, and a streamer whose cache has a chunk under
  it.
\<close>

definition sample_digest :: "u8 list \<Rightarrow> u8 list" where
  "sample_digest d = bytes sample_checksum"

lemma sample_digest_wf: "wf_digest sample_digest" "digest sample_digest d = sample_checksum"
  by (simp_all add: wf_digest_def digest_def sample_digest_def sample_checksum_def CHECKSUM_SIZE_def)

lemma sample_streamer:
  obtains s where "streamer_ready s" "mgr_map (streamer_manager s) sample_checksum \<noteq> None"
    "chunk_added s = 0" "chunk_hit s = 0"
    "\<forall>ck d. mgr_map (streamer_manager s) ck = Some d \<longrightarrow> ck = sample_checksum"
proof -
  obtain cache where c: "cache_reachable (\<lambda>ck _. ck = sample_checksum) cache"
    "cache_map cache sample_checksum = Some sample_buffer"
    using sample_cache [of "\<lambda>ck _. ck = sample_checksum"] by auto
  have i: "cache_inv cache" "caches.holds_only (\<lambda>ck _. ck = sample_checksum) cache"
    using reachable_cache_holds [OF c(1)] by blast+
  then have "mgr_inv (cache_manager_init\<lparr>mgr_cache := cache\<rparr>)" by (simp add: mgr_inv_def)
  from streamer_init_ready [OF this] obtain s where
    "streamer_ready s" "streamer_manager s = cache_manager_init\<lparr>mgr_cache := cache\<rparr>" "chunk_added s = 0" "chunk_hit s = 0" .
  then show ?thesis using that [of s] c(2) i(2) by (simp add: mgr_map_def caches.holds_only_def)
qed

lemma zeros_length: "unat (24576 :: u32) = length zeros" "take (unat (24576 :: u32)) zeros = zeros"
  by (simp_all add: zeros_def CHUNKER_MAX_CHUNK_SIZE_def)

theorem process_buffer_returns_witness:
  "\<exists>s s'. chunk_streamer_process_buffer sample_digest s (Some zeros) 24576 = Some (Inr (0, s')) \<and>
     chunk_added s' + chunk_hit s' = 1 \<and> retained_bytes (streamer_chunker s') = []"
proof -
  obtain s where s: "streamer_ready s" "mgr_map (streamer_manager s) sample_checksum \<noteq> None"
    "chunk_added s = 0" "chunk_hit s = 0" by (rule sample_streamer)
  have "can_store sample_digest s zeros" using s(2) by (simp add: can_store_def sample_digest_wf)
  then have no: "can_store sample_digest s1 d"
    if "[zeros] = pre @ d # post" "store_chunks sample_digest s pre = Inr s1" for pre d post s1
    using that by (auto simp: Cons_eq_append_conv)
  have "unat (24576 :: u32) \<le> length zeros" using zeros_length(1) by simp
  from process_buffer_returns [OF s(1) sample_digest_wf(1) this] s(3,4) show ?thesis
    unfolding zeros_length(2) zeros_split by (auto split: option.splits sum.splits dest: no)
qed

text \<open>
  When the cache knows every chunk of a buffer, processing the buffer stores nothing: the manager is
  unchanged, and only the hit counter moves, by the number of chunks.
\<close>

theorem process_buffer_known:
  assumes "streamer_ready s" "wf_digest mh" "unat n \<le> length bs"
    and "\<forall>d \<in> set (fst (split_chunks (take (unat n) bs))). mgr_map (streamer_manager s) (digest mh d) \<noteq> None"
  shows "\<exists>s'. chunk_streamer_process_buffer mh s (Some bs) n = Some (Inr (0, s')) \<and>
    streamer_manager s' = streamer_manager s \<and> chunk_added s' = chunk_added s \<and>
    chunk_hit s' = chunk_hit s + of_nat (length (fst (split_chunks (take (unat n) bs))))"
proof -
  have "mgr_inv (streamer_manager s)" using assms(1) by (simp add: streamer_ready_def)
  from store_chunks_known [OF this assms(2) _ assms(4)] split_chunks_parts
  have "store_chunks mh s (fst (split_chunks (take (unat n) bs))) =
      Inr (s\<lparr>chunk_hit := chunk_hit s + of_nat (length (fst (split_chunks (take (unat n) bs))))\<rparr>)" by blast
  with process_streams [OF assms(1,3), of mh] show ?thesis by (auto simp: streams_to_def)
qed

theorem process_buffer_known_witness:
  "\<exists>s s'. chunk_streamer_process_buffer sample_digest s (Some zeros) 24576 = Some (Inr (0, s')) \<and>
     streamer_manager s' = streamer_manager s \<and> chunk_added s' = 0 \<and> chunk_hit s' = 1"
proof -
  obtain s where s: "streamer_ready s" "mgr_map (streamer_manager s) sample_checksum \<noteq> None"
    "chunk_added s = 0" "chunk_hit s = 0" by (rule sample_streamer)
  have le: "unat (24576 :: u32) \<le> length zeros" using zeros_length(1) by simp
  have "\<forall>d \<in> set (fst (split_chunks (take (unat (24576 :: u32)) zeros))).
      mgr_map (streamer_manager s) (digest sample_digest d) \<noteq> None"
    using s(2) by (simp add: sample_digest_wf)
  from process_buffer_known [OF s(1) sample_digest_wf(1) le this] s(3,4) show ?thesis
    unfolding zeros_length(2) zeros_split by auto
qed

text \<open>What callers and later calls see of a streamer: all but the state of the rolling hash.\<close>

definition observed :: "chunk_streamer \<Rightarrow> cache_manager \<times> u32 \<times> u32 \<times> u8 list" where
  "observed s = (streamer_manager s, chunk_added s, chunk_hit s, retained_bytes (streamer_chunker s))"

lemma streams_observed:
  "streams_to mh s ds rest res \<Longrightarrow> map_option (map_sum id (map_prod id observed)) res =
     Some (map_sum id (\<lambda>s'. (0, streamer_manager s', chunk_added s', chunk_hit s', rest)) (store_chunks mh s ds))"
  by (auto simp: streams_to_def observed_def split: sum.splits)

text \<open>
  C24: the loop over pointers into the buffer is the recursion over the chunks of the reference cut, each stored
  from its own bytes, with the undecided rest retained; an error is that of the first chunk that fails.
\<close>

theorem process_buffer_reference:
  assumes "streamer_ready s" "unat n \<le> length bs"
  shows "map_option (map_sum id (map_prod id observed)) (chunk_streamer_process_buffer mh s (Some bs) n) =
    Some (map_sum id
      (\<lambda>s'. (0, streamer_manager s', chunk_added s', chunk_hit s', snd (split_chunks (take (unat n) bs))))
      (store_chunks mh s (fst (split_chunks (take (unat n) bs)))))"
  by (rule streams_observed [OF process_streams [OF assms]])

theorem process_buffer_reference_witness:
  "\<exists>s. map_option (map_sum id (map_prod id observed))
      (chunk_streamer_process_buffer sample_digest s (Some zeros) 24576) =
    Some (map_sum id (\<lambda>s'. (0, streamer_manager s', chunk_added s', chunk_hit s', []))
      (store_chunks sample_digest s [zeros]))"
proof -
  obtain s where s: "streamer_ready s" by (rule sample_streamer)
  have "unat (24576 :: u32) \<le> length zeros" using zeros_length(1) by simp
  from process_buffer_reference [OF s this, of sample_digest] show ?thesis
    unfolding zeros_length(2) zeros_split by auto
qed

text \<open>What flushing after a call that returned leaves.\<close>

lemma flush_after:
  assumes s1: "chunker_inv (streamer_chunker s1)" "retained_bytes (streamer_chunker s1) = rest"
      "unat (retained_size (streamer_chunker s1)) = length rest"
    and fl: "chunk_streamer_flush_retained s1 buf m = Inr (r, s2, buf')" "unat m \<le> length buf"
  shows "unat r = length rest" "take (unat r) buf' = rest"
    "\<exists>c. chunker_inv c \<and> retained_size c = 0 \<and> s2 = s1\<lparr>streamer_chunker := c\<rparr>"
proof -
  let ?c = "streamer_chunker s1"
  have "retained_size ?c < m"
    using fl(1) by (auto simp: chunk_streamer_flush_retained_def rbind_eq_Inr chunker_flush_retained_def ALWAYS_eq_Inr)
  from flush_returns [OF s1(1) this fl(2)] have
    "r = retained_size ?c" "s2 = s1\<lparr>streamer_chunker := ?c\<lparr>retained_size := 0\<rparr>\<rparr>"
    "buf' = rest @ drop (unat (retained_size ?c)) buf"
    using fl(1) s1(2) by (auto simp: chunk_streamer_flush_retained_def)
  moreover have "chunker_inv (?c\<lparr>retained_size := 0\<rparr>)"
    using s1(1) by (simp add: chunker_inv_def CHUNKER_MAX_CHUNK_SIZE_def)
  ultimately show "unat r = length rest" "take (unat r) buf' = rest"
    "\<exists>c. chunker_inv c \<and> retained_size c = 0 \<and> s2 = s1\<lparr>streamer_chunker := c\<rparr>"
    using s1(3) by auto
qed



end
