(* ===== verification/Cell_Room.thy ===== *)
theory Cell_Room
  imports Cell_Fifo Chunk_Streamer
begin

text \<open>
  What a cell, a cache and a manager certainly keep.  As long as nothing was evicted from a cell, the
  bytes and the number of its chunks alone say whether another one fits, so that this can be said of a whole cache
  without looking at its layout; from there, what streaming leaves in the cache, exactly.
\<close>

section \<open>Cells\<close>

text \<open>A cell that was never full: the next entry is the one behind all the others.\<close>

definition growing :: "cell \<Rightarrow> bool" where
  "growing c \<longleftrightarrow> cell_inv c \<and> next_off c = top_off c"

text \<open>The bytes the contents of a store need at most: entries, and directory entries in the overflow area.\<close>

definition map_level :: "(checksum \<Rightarrow> u8 list option) \<Rightarrow> nat" where
  "map_level m = (\<Sum>ck \<in> dom m. length (the (m ck)) + 72)"

lemma map_level_upd:
  assumes "finite (dom m)" "m ck = None"
  shows "map_level (m(ck \<mapsto> d)) = map_level m + (length d + 72)"
proof -
  have ck: "ck \<notin> dom m" using assms(2) by (simp add: domIff)
  have "(\<Sum>k \<in> dom m. length (the ((m(ck \<mapsto> d)) k)) + 72) = (\<Sum>k \<in> dom m. length (the (m k)) + 72)"
    using ck by (intro sum.cong) auto
  then show ?thesis using assms(1) ck by (simp add: map_level_def)
qed

lemma map_level_cell: "map_level (cell_map c) = cell_bytes c + cell_chunks c * 72"
  by (simp add: map_level_def cell_bytes_def cell_chunks_def sum.distrib)

lemma growing_level:
  assumes "growing c"
  shows "unat (top_off c) + spill_of c * 36 \<le> map_level (cell_map c)"
proof -
  from assms obtain pre mid post where v: "cell_view c pre mid post"
    and inv: "cell_inv c" and nxt: "next_off c = top_off c"
    using cell_items_ring cell_invD unfolding growing_def by metis
  note e = view_top_empty [OF v nxt]
  have items: "cell_items c pre"
    using v e(1,2) nxt unfolding cell_items_def ring_filled_def by auto
  have top: "unat (top_off c) = span pre" and spill: "spill_of c \<le> length pre"
    using ring_bounds(3,10) [OF e(3)] nxt by simp_all
  have "span pre = sum_list (map it_size pre) + length pre * 36"
    by (induction pre) (simp_all add: it_span_def sizeof_cell_body_entry_def)
  then show ?thesis
    using top spill cell_items_counts [OF items] by (simp add: map_level_cell cell_bytes_def cell_chunks_def)
qed

lemma growing_fits:
  assumes "growing c" "map_level (cell_map c) + (unat bs + 108) \<le> header_offset c"
  shows "append_fits c bs"
  using growing_level [OF assms(1)] assms by (simp add: append_fits_def growing_def)

lemma growing_add:
  assumes g: "growing c" and ok: "chunk_ok ck buffer bs" and new: "cell_map c ck = None"
    and room: "map_level (cell_map c) + (unat bs + 108) \<le> header_offset c"
  obtains c' where "cell_add_chunk c ck buffer bs = Inr (True, c')" "growing c'" "slab_size c' = slab_size c"
    "cell_map c' = (cell_map c)(ck \<mapsto> take (unat bs) buffer)"
proof -
  note fits = growing_fits [OF g room]
  have inv: "cell_inv c" using g by (simp add: growing_def)
  then obtain its where a: "addable c its ck buffer bs"
    using ok new by (auto simp: cell_inv_def addable_def)
  note d = addableD [OF a]
  obtain pre mid post where v: "cell_view (entered c) pre mid post" "its = pre @ post"
    using entered_view [OF d(1)] by metis
  have nxt: "next_off (entered c) = top_off (entered c)" using g by (simp add: growing_def)
  note e = view_top_empty [OF v(1) nxt]
  have v': "cell_view (entered c) pre [] []" using v(1) e(1,2) by simp
  have "append_fits (entered c) bs" "ck \<notin> it_key ` set pre" using fits d(7) v(2) by auto
  from append_exact [OF v' this(1) ok this(2), of cell_dir_entry_init] obtain c2 it where
    r: "cell_body_add (entered c) ck buffer bs cell_dir_entry_init = Inr c2" "next_off c2 = top_off c2" by metis
  from add_chunk_append [OF a fits] obtain c' where
    c': "cell_add_chunk c ck buffer bs = Inr (True, c')" "cell_inv c'"
      "cell_map c' = (cell_map c)(ck \<mapsto> take (unat bs) buffer)" "slab_size c' = slab_size c" .
  have "c' = left_cell c2"
    using c'(1) r(1) add_chunk_absent [OF d(1,3,6,5), of buffer bs] by (auto simp: ALWAYS_def split: if_splits)
  then have "growing c'" using c'(2) r(2) by (simp add: growing_def left_cell_def)
  then show ?thesis using that c' by blast
qed

lemma growing_init:
  assumes "\<not> cell_header_sane h" "ok_geometry sz"
  obtains c where "cell_init h m sz = Inr c" "growing c" "cell_map c = Map.empty" "slab_size c = sz"
  using cell_init_insane [OF assms] that unfolding growing_def by metis

section \<open>Caches and managers\<close>

definition growing_cache :: "cache \<Rightarrow> bool" where
  "growing_cache cache \<longleftrightarrow> cache_inv cache \<and> (\<forall>c \<in> set (cells_of cache). growing c)"

text \<open>The body of a cell has 1019872 bytes, of which a new top marker and a directory entry may need 108 with the chunk's own header.\<close>

definition fits_all :: "(checksum \<Rightarrow> u8 list option) \<Rightarrow> nat \<Rightarrow> bool" where
  "fits_all m n \<longleftrightarrow> map_level m + n + 36 \<le> 1019872"

lemma finite_cache_map:
  assumes "cache_inv cache"
  shows "finite (dom (cache_map cache))"
proof (rule finite_subset)
  show "dom (cache_map cache) \<subseteq> (\<Union>c \<in> set (cells_of cache). dom (cell_map c))"
    using cache_invD(3) [OF assms] by (fastforce simp: cache_map_def)
  have "finite (dom (cell_map c))" if "c \<in> set (cells_of cache)" for c
  proof -
    have "cell_inv c" using assms that by (simp add: cache_inv_def)
    then show ?thesis using cell_map_dom by (metis cell_invD finite_imageI List.finite_set)
  qed
  then show "finite (\<Union>c \<in> set (cells_of cache). dom (cell_map c))" by simp
qed

lemma cell_level_le:
  assumes "cache_inv cache" "c \<in> set (cells_of cache)"
  shows "map_level (cell_map c) \<le> map_level (cache_map cache)"
  using cache_sum [OF assms(1), of "\<lambda>_ v. length (the v) + 72"] assms(2)
  by (auto simp: map_level_def intro!: member_le_sum_list)

lemma growing_cache_add:
  assumes g: "growing_cache cache" and ok: "chunk_ok ck buffer bs" and new: "cache_map cache ck = None"
    and room: "fits_all (cache_map cache) (unat bs + 72)"
  obtains cache' where "cache_add_chunk cache ck buffer bs = Inr (True, cache')" "growing_cache cache'"
    "cache_map cache' = (cache_map cache)(ck \<mapsto> take (unat bs) buffer)"
proof -
  have inv: "cache_inv cache" using g by (simp add: growing_cache_def)
  let ?i = "cell_index cache ck"
  let ?c = "cells_of cache ! ?i"
  note d = cache_invD [OF inv, of ck]
  have c: "?c \<in> set (cells_of cache)" using d(3) by simp
  then have gc: "growing ?c" and "slab_size ?c = of_nat CACHE_CELL_SIZE"
    using g inv by (simp_all add: growing_cache_def cache_inv_def)
  then have "header_offset ?c = 1019872" by (simp add: header_offset_def sizeof_cell_header_def CACHE_CELL_SIZE_def)
  then have "map_level (cell_map ?c) + (unat bs + 108) \<le> header_offset ?c"
    using room cell_level_le [OF inv c] by (simp add: fits_all_def)
  moreover have "cell_map ?c ck = None" using new by (simp add: cache_map_def)
  ultimately obtain c' where
    c': "cell_add_chunk ?c ck buffer bs = Inr (True, c')" "growing c'" "slab_size c' = slab_size ?c"
      "cell_map c' = (cell_map ?c)(ck \<mapsto> take (unat bs) buffer)"
    using growing_add [OF gc ok] by metis
  let ?cache = "set_cache_cell cache ?i c'"
  have "cache_add_chunk cache ck buffer bs = Inr (True, ?cache)"
    using d(1,2) c'(1) by (simp add: cache_add_chunk_def)
  moreover have "growing_cache ?cache"
  proof -
    have "cell_inv c'" using c'(2) by (simp add: growing_def)
    from cache_inv_update(1) [OF inv refl this c'(3)] have "cache_inv ?cache" using c'(4) by (metis map_le_refl)
    moreover have "growing x" if "x \<in> set ((cells_of cache)[?i := c'])" for x
      using g c'(2) set_update_subset_insert [of "cells_of cache" ?i c'] that by (auto simp: growing_cache_def)
    ultimately show ?thesis by (simp add: growing_cache_def)
  qed
  moreover have "cache_map ?cache = (cache_map cache)(ck \<mapsto> take (unat bs) buffer)"
  proof
    fix k
    show "cache_map ?cache k = ((cache_map cache)(ck \<mapsto> take (unat bs) buffer)) k"
      using d(3) c'(4) by (cases "cell_index cache k = ?i") (auto simp: cache_map_def)
  qed
  ultimately show ?thesis by (rule that)
qed

text \<open>Opening a buffer, new or old, leaves cells that were never full as they were.\<close>

lemma init_cells_inverse:
  assumes "cache_init_cells n slots = Inr cs"
  shows "length cs = n" "i < n \<Longrightarrow> cell_init (fst (slots ! i)) (snd (slots ! i)) (of_nat CACHE_CELL_SIZE) = Inr (cs ! i)"
proof -
  have "length cs = n \<and>
    (\<forall>i < n. cell_init (fst (slots ! i)) (snd (slots ! i)) (of_nat CACHE_CELL_SIZE) = Inr (cs ! i))"
    using assms
  proof (induction n slots arbitrary: cs rule: cache_init_cells.induct)
    case (3 n header m slots)
    then show ?case by (fastforce simp: rbind_eq_Inr nth_Cons split: nat.split)
  qed simp_all
  then show "length cs = n" "i < n \<Longrightarrow> cell_init (fst (slots ! i)) (snd (slots ! i)) (of_nat CACHE_CELL_SIZE) = Inr (cs ! i)"
    by simp_all
qed

lemma growing_cache_init:
  assumes init: "cache_init h slots sz = Inr cache" and inv: "cache_inv cache"
    and slots: "\<And>i. i < length (cells_of cache) \<Longrightarrow> \<not> cell_header_sane (fst (slots ! i)) \<or>
      (\<exists>c. growing c \<and> slab_size c = of_nat CACHE_CELL_SIZE \<and> slots ! i = (cell_header c, slab c))"
  shows "growing_cache cache"
proof -
  from init obtain n cs where cs: "cache_init_cells n slots = Inr cs" "cells_of cache = cs"
    by (auto simp: cache_init_def Let_def rbind_eq_Inr ALWAYS_eq_Inr cells_of_def)
  have "growing (cs ! i)" if "i < length cs" for i
  proof -
    have ci: "cell_init (fst (slots ! i)) (snd (slots ! i)) (of_nat CACHE_CELL_SIZE) = Inr (cs ! i)"
      using init_cells_inverse [OF cs(1)] that by simp
    from slots [of i] that cs(2) consider "\<not> cell_header_sane (fst (slots ! i))"
      | c where "growing c" "slab_size c = of_nat CACHE_CELL_SIZE" "slots ! i = (cell_header c, slab c)" by auto
    then show ?thesis
    proof cases
      case 1
      from growing_init [OF 1 geometry_slab, of "snd (slots ! i)"] ci show ?thesis by (metis sum.inject(2))
    next
      case 2
      have "cell_inv c" using 2(1) by (simp add: growing_def)
      from cell_init_own [OF this, unfolded 2(2)] show ?thesis using ci 2(1,3) by simp
    qed
  qed
  then show ?thesis using inv cs(2) by (auto simp: growing_cache_def in_set_conv_nth)
qed

lemma growing_open_new:
  assumes "cache_magic h \<noteq> CACHE_HEADER_MAGIC" "\<forall>slot \<in> set slots. \<not> cell_header_sane (fst slot)"
    and "size_for sz (length slots)"
  obtains cache where "cache_init h slots sz = Inr cache" "growing_cache cache" "cache_map cache = Map.empty"
    "length (cells_of cache) = length slots"
proof -
  from open_new [OF assms] obtain cache where
    c: "cache_init h slots sz = Inr cache" "cache_inv cache" "cache_map cache = Map.empty" .
  have "length (cells_of cache) = length slots"
    using c(1) init_cells_inverse(1) size_for_slots(2) [OF assms(3)]
    by (auto simp: cache_init_def Let_def rbind_eq_Inr ALWAYS_eq_Inr cells_of_def)
  moreover from this have "growing_cache cache" using assms(2) by (intro growing_cache_init [OF c(1,2)]) simp
  ultimately show ?thesis using that c by blast
qed

lemma growing_open_image:
  assumes g: "growing_cache cache" and img: "image_of cache damaged slots"
    and sz: "size_for sz (length (cells_of cache))"
  obtains cache' where "cache_init (cache_header cache) slots sz = Inr cache'" "growing_cache cache'"
    "\<And>ck. cache_map cache' ck = (if cell_index cache ck \<in> damaged then None else cache_map cache ck)"
proof -
  have inv: "cache_inv cache" using g by (simp add: growing_cache_def)
  from open_image [OF inv img sz] obtain cache' where
    c: "cache_init (cache_header cache) slots sz = Inr cache'" "cache_inv cache'"
      "\<And>ck. cache_map cache' ck = (if cell_index cache ck \<in> damaged then None else cache_map cache ck)" by metis
  have len: "length (cells_of cache') = length (cells_of cache)"
    using c(1) init_cells_inverse(1) size_for_slots(2) [OF sz]
    by (auto simp: cache_init_def Let_def rbind_eq_Inr ALWAYS_eq_Inr cells_of_def)
  have "\<not> cell_header_sane (fst (slots ! i)) \<or>
      (\<exists>c. growing c \<and> slab_size c = of_nat CACHE_CELL_SIZE \<and> slots ! i = (cell_header c, slab c))"
    if "i < length (cells_of cache')" for i
  proof -
    have "cells_of cache ! i \<in> set (cells_of cache)" using that len by simp
    then have "growing (cells_of cache ! i)" "slab_size (cells_of cache ! i) = of_nat CACHE_CELL_SIZE"
      using g inv by (simp_all add: growing_cache_def cache_inv_def)
    then show ?thesis using img that len by (cases "i \<in> damaged") (auto simp: image_of_def)
  qed
  then have "growing_cache cache'" by (rule growing_cache_init [OF c(1,2)])
  then show ?thesis using that c by blast
qed

section \<open>Streaming\<close>

text \<open>One chunk that is new, at the manager.\<close>

lemma growing_store_new:
  assumes g: "growing_cache (mgr_cache (streamer_manager s))" and wf: "wf_digest mh" and d: "chunk_sized d"
    and new: "mgr_map (streamer_manager s) (digest mh d) = None"
    and room: "fits_all (mgr_map (streamer_manager s)) (length d + 72)"
  obtains mgr where "store_chunk mh s d = Inr (s\<lparr>streamer_manager := mgr, chunk_added := chunk_added s + 1\<rparr>)"
    "growing_cache (mgr_cache mgr)" "mgr_map mgr = (mgr_map (streamer_manager s))(digest mh d \<mapsto> d)"
proof -
  let ?mgr = "streamer_manager s"
  note ok = sized_chunk_ok [OF wf d]
  have inv: "mgr_inv ?mgr" using g by (simp add: mgr_inv_def growing_cache_def)
  have has: "cache_manager_has_chunk ?mgr (digest mh d) = Inr (False, ?mgr)"
    using managers.store_has [OF inv ok(2)] new by simp
  obtain cache' where c: "cache_add_chunk (mgr_cache ?mgr) (digest mh d) d (of_nat (length d)) = Inr (True, cache')"
    "growing_cache cache'" "cache_map cache' = (cache_map (mgr_cache ?mgr))(digest mh d \<mapsto> d)"
    using growing_cache_add [OF g ok(1)] new room ok(3) by (auto simp: mgr_map_def)
  have "store_chunk mh s d = Inr (s\<lparr>streamer_manager := ?mgr\<lparr>mgr_cache := cache'\<rparr>, chunk_added := chunk_added s + 1\<rparr>)"
    by (simp add: store_chunk_unfold [OF ok(3)] has cache_manager_add_chunk_def c(1))
  then show ?thesis using that [of "?mgr\<lparr>mgr_cache := cache'\<rparr>"] c(2,3) by (simp add: mgr_map_def)
qed

text \<open>
  What storing a list of chunks yields while there is room: everything that was there stays, every chunk whose digest is
  new is there under it, the first of those with the same digest; so many additions are counted as there are
  new digests, and as many hits as there are other chunks.
\<close>

definition chunk_binding :: "(u8 list \<Rightarrow> u8 list) \<Rightarrow> u8 list \<Rightarrow> checksum \<times> u8 list" where
  "chunk_binding mh d = (digest mh d, d)"

definition new_digests :: "(u8 list \<Rightarrow> u8 list) \<Rightarrow> chunk_streamer \<Rightarrow> u8 list list \<Rightarrow> nat" where
  "new_digests mh s ds = card (digest mh ` set ds - dom (mgr_map (streamer_manager s)))"

definition stored_all :: "(u8 list \<Rightarrow> u8 list) \<Rightarrow> chunk_streamer \<Rightarrow> u8 list list \<Rightarrow> chunk_streamer \<Rightarrow> bool" where
  "stored_all mh s ds s' \<longleftrightarrow> growing_cache (mgr_cache (streamer_manager s')) \<and>
     mgr_map (streamer_manager s') = map_of (map (chunk_binding mh) ds) ++ mgr_map (streamer_manager s) \<and>
     chunk_added s' = chunk_added s + of_nat (new_digests mh s ds) \<and>
     chunk_hit s' = chunk_hit s + of_nat (length ds - new_digests mh s ds)"

lemma new_digests_le: "new_digests mh s ds \<le> length ds"
proof -
  have "card (digest mh ` set ds - dom (mgr_map (streamer_manager s))) \<le> card (digest mh ` set ds)"
    by (rule card_mono) auto
  also have "\<dots> \<le> length ds" by (rule order_trans [OF card_image_le card_length]) simp
  finally show ?thesis by (simp add: new_digests_def)
qed

lemma map_add_known: "m k \<noteq> None \<Longrightarrow> map_of ((k, v) # kvs) ++ m = map_of kvs ++ m"
  by (rule ext) (auto simp: map_add_def split: option.splits)

lemma map_add_new: "m k = None \<Longrightarrow> map_of kvs ++ m(k \<mapsto> v) = map_of ((k, v) # kvs) ++ m"
  by (rule ext) (auto simp: map_add_def split: option.splits)

lemma stored_all_known:
  assumes "mgr_map (streamer_manager s) (digest mh d) \<noteq> None"
    and "stored_all mh (s\<lparr>chunk_hit := chunk_hit s + 1\<rparr>) ds s'"
  shows "stored_all mh s (d # ds) s'"
proof -
  let ?s = "s\<lparr>chunk_hit := chunk_hit s + 1\<rparr>"
  have n: "new_digests mh s (d # ds) = new_digests mh ?s ds"
    using assms(1) by (auto simp: new_digests_def intro!: arg_cong [of _ _ card])
  have "(of_nat (length (d # ds) - new_digests mh ?s ds) :: u32) = 1 + of_nat (length ds - new_digests mh ?s ds)"
    using new_digests_le [of mh ?s ds] by (simp add: Suc_diff_le)
  then show ?thesis
    using assms(2) map_add_known [of "mgr_map (streamer_manager s)" "digest mh d" d "map (chunk_binding mh) ds"] assms(1) unfolding stored_all_def n
    by (simp add: chunk_binding_def)
qed

lemma stored_all_new:
  assumes new: "mgr_map (streamer_manager s) (digest mh d) = None"
    and map: "mgr_map mgr = (mgr_map (streamer_manager s))(digest mh d \<mapsto> d)"
    and rest: "stored_all mh (s\<lparr>streamer_manager := mgr, chunk_added := chunk_added s + 1\<rparr>) ds s'"
  shows "stored_all mh s (d # ds) s'"
proof -
  let ?s = "s\<lparr>streamer_manager := mgr, chunk_added := chunk_added s + 1\<rparr>"
  have "digest mh ` set (d # ds) - dom (mgr_map (streamer_manager s)) =
      insert (digest mh d) (digest mh ` set ds - dom (mgr_map mgr))"
    using new map by auto
  moreover have "digest mh d \<notin> digest mh ` set ds - dom (mgr_map mgr)" using map by simp
  ultimately have n: "new_digests mh s (d # ds) = Suc (new_digests mh ?s ds)" by (simp add: new_digests_def)
  show ?thesis
    using rest map_add_new [of "mgr_map (streamer_manager s)" "digest mh d" "map (chunk_binding mh) ds" d] new map unfolding stored_all_def n
    by (simp add: chunk_binding_def)
qed

lemma store_chunks_all:
  assumes "growing_cache (mgr_cache (streamer_manager s))" "wf_digest mh" "\<forall>d \<in> set ds. chunk_sized d"
    and "fits_all (mgr_map (streamer_manager s)) (\<Sum>d\<leftarrow>ds. length d + 72)"
  obtains s' where "store_chunks mh s ds = Inr s'" "stored_all mh s ds s'"
  using assms(1,3,4)
proof (induction ds arbitrary: s thesis)
  case Nil
  then show ?case by (simp add: stored_all_def new_digests_def)
next
  case (Cons d ds)
  have inv: "mgr_inv (streamer_manager s)" using Cons.prems(2) by (simp add: mgr_inv_def growing_cache_def)
  have d: "chunk_sized d" "\<forall>d \<in> set ds. chunk_sized d" using Cons.prems(3) by simp_all
  show ?case
  proof (cases "mgr_map (streamer_manager s) (digest mh d) = None")
    case True
    have "fits_all (mgr_map (streamer_manager s)) (length d + 72)" using Cons.prems(4) by (simp add: fits_all_def)
    from growing_store_new [OF Cons.prems(2) assms(2) d(1) True this] obtain mgr where
      m: "store_chunk mh s d = Inr (s\<lparr>streamer_manager := mgr, chunk_added := chunk_added s + 1\<rparr>)"
        "growing_cache (mgr_cache mgr)" "mgr_map mgr = (mgr_map (streamer_manager s))(digest mh d \<mapsto> d)" .
    let ?s = "s\<lparr>streamer_manager := mgr, chunk_added := chunk_added s + 1\<rparr>"
    have "finite (dom (mgr_map (streamer_manager s)))"
      using finite_cache_map inv by (simp add: mgr_map_def mgr_inv_def)
    then have "fits_all (mgr_map (streamer_manager ?s)) (\<Sum>d\<leftarrow>ds. length d + 72)"
      using Cons.prems(4) map_level_upd [of "mgr_map (streamer_manager s)" "digest mh d" d] True m(3) by (simp add: fits_all_def)
    from Cons.IH [of ?s, OF _ _ d(2) this] m(2) obtain s' where
      "store_chunks mh ?s ds = Inr s'" "stored_all mh ?s ds s'" by auto
    then show ?thesis using Cons.prems(1) [of s'] stored_all_new [OF True m(3)] m(1) by simp
  next
    case False
    let ?s = "s\<lparr>chunk_hit := chunk_hit s + 1\<rparr>"
    have "fits_all (mgr_map (streamer_manager ?s)) (\<Sum>d\<leftarrow>ds. length d + 72)"
      using Cons.prems(4) by (simp add: fits_all_def)
    from Cons.IH [of ?s, OF _ _ d(2) this] Cons.prems(2) obtain s' where
      "store_chunks mh ?s ds = Inr s'" "stored_all mh ?s ds s'" by auto
    then show ?thesis
      using Cons.prems(1) [of s'] stored_all_known [OF False] store_known [OF inv assms(2) d(1) False] by simp
  qed
qed

end
