(* ===== verification/Life_Cycle.thy ===== *)
theory Life_Cycle
  imports Cell_Room
begin

text \<open>
  The life of the whole program: a file that is created, opened, streamed into, read, closed or abandoned in a crash, and
  opened again, with the calls of \<^verbatim>\<open>cache_manager.c\<close> and \<^verbatim>\<open>chunk_streamer.c\<close> as the rules of a state machine.  On its
  reachable states: what lookups return, that no call reads or writes out of bounds, and the round trip of a stream.
\<close>

section \<open>Files\<close>

text \<open>What the operating system maps: a file that never was a cache, and the file of a cache that was in use before.\<close>

definition new_file :: "'w os \<Rightarrow> string \<Rightarrow> u64 \<Rightarrow> 'w \<Rightarrow> 'w \<Rightarrow> bool" where
  "new_file os filename sz w w' \<longleftrightarrow>
     (\<exists>fd dax ptr header slots. maps_file os filename sz w (fd, dax, ptr, header, slots, w') \<and>
        cache_magic header \<noteq> CACHE_HEADER_MAGIC \<and> (\<forall>slot \<in> set slots. \<not> cell_header_sane (fst slot)) \<and>
        size_for (cache_manager_filesize sz) (length slots))"

definition old_file :: "'w os \<Rightarrow> string \<Rightarrow> u64 \<Rightarrow> cache \<Rightarrow> nat set \<Rightarrow> 'w \<Rightarrow> 'w \<Rightarrow> bool" where
  "old_file os filename sz cache damaged w w' \<longleftrightarrow>
     (\<exists>fd dax ptr slots. maps_file os filename sz w (fd, dax, ptr, cache_header cache, slots, w') \<and>
        image_of cache damaged slots \<and> size_for (cache_manager_filesize sz) (length (cells_of cache)))"

lemma open_new_file:
  assumes "new_file os filename sz w w'"
  obtains mgr' where "cache_manager_open_cache os mgr filename sz w = Some (Inr (0, mgr', w'))"
    "growing_cache (mgr_cache mgr')" "mgr_map mgr' = Map.empty"
proof -
  from assms obtain fd dax ptr header slots where
    m: "maps_file os filename sz w (fd, dax, ptr, header, slots, w')"
    and h: "cache_magic header \<noteq> CACHE_HEADER_MAGIC" "\<forall>slot \<in> set slots. \<not> cell_header_sane (fst slot)"
      "size_for (cache_manager_filesize sz) (length slots)"
    unfolding new_file_def by blast
  from growing_open_new [OF h] obtain cache where
    "cache_init header slots (cache_manager_filesize sz) = Inr cache" "growing_cache cache" "cache_map cache = Map.empty"
    by metis
  then show ?thesis using that unfolding open_cache_mapped [OF m] by (simp add: mgr_map_def)
qed

lemma open_old_file:
  assumes "old_file os filename sz cache damaged w w'" "cache_inv cache"
  obtains mgr' where "cache_manager_open_cache os mgr filename sz w = Some (Inr (0, mgr', w'))"
    "mgr_inv mgr'" "\<And>ck. mgr_map mgr' ck = (if cell_index cache ck \<in> damaged then None else cache_map cache ck)"
    "growing_cache cache \<Longrightarrow> growing_cache (mgr_cache mgr')"
proof -
  from assms(1) obtain fd dax ptr slots where
    m: "maps_file os filename sz w (fd, dax, ptr, cache_header cache, slots, w')" and img: "image_of cache damaged slots"
    and sz: "size_for (cache_manager_filesize sz) (length (cells_of cache))"
    unfolding old_file_def by blast
  from open_image [OF assms(2) img sz] obtain cache' where
    c: "cache_init (cache_header cache) slots (cache_manager_filesize sz) = Inr cache'" "cache_inv cache'"
      "\<And>ck. cache_map cache' ck = (if cell_index cache ck \<in> damaged then None else cache_map cache ck)" by metis
  have "growing_cache cache'" if "growing_cache cache"
    using growing_open_image [OF that img sz] c(1) by (metis sum.inject(2))
  then show ?thesis using that c unfolding open_cache_mapped [OF m] by (simp add: mgr_inv_def mgr_map_def)
qed

section \<open>The round trip of a stream\<close>

text \<open>The chunks of a stream are in a cache: with what is retained they make up the stream, and each is found under its digest.\<close>

definition holds_stream :: "(u8 list \<Rightarrow> u8 list) \<Rightarrow> cache_manager \<Rightarrow> u8 list \<Rightarrow> u8 list \<Rightarrow> bool" where
  "holds_stream mh mgr bs rest \<longleftrightarrow>
     (\<exists>ds. concat ds @ rest = bs \<and>
        (\<forall>d \<in> set ds. \<exists>ch'. cache_manager_get_chunk mgr (digest mh d) chunk_init = Inr (True, mgr, ch') \<and>
           ch_checksum ch' = digest mh d \<and> chunk_data ch' = d))"

text \<open>A stream of this size fits into an empty cache whatever cells its chunks go to.\<close>

definition STREAM_MAX :: nat where
  "STREAM_MAX = 985000"

lemma sized_sum:
  "\<forall>d \<in> set ds. chunk_sized d \<Longrightarrow> 2049 * length ds \<le> length (concat ds) \<and>
     (\<Sum>d\<leftarrow>ds. length d + 72) = length (concat ds) + 72 * length ds"
  by (induction ds) (auto simp: chunk_sized_def CHUNKER_MIN_CHUNK_SIZE_def)

lemma stream_fits:
  assumes "length bs \<le> STREAM_MAX"
  shows "fits_all Map.empty (\<Sum>d\<leftarrow>fst (split_chunks bs). length d + 72)"
proof -
  let ?ds = "fst (split_chunks bs)"
  have p: "concat ?ds @ snd (split_chunks bs) = bs" "\<forall>d \<in> set ?ds. chunk_sized d"
    using split_chunks_parts [of bs] by simp_all
  have "length (concat ?ds) \<le> length (concat ?ds @ snd (split_chunks bs))" by simp
  then have "length (concat ?ds) \<le> length bs" unfolding p(1) .
  then show ?thesis
    using sized_sum [OF p(2)] assms by (simp add: fits_all_def map_level_def STREAM_MAX_def)
qed

lemma map_of_digests:
  "d \<in> set ds \<Longrightarrow> inj_on mh (set ds) \<Longrightarrow> map_of (map (chunk_binding mh) ds) (digest mh d) = Some d"
proof (induction ds)
  case (Cons x ds)
  have "mh x = mh d \<Longrightarrow> x = d" using inj_onD [OF Cons.prems(2)] Cons.prems(1) by auto
  then show ?case using Cons by (auto simp: chunk_binding_def digest_def inj_on_insert)
qed simp

lemma process_stored:
  assumes "streamer_ready s" "growing_cache (mgr_cache (streamer_manager s))" "wf_digest mh" "unat n \<le> length bs"
    and "fits_all (mgr_map (streamer_manager s)) (\<Sum>d\<leftarrow>fst (split_chunks (take (unat n) bs)). length d + 72)"
  obtains s' where "chunk_streamer_process_buffer mh s (Some bs) n = Some (Inr (0, s'))"
    "stored_all mh s (fst (split_chunks (take (unat n) bs))) s'"
    "retained_bytes (streamer_chunker s') = snd (split_chunks (take (unat n) bs))"
    "chunker_inv (streamer_chunker s')"
proof -
  let ?ds = "fst (split_chunks (take (unat n) bs))"
  have "\<forall>d \<in> set ?ds. chunk_sized d" using split_chunks_parts [of "take (unat n) bs"] by simp
  from store_chunks_all [OF assms(2,3) this assms(5)] obtain s1 where
    s1: "store_chunks mh s ?ds = Inr s1" "stored_all mh s ?ds s1" .
  with process_streams [OF assms(1,4), of mh] obtain c where
    c: "chunker_inv c" "retained_bytes c = snd (split_chunks (take (unat n) bs))"
      "chunk_streamer_process_buffer mh s (Some bs) n = Some (Inr (0, s1\<lparr>streamer_chunker := c\<rparr>))"
    by (auto simp: streams_to_def)
  have "stored_all mh s ?ds (s1\<lparr>streamer_chunker := c\<rparr>)" using s1(2) by (simp add: stored_all_def)
  then show ?thesis using that [of "s1\<lparr>streamer_chunker := c\<rparr>"] c by simp
qed

text \<open>
  C13: streaming into a cache that was never full, and has room for all chunks, stores exactly them.  Nothing that was
  there is lost; of the chunks with a new digest the first is there under it; the two counters move by the number of
  new digests and by the number of the other chunks, so that nothing is stored twice.
\<close>

theorem stream_stored_exactly:
  assumes "streamer_ready s" "growing_cache (mgr_cache (streamer_manager s))" "wf_digest mh" "unat n \<le> length bs"
    and "fits_all (mgr_map (streamer_manager s)) (\<Sum>d\<leftarrow>fst (split_chunks (take (unat n) bs)). length d + 72)"
  shows "\<exists>s'. chunk_streamer_process_buffer mh s (Some bs) n = Some (Inr (0, s')) \<and>
    growing_cache (mgr_cache (streamer_manager s')) \<and>
    mgr_map (streamer_manager s') =
      map_of (map (chunk_binding mh) (fst (split_chunks (take (unat n) bs)))) ++ mgr_map (streamer_manager s) \<and>
    chunk_added s' = chunk_added s + of_nat (new_digests mh s (fst (split_chunks (take (unat n) bs)))) \<and>
    chunk_hit s' = chunk_hit s + of_nat (length (fst (split_chunks (take (unat n) bs))) -
      new_digests mh s (fst (split_chunks (take (unat n) bs))))"
  using process_stored [OF assms] unfolding stored_all_def by metis

text \<open>A streamer on a new cache of one cell.\<close>

lemma new_streamer:
  obtains s where "streamer_ready s" "growing_cache (mgr_cache (streamer_manager s))"
    "mgr_map (streamer_manager s) = Map.empty" "chunk_added s = 0" "chunk_hit s = 0"
proof -
  have h: "cache_magic blank_cache_header \<noteq> CACHE_HEADER_MAGIC"
      "\<forall>slot \<in> set [(blank_header, \<lambda>_. 0 :: u8)]. \<not> cell_header_sane (fst slot)"
      "size_for 2097152 (length [(blank_header, \<lambda>_ :: nat. 0 :: u8)])"
    using blank_header_insane two_megabytes by (simp_all add: blank_cache_header_def CACHE_HEADER_MAGIC_def)
  from growing_open_new [OF h] obtain cache where c: "growing_cache cache" "cache_map cache = Map.empty" by metis
  have "mgr_inv (cache_manager_init\<lparr>mgr_cache := cache\<rparr>)" using c(1) by (simp add: mgr_inv_def growing_cache_def)
  from streamer_init_ready [OF this] obtain s where
    "streamer_ready s" "streamer_manager s = cache_manager_init\<lparr>mgr_cache := cache\<rparr>" "chunk_added s = 0" "chunk_hit s = 0" .
  then show ?thesis using that [of s] c by (simp add: mgr_map_def)
qed

theorem stream_stored_exactly_witness:
  "\<exists>s s'. mgr_map (streamer_manager s) = Map.empty \<and>
     chunk_streamer_process_buffer sample_digest s (Some (zeros @ zeros)) 49152 = Some (Inr (0, s')) \<and>
     mgr_map (streamer_manager s') = [sample_checksum \<mapsto> zeros] \<and> chunk_added s' = 1 \<and> chunk_hit s' = 1"
proof -
  obtain s where s: "streamer_ready s" "growing_cache (mgr_cache (streamer_manager s))"
    "mgr_map (streamer_manager s) = Map.empty" "chunk_added s = 0" "chunk_hit s = 0" by (rule new_streamer)
  have len: "length zeros = 24576" using zeros_length(1) by simp
  then have n: "unat (49152 :: u32) \<le> length (zeros @ zeros)" and all: "take (unat (49152 :: u32)) (zeros @ zeros) = zeros @ zeros"
    by simp_all
  have sp: "split_chunks (zeros @ zeros) = ([zeros, zeros], [])"
    using split_chunks_append [of zeros zeros] zeros_split by simp
  have "fits_all (mgr_map (streamer_manager s)) (\<Sum>d\<leftarrow>fst (split_chunks (take (unat (49152 :: u32)) (zeros @ zeros))). length d + 72)"
    unfolding all sp by (simp add: s(3) fits_all_def map_level_def len)
  moreover have "new_digests sample_digest s [zeros, zeros] = 1" by (simp add: new_digests_def s(3) sample_digest_wf)
  ultimately show ?thesis
    using stream_stored_exactly [OF s(1,2) sample_digest_wf(1) n] unfolding all sp
    by (simp add: s(3-5) chunk_binding_def sample_digest_wf) (metis s(3))
qed

text \<open>From the contents to what lookups return.\<close>

lemma holds_streamI:
  assumes "mgr_inv mgr" "wf_digest mh" "concat ds @ rest = bs"
    and "\<And>d. d \<in> set ds \<Longrightarrow> mgr_map mgr (digest mh d) = Some d"
  shows "holds_stream mh mgr bs rest"
  unfolding holds_stream_def
proof (intro exI [of _ ds] conjI ballI)
  fix d assume "d \<in> set ds"
  from assms(4) [OF this] have m: "mgr_map mgr (digest mh d) = Some d" .
  have "wf_checksum (digest mh d)" using assms(2) by (simp add: wf_digest_def wf_checksum_def digest_def)
  from managers.store_get_known [OF assms(1) this wf_chunk_init m]
  show "\<exists>ch'. cache_manager_get_chunk mgr (digest mh d) chunk_init = Inr (True, mgr, ch') \<and>
      ch_checksum ch' = digest mh d \<and> chunk_data ch' = d" by blast
qed (rule assms(3))

text \<open>A new file, opened, and a stream put into it.\<close>

lemma new_file_stream:
  assumes "new_file os filename sz w w'" "wf_digest mh" "length bs \<le> STREAM_MAX"
    and "inj_on mh (set (fst (split_chunks bs)))"
  obtains mgr1 s s' where "cache_manager_open_cache os mgr filename sz w = Some (Inr (0, mgr1, w'))"
    "chunk_streamer_init mgr1 = Inr (0, s)"
    "chunk_streamer_process_buffer mh s (Some bs) (of_nat (length bs)) = Some (Inr (0, s'))"
    "growing_cache (mgr_cache (streamer_manager s'))"
    "retained_bytes (streamer_chunker s') = snd (split_chunks bs)"
    "\<And>d. d \<in> set (fst (split_chunks bs)) \<Longrightarrow> mgr_map (streamer_manager s') (digest mh d) = Some d"
    "chunk_added s' = of_nat (card (set (fst (split_chunks bs))))"
proof -
  let ?ds = "fst (split_chunks bs)"
  from open_new_file [OF assms(1)] obtain mgr1 where
    m: "cache_manager_open_cache os mgr filename sz w = Some (Inr (0, mgr1, w'))"
      "growing_cache (mgr_cache mgr1)" "mgr_map mgr1 = Map.empty" by metis
  have "mgr_inv mgr1" using m(2) by (simp add: mgr_inv_def growing_cache_def)
  from streamer_init_ready [OF this] obtain s where
    s: "chunk_streamer_init mgr1 = Inr (0, s)" "streamer_ready s" "streamer_manager s = mgr1" "chunk_added s = 0" .
  have n: "unat (of_nat (length bs) :: u32) = length bs" using assms(3) by (simp add: STREAM_MAX_def word_nat)
  have fits: "fits_all (mgr_map (streamer_manager s)) (\<Sum>d\<leftarrow>?ds. length d + 72)"
    using stream_fits [OF assms(3)] s(3) m(3) by simp
  from process_stored [OF s(2) _ assms(2), of "of_nat (length bs)" bs] n fits m(2) s(3) obtain s' where
    p: "chunk_streamer_process_buffer mh s (Some bs) (of_nat (length bs)) = Some (Inr (0, s'))" "stored_all mh s ?ds s'"
      "retained_bytes (streamer_chunker s') = snd (split_chunks bs)" by auto
  have found: "mgr_map (streamer_manager s') (digest mh d) = Some d" if "d \<in> set ?ds" for d
    using p(2) map_of_digests [OF that assms(4)] s(3) m(3) by (simp add: stored_all_def)
  have "inj_on (digest mh) (set ?ds)" using assms(4) by (auto simp: inj_on_def digest_def)
  then have "new_digests mh s ?ds = card (set ?ds)" using s(3) m(3) by (simp add: new_digests_def card_image)
  then show ?thesis using that [OF m(1) s(1) p(1) _ p(3) found] p(2) s(4) by (simp add: stored_all_def)
qed

text \<open>
  C2: a stream of up to 985000 bytes is kept without loss.  Opening a new file, setting up a streamer and streaming the
  bytes succeed; then every chunk is found under its digest with its own bytes, the chunks and the retained rest
  make up the stream, and every different chunk was stored once.  When the file is closed or its process is killed between two updates, and it is opened
  again by any manager, all of this can still be read.
\<close>

theorem stream_roundtrip:
  assumes "new_file os filename sz w w'" "wf_digest mh" "length bs \<le> STREAM_MAX"
    and "inj_on mh (set (fst (split_chunks bs)))"
  shows "\<exists>mgr1 s s'. cache_manager_open_cache os mgr filename sz w = Some (Inr (0, mgr1, w')) \<and>
    chunk_streamer_init mgr1 = Inr (0, s) \<and>
    chunk_streamer_process_buffer mh s (Some bs) (of_nat (length bs)) = Some (Inr (0, s')) \<and>
    holds_stream mh (streamer_manager s') bs (retained_bytes (streamer_chunker s')) \<and>
    chunk_added s' = of_nat (card (set (fst (split_chunks bs)))) \<and>
    (\<forall>w1 w2 mgr2. old_file os filename sz (mgr_cache (streamer_manager s')) {} w1 w2 \<longrightarrow>
      (\<exists>mgr3. cache_manager_open_cache os mgr2 filename sz w1 = Some (Inr (0, mgr3, w2)) \<and>
         holds_stream mh mgr3 bs (retained_bytes (streamer_chunker s'))))"
proof -
  from new_file_stream [OF assms] obtain mgr1 s s' where
    o: "cache_manager_open_cache os mgr filename sz w = Some (Inr (0, mgr1, w'))" "chunk_streamer_init mgr1 = Inr (0, s)"
      "chunk_streamer_process_buffer mh s (Some bs) (of_nat (length bs)) = Some (Inr (0, s'))"
    and g: "growing_cache (mgr_cache (streamer_manager s'))"
    and r: "retained_bytes (streamer_chunker s') = snd (split_chunks bs)"
    and d: "\<And>d. d \<in> set (fst (split_chunks bs)) \<Longrightarrow> mgr_map (streamer_manager s') (digest mh d) = Some d"
    and n: "chunk_added s' = of_nat (card (set (fst (split_chunks bs))))" by metis
  have inv: "mgr_inv (streamer_manager s')" using g by (simp add: growing_cache_def mgr_inv_def)
  have parts: "concat (fst (split_chunks bs)) @ retained_bytes (streamer_chunker s') = bs"
    using split_chunks_parts [of bs] r by simp
  have "\<exists>mgr3. cache_manager_open_cache os mgr2 filename sz w1 = Some (Inr (0, mgr3, w2)) \<and>
      holds_stream mh mgr3 bs (retained_bytes (streamer_chunker s'))"
    if "old_file os filename sz (mgr_cache (streamer_manager s')) {} w1 w2" for w1 w2 mgr2
  proof -
    from open_old_file [OF that inv [unfolded mgr_inv_def], of mgr2] obtain mgr3 where
      m: "cache_manager_open_cache os mgr2 filename sz w1 = Some (Inr (0, mgr3, w2))" "mgr_inv mgr3"
        "\<And>ck. mgr_map mgr3 ck = cache_map (mgr_cache (streamer_manager s')) ck" by auto
    have "mgr_map mgr3 (digest mh d) = Some d" if "d \<in> set (fst (split_chunks bs))" for d
      using d [OF that] m(3) by (simp add: mgr_map_def)
    from holds_streamI [OF m(2) assms(2) parts this] m(1) show ?thesis by blast
  qed
  with o n holds_streamI [OF inv assms(2) parts d] show ?thesis by metis
qed

text \<open>Streaming does not change the number of cells, so the file keeps its size.\<close>

lemma store_chunk_cells:
  "store_chunk mh s d = Inr s' \<Longrightarrow>
     length (cells_of (mgr_cache (streamer_manager s'))) = length (cells_of (mgr_cache (streamer_manager s)))"
  by (auto simp: store_chunk_def chunk_streamer_store_def cache_manager_has_chunk_def cache_manager_add_chunk_def
      cache_has_chunk_def cache_add_chunk_def rbind_eq_Inr split: if_splits)

lemma store_chunks_cells:
  "store_chunks mh s ds = Inr s' \<Longrightarrow>
     length (cells_of (mgr_cache (streamer_manager s'))) = length (cells_of (mgr_cache (streamer_manager s)))"
  by (induction ds arbitrary: s) (auto simp: rbind_eq_Inr dest: store_chunk_cells)

lemma process_cells:
  assumes "streamer_ready s" "unat n \<le> length bs"
    and "chunk_streamer_process_buffer mh s (Some bs) n = Some (Inr (ret, s'))"
  shows "length (cells_of (mgr_cache (streamer_manager s'))) = length (cells_of (mgr_cache (streamer_manager s)))"
  using process_streams [OF assms(1,2), of mh] assms(3)
  by (auto simp: streams_to_def dest: store_chunks_cells split: sum.splits)

text \<open>An operating system with one file of two megabytes, whose image is the state of the world.\<close>

definition file_os :: "(Cache.cache_header \<times> slot list) os" where
  "file_os = \<lparr>os_access = (\<lambda>_ _ w. (0, w)), os_remove = (\<lambda>_ w. (0, w)), os_open = (\<lambda>_ _ _ w. (3, w)),
     os_stat = (\<lambda>_ w. ((0, 2097152), w)), os_write = (\<lambda>_ bs w. (int (length bs), w)),
     os_close = (\<lambda>_ w. (0, w)), os_fsync = (\<lambda>_ w. (0, w)),
     os_mmap = (\<lambda>_ _ _ _ _ _ w. (Mapped 4096 (fst w) (snd w), w)), os_munmap = (\<lambda>_ _ w. (0, w))\<rparr>"

lemma file_os_maps: "maps_file file_os name 1048576 w (3, 1, 4096, fst w, snd w, w)"
proof -
  have "cache_manager_filesize 1048576 = 2097152" by (simp add: cache_manager_filesize_def CACHE_MANAGER_MB_def)
  then show ?thesis by (simp add: maps_file_def cache_manager_check_file_def map_file_def file_os_def msys_defs)
qed

definition blank_file :: "Cache.cache_header \<times> slot list" where
  "blank_file = (blank_cache_header, [(blank_header, \<lambda>_. 0)])"

definition cache_image :: "cache \<Rightarrow> Cache.cache_header \<times> slot list" where
  "cache_image cache = (cache_header cache, map (\<lambda>c. (cell_header c, slab c)) (cells_of cache))"

lemma one_cell_size: "size_for (cache_manager_filesize 1048576) (Suc 0)"
  using two_megabytes by (simp add: cache_manager_filesize_def CACHE_MANAGER_MB_def)

lemma file_os_new: "new_file file_os name 1048576 blank_file blank_file"
  unfolding new_file_def using file_os_maps [of name blank_file] one_cell_size blank_header_insane
  by (fastforce simp: blank_file_def blank_cache_header_def CACHE_HEADER_MAGIC_def)

lemma file_os_old:
  assumes "length (cells_of cache) = 1"
  shows "old_file file_os name 1048576 cache {} (cache_image cache) (cache_image cache)"
proof -
  have "image_of cache {} (snd (cache_image cache))" by (simp add: image_of_def cache_image_def)
  then show ?thesis
    unfolding old_file_def using file_os_maps [of name "cache_image cache"] one_cell_size assms
    by (fastforce simp: cache_image_def)
qed

text \<open>The first megabyte-sized cache of the witnesses: a new file, a chunk of zeros in it, and the image of that.\<close>

lemma file_stream:
  obtains mgr1 s s' where
    "cache_manager_open_cache file_os cache_manager_init ''cache'' 1048576 blank_file = Some (Inr (0, mgr1, blank_file))"
    "chunk_streamer_init mgr1 = Inr (0, s)"
    "chunk_streamer_process_buffer sample_digest s (Some zeros) (of_nat (length zeros)) = Some (Inr (0, s'))"
    "mgr_inv (streamer_manager s')" "mgr_map (streamer_manager s') sample_checksum = Some zeros"
    "\<exists>w1. old_file file_os ''cache'' 1048576 (mgr_cache (streamer_manager s')) {} w1 w1"
proof -
  have "length zeros \<le> STREAM_MAX" using zeros_length(1) by (simp add: STREAM_MAX_def)
  moreover have "inj_on sample_digest (set (fst (split_chunks zeros)))" unfolding zeros_split by simp
  ultimately obtain mgr1 s s' where
    o: "cache_manager_open_cache file_os cache_manager_init ''cache'' 1048576 blank_file = Some (Inr (0, mgr1, blank_file))"
      "chunk_streamer_init mgr1 = Inr (0, s)"
      "chunk_streamer_process_buffer sample_digest s (Some zeros) (of_nat (length zeros)) = Some (Inr (0, s'))"
    and g: "growing_cache (mgr_cache (streamer_manager s'))"
    and d: "\<And>d. d \<in> set (fst (split_chunks zeros)) \<Longrightarrow> mgr_map (streamer_manager s') (digest sample_digest d) = Some d"
    using new_file_stream [OF file_os_new sample_digest_wf(1)] by metis
  have "mgr_inv mgr1 \<and> length (cells_of (mgr_cache mgr1)) = 1"
  proof -
    from open_new_file [OF file_os_new] o(1) have "growing_cache (mgr_cache mgr1)" by (metis option.inject prod.inject sum.inject(2))
    moreover have "length (cells_of (mgr_cache mgr1)) = 1"
      using o(1) unfolding open_cache_mapped [OF file_os_maps]
      by (auto simp: rbind_eq_Inr cache_init_def Let_def ALWAYS_eq_Inr cells_of_def cache_manager_filesize_def
          CACHE_MANAGER_MB_def CACHE_CELL_SIZE_def dest: init_cells_inverse(1))
    ultimately show ?thesis by (simp add: mgr_inv_def growing_cache_def)
  qed
  moreover from this have "streamer_ready s" "streamer_manager s = mgr1"
    using streamer_init_ready [of mgr1] o(2) by (metis prod.inject sum.inject(2))+
  moreover have "unat (of_nat (length zeros) :: u32) \<le> length zeros" by (simp add: word_nat)
  ultimately have "length (cells_of (mgr_cache (streamer_manager s'))) = 1" using process_cells o(3) by metis
  from file_os_old [OF this] have "\<exists>w1. old_file file_os ''cache'' 1048576 (mgr_cache (streamer_manager s')) {} w1 w1"
    by blast
  moreover have "mgr_inv (streamer_manager s')" using g by (simp add: mgr_inv_def growing_cache_def)
  moreover have "mgr_map (streamer_manager s') sample_checksum = Some zeros"
    using d [of zeros] by (simp add: zeros_split sample_digest_wf)
  ultimately show ?thesis using that o by blast
qed

theorem stream_roundtrip_witness:
  "\<exists>mgr1 s s' w1 mgr3. cache_manager_open_cache file_os cache_manager_init ''cache'' 1048576 blank_file =
      Some (Inr (0, mgr1, blank_file)) \<and>
    chunk_streamer_init mgr1 = Inr (0, s) \<and>
    chunk_streamer_process_buffer sample_digest s (Some zeros) (of_nat (length zeros)) = Some (Inr (0, s')) \<and>
    cache_manager_open_cache file_os cache_manager_init ''cache'' 1048576 w1 = Some (Inr (0, mgr3, w1)) \<and>
    holds_stream sample_digest mgr3 zeros (retained_bytes (streamer_chunker s'))"
proof -
  obtain mgr1 s s' w1 where
    o: "cache_manager_open_cache file_os cache_manager_init ''cache'' 1048576 blank_file = Some (Inr (0, mgr1, blank_file))"
      "chunk_streamer_init mgr1 = Inr (0, s)"
      "chunk_streamer_process_buffer sample_digest s (Some zeros) (of_nat (length zeros)) = Some (Inr (0, s'))"
    and old: "old_file file_os ''cache'' 1048576 (mgr_cache (streamer_manager s')) {} w1 w1"
    using file_stream by metis
  have "length zeros \<le> STREAM_MAX" using zeros_length(1) by (simp add: STREAM_MAX_def)
  moreover have "inj_on sample_digest (set (fst (split_chunks zeros)))" unfolding zeros_split by simp
  ultimately obtain t u t' where
    t: "cache_manager_open_cache file_os cache_manager_init ''cache'' 1048576 blank_file = Some (Inr (0, t, blank_file))"
      "chunk_streamer_init t = Inr (0, u)"
      "chunk_streamer_process_buffer sample_digest u (Some zeros) (of_nat (length zeros)) = Some (Inr (0, t'))"
      "\<forall>w1 w2 mgr2. old_file file_os ''cache'' 1048576 (mgr_cache (streamer_manager t')) {} w1 w2 \<longrightarrow>
      (\<exists>mgr3. cache_manager_open_cache file_os mgr2 ''cache'' 1048576 w1 = Some (Inr (0, mgr3, w2)) \<and>
         holds_stream sample_digest mgr3 zeros (retained_bytes (streamer_chunker t')))"
    using stream_roundtrip [OF file_os_new sample_digest_wf(1)] by blast
  from o t have "t' = s'" by simp
  with t(4) old o show ?thesis by metis
qed

section \<open>The states of the program\<close>

text \<open>
  \<open>Shut None\<close>: there is no cache in the file.  \<open>Shut (Some cache)\<close>: \<open>cache\<close> is what was mapped when the file was let go.
  \<open>Running s\<close>: a streamer with its manager.
\<close>

datatype phase = Shut "cache option" | Running chunk_streamer

text \<open>
  Every rule is a call of the program, or its end.  A crash may come in the middle of \<^verbatim>\<open>chunk_streamer_process_buffer\<close>, after
  any number of the chunks of its buffer; the file is opened again with any set of slabs damaged, among them the one an update was
  interrupted on.  Files are opened with any manager, and any number of streamers can be set up on one manager.
\<close>

inductive life :: "'w os \<Rightarrow> (u8 list \<Rightarrow> u8 list) \<Rightarrow> phase \<Rightarrow> bool" for os mh where
  start: "life os mh (Shut None)"
| create: "life os mh (Shut None) \<Longrightarrow> new_file os filename sz w w' \<Longrightarrow>
    cache_manager_open_cache os mgr filename sz w = Some (Inr (0, mgr', w')) \<Longrightarrow>
    chunk_streamer_init mgr' = Inr (ret, s) \<Longrightarrow> life os mh (Running s)"
| reopen: "life os mh (Shut (Some cache)) \<Longrightarrow> old_file os filename sz cache damaged w w' \<Longrightarrow>
    cache_manager_open_cache os mgr filename sz w = Some (Inr (0, mgr', w')) \<Longrightarrow>
    chunk_streamer_init mgr' = Inr (ret, s) \<Longrightarrow> life os mh (Running s)"
| renew: "life os mh (Running s) \<Longrightarrow> chunk_streamer_init (streamer_manager s) = Inr (ret, s') \<Longrightarrow>
    life os mh (Running s')"
| stream: "life os mh (Running s) \<Longrightarrow> unat n \<le> length bs \<Longrightarrow>
    chunk_streamer_process_buffer mh s (Some bs) n = Some (Inr (ret, s')) \<Longrightarrow> life os mh (Running s')"
| flush: "life os mh (Running s) \<Longrightarrow> unat n \<le> length buf \<Longrightarrow>
    chunk_streamer_flush_retained s buf n = Inr (r, s', buf') \<Longrightarrow> life os mh (Running s')"
| add: "life os mh (Running s) \<Longrightarrow> chunk_ok (digest mh (take (unat n) buf)) buf n \<Longrightarrow>
    cache_manager_add_chunk (streamer_manager s) (digest mh (take (unat n) buf)) buf n = Inr (b, mgr') \<Longrightarrow>
    life os mh (Running (s\<lparr>streamer_manager := mgr'\<rparr>))"
| get: "life os mh (Running s) \<Longrightarrow> wf_checksum ck \<Longrightarrow> wf_chunk ch \<Longrightarrow>
    cache_manager_get_chunk (streamer_manager s) ck ch = Inr (b, mgr', ch') \<Longrightarrow>
    life os mh (Running (s\<lparr>streamer_manager := mgr'\<rparr>))"
| has: "life os mh (Running s) \<Longrightarrow> wf_checksum ck \<Longrightarrow>
    cache_manager_has_chunk (streamer_manager s) ck = Inr (b, mgr') \<Longrightarrow>
    life os mh (Running (s\<lparr>streamer_manager := mgr'\<rparr>))"
| metrics: "life os mh (Running s) \<Longrightarrow>
    cache_manager_cache_metrics (streamer_manager s) = Inr (m, mgr') \<Longrightarrow>
    life os mh (Running (s\<lparr>streamer_manager := mgr'\<rparr>))"
| release: "life os mh (Running s) \<Longrightarrow> cache_manager_release os (streamer_manager s) w = Inr (mgr', w') \<Longrightarrow>
    life os mh (Shut (Some (mgr_cache (streamer_manager s))))"
| crash: "life os mh (Running s) \<Longrightarrow> fst (split_chunks bs) = pre @ post \<Longrightarrow> store_chunks mh s pre = Inr s' \<Longrightarrow>
    life os mh (Shut (Some (mgr_cache (streamer_manager s'))))"

text \<open>What holds in all of them: the cache and the chunker are in good order, and all contents are filed under their digests.\<close>

definition filed :: "(u8 list \<Rightarrow> u8 list) \<Rightarrow> checksum \<Rightarrow> u8 list \<Rightarrow> bool" where
  "filed mh ck d \<longleftrightarrow> ck = digest mh d"

fun phase_inv :: "(u8 list \<Rightarrow> u8 list) \<Rightarrow> phase \<Rightarrow> bool" where
  "phase_inv mh (Shut None) = True"
| "phase_inv mh (Shut (Some cache)) = (cache_inv cache \<and> caches.holds_only (filed mh) cache)"
| "phase_inv mh (Running s) =
     (mgr_inv (streamer_manager s) \<and> chunker_inv (streamer_chunker s) \<and> managers.holds_only (filed mh) (streamer_manager s))"

lemma mgr_holds_cache: "managers.holds_only P mgr \<longleftrightarrow> caches.holds_only P (mgr_cache mgr)"
  by (simp add: managers.holds_only_def caches.holds_only_def mgr_map_def)

text \<open>A streamer on a manager in good order.\<close>

lemma phase_inv_init:
  assumes "mgr_inv mgr" "managers.holds_only (filed mh) mgr" "chunk_streamer_init mgr = Inr (ret, s)"
  shows "phase_inv mh (Running s)"
proof -
  from streamer_init_ready [OF assms(1)] obtain s' where
    "chunk_streamer_init mgr = Inr (0, s')" "streamer_ready s'" "streamer_manager s' = mgr" .
  then show ?thesis using assms by (auto simp: streamer_ready_def)
qed

text \<open>Streaming; on a chunker that holds retained bytes it aborts, so a call that returns was made on one that is ready.\<close>

lemma process_not_ready:
  assumes "retained_size (streamer_chunker s) \<noteq> 0"
  shows "chunk_streamer_process_buffer mh s buffer n = Some (Inl AssertFailed)"
  using assms by (simp add: chunk_streamer_process_buffer_def chunk_streamer_loop.simps chunker_chunk_buffer_def)

lemma phase_inv_store:
  assumes "phase_inv mh (Running s)" "wf_digest mh" "\<forall>d \<in> set ds. chunk_sized d" "store_chunks mh s ds = Inr s'"
  shows "mgr_inv (streamer_manager s')" "managers.holds_only (filed mh) (streamer_manager s')"
  using store_chunks_ok [OF _ assms(2-4), of "filed mh"] assms(1) by (simp_all add: filed_def)

lemma phase_inv_process:
  assumes inv: "phase_inv mh (Running s)" and wf: "wf_digest mh" and n: "unat n \<le> length bs"
    and ret: "chunk_streamer_process_buffer mh s (Some bs) n = Some (Inr (ret, s'))"
  shows "phase_inv mh (Running s')"
proof -
  have "retained_size (streamer_chunker s) = 0" using process_not_ready [of s mh "Some bs" n] ret by fastforce
  then have ready: "streamer_ready s" using inv by (simp add: streamer_ready_def)
  from process_streams [OF ready n, of mh] ret obtain s1 c where
    s1: "store_chunks mh s (fst (split_chunks (take (unat n) bs))) = Inr s1" "chunker_inv c"
      "s' = s1\<lparr>streamer_chunker := c\<rparr>"
    by (auto simp: streams_to_def split: sum.splits)
  have "\<forall>d \<in> set (fst (split_chunks (take (unat n) bs))). chunk_sized d"
    using split_chunks_parts [of "take (unat n) bs"] by simp
  from phase_inv_store [OF inv wf this s1(1)] s1(2,3) show ?thesis by simp
qed

lemma phase_inv_flush:
  assumes "phase_inv mh (Running s)" "unat n \<le> length buf" "chunk_streamer_flush_retained s buf n = Inr (r, s', buf')"
  shows "phase_inv mh (Running s')"
proof -
  have lt: "retained_size (streamer_chunker s) < n"
    using assms(3) by (auto simp: chunk_streamer_flush_retained_def rbind_eq_Inr chunker_flush_retained_def ALWAYS_eq_Inr)
  have c: "chunker_inv (streamer_chunker s)" using assms(1) by simp
  from flush_returns [OF c lt assms(2)] assms(3) have
    "s' = s\<lparr>streamer_chunker := (streamer_chunker s)\<lparr>retained_size := 0\<rparr>\<rparr>"
    by (simp add: chunk_streamer_flush_retained_def)
  then show ?thesis using assms(1) by (simp add: chunker_inv_def CHUNKER_MAX_CHUNK_SIZE_def)
qed

text \<open>Lookups and metrics answer, and change nothing.\<close>

lemma lookups_answer:
  assumes "mgr_inv mgr" "wf_checksum ck" "wf_chunk ch"
  shows "cache_manager_has_chunk mgr ck = Inr (mgr_map mgr ck \<noteq> None, mgr)"
    "\<exists>ch'. cache_manager_get_chunk mgr ck ch = Inr (mgr_map mgr ck \<noteq> None, mgr, ch')"
    "\<exists>m. cache_manager_cache_metrics mgr = Inr (m, mgr)"
proof -
  show "cache_manager_has_chunk mgr ck = Inr (mgr_map mgr ck \<noteq> None, mgr)"
    by (rule managers.store_has [OF assms(1,2)])
  show "\<exists>ch'. cache_manager_get_chunk mgr ck ch = Inr (mgr_map mgr ck \<noteq> None, mgr, ch')"
    using managers.store_get_known [OF assms] managers.store_get_unknown [OF assms(1,2)]
    by (cases "mgr_map mgr ck") auto
  have inv: "\<forall>c \<in> set (cells_of (mgr_cache mgr)). cell_inv c"
      "length (cells_of (mgr_cache mgr)) = unat (cell_count (cache_header (mgr_cache mgr)))"
      "cache_cells (mgr_cache mgr) = Some (cells_of (mgr_cache mgr))"
    using assms(1) by (auto simp: mgr_inv_def cache_inv_def cells_of_def split: option.splits)
  show "\<exists>m. cache_manager_cache_metrics mgr = Inr (m, mgr)"
    using metrics_cells_sum [OF inv(1) inv(2) [symmetric]] inv(3)
    by (simp add: cache_manager_cache_metrics_def cache_get_metrics_def)
qed

lemma life_phase_inv:
  assumes "life os mh ph" "wf_digest mh"
  shows "phase_inv mh ph"
  using assms(1)
proof (induction rule: life.induct)
  case (create filename sz w w' mgr mgr' ret s)
  from open_new_file [OF create(2), of mgr] create(3) have
    "growing_cache (mgr_cache mgr')" "mgr_map mgr' = Map.empty" by (metis option.inject prod.inject sum.inject(2))+
  then show ?case
    by (intro phase_inv_init [OF _ _ create(4)]) (simp_all add: mgr_inv_def growing_cache_def managers.holds_only_def)
next
  case (reopen cache filename sz damaged w w' mgr mgr' ret s)
  have inv: "cache_inv cache" "caches.holds_only (filed mh) cache" using reopen(5) by simp_all
  from open_old_file [OF reopen(2) inv(1), of mgr] reopen(3) have
    "mgr_inv mgr'" "\<And>ck. mgr_map mgr' ck = (if cell_index cache ck \<in> damaged then None else cache_map cache ck)"
    by (metis option.inject prod.inject sum.inject(2))+
  then show ?case using inv(2)
    by (intro phase_inv_init [OF _ _ reopen(4)]) (simp_all add: managers.holds_only_def caches.holds_only_def)
next
  case (renew s ret s')
  then show ?case by (intro phase_inv_init [OF _ _ renew(2)]) simp_all
next
  case (stream s n bs ret s')
  then show ?case using phase_inv_process [OF _ assms(2)] by blast
next
  case (flush s n buf r s' buf')
  then show ?case using phase_inv_flush by blast
next
  case (add s n buf b mgr')
  then show ?case
    using managers.success_inv(1) [OF _ add(2,3)] managers.holds_only_add [OF _ add(2) _ _ add(3), of "filed mh"]
    by (simp add: filed_def)
next
  case (get s ck ch b mgr' ch')
  then show ?case using lookups_answer(2) [of "streamer_manager s" ck ch] by auto
next
  case (has s ck b mgr')
  then show ?case using lookups_answer(1) [of "streamer_manager s" ck chunk_init] wf_chunk_init by auto
next
  case (metrics s m mgr')
  then show ?case
    using lookups_answer(3) [OF _ wf_checksum_init wf_chunk_init, of "streamer_manager s"] by auto
next
  case (release s w mgr' w')
  then show ?case by (simp add: mgr_inv_def mgr_holds_cache)
next
  case (crash s bs pre post s')
  have "set pre \<subseteq> set (fst (split_chunks bs))" using crash(2) by simp
  then have "\<forall>d \<in> set pre. chunk_sized d" using split_chunks_parts [of bs] by blast
  from phase_inv_store [OF crash(4) assms(2) this crash(3)] show ?case by (simp add: mgr_inv_def mgr_holds_cache)
qed simp

text \<open>
  Whatever happens in the life of a cache, a chunk that a lookup finds has the checksum that was asked for, and its bytes
  have that digest.
\<close>

theorem life_integrity:
  assumes "life os mh (Running s)" "wf_digest mh" "wf_checksum ck" "wf_chunk ch"
    and "cache_manager_get_chunk (streamer_manager s) ck ch = Inr (True, mgr', ch')"
  shows "ck = digest mh (chunk_data ch') \<and> ch_checksum ch' = ck \<and> mgr' = streamer_manager s"
proof -
  have "mgr_inv (streamer_manager s)" "managers.holds_only (filed mh) (streamer_manager s)"
    using life_phase_inv [OF assms(1,2)] by simp_all
  from managers.get_holds [OF this(1) assms(3,4) this(2) assms(5)] show ?thesis by (simp add: filed_def)
qed

text \<open>A life with a crash in it: a new file, a stream, the end of the process, and the file opened again.\<close>

lemma sample_life:
  obtains s where "life file_os sample_digest (Running s)" "mgr_inv (streamer_manager s)"
    "mgr_map (streamer_manager s) sample_checksum = Some zeros"
proof -
  obtain mgr1 s0 s1 w1 where
    o: "cache_manager_open_cache file_os cache_manager_init ''cache'' 1048576 blank_file = Some (Inr (0, mgr1, blank_file))"
      "chunk_streamer_init mgr1 = Inr (0, s0)"
      "chunk_streamer_process_buffer sample_digest s0 (Some zeros) (of_nat (length zeros)) = Some (Inr (0, s1))"
      "mgr_inv (streamer_manager s1)" "mgr_map (streamer_manager s1) sample_checksum = Some zeros"
      "old_file file_os ''cache'' 1048576 (mgr_cache (streamer_manager s1)) {} w1 w1"
    using file_stream by metis
  have "unat (of_nat (length zeros) :: u32) \<le> length zeros" by (simp add: word_nat)
  with life.create [OF life.start file_os_new o(1,2)] have "life file_os sample_digest (Running s1)"
    using life.stream o(3) by blast
  from life.crash [OF this, of "[]" "[]" "fst (split_chunks [])" s1]
  have shut: "life file_os sample_digest (Shut (Some (mgr_cache (streamer_manager s1))))" by simp
  from open_old_file [OF o(6) o(4) [unfolded mgr_inv_def], of cache_manager_init] obtain mgr2 where
    m: "cache_manager_open_cache file_os cache_manager_init ''cache'' 1048576 w1 = Some (Inr (0, mgr2, w1))" "mgr_inv mgr2"
      "\<And>ck. mgr_map mgr2 ck = cache_map (mgr_cache (streamer_manager s1)) ck" by auto
  from streamer_init_ready [OF m(2)] obtain s where
    s: "chunk_streamer_init mgr2 = Inr (0, s)" "streamer_manager s = mgr2" by metis
  from life.reopen [OF shut o(6) m(1) s(1)] show ?thesis using that m(2,3) s(2) o(5) by (simp add: mgr_map_def)
qed

theorem life_integrity_witness:
  "\<exists>s ch'. life file_os sample_digest (Running s) \<and>
     cache_manager_get_chunk (streamer_manager s) sample_checksum chunk_init = Inr (True, streamer_manager s, ch') \<and>
     ch_checksum ch' = sample_checksum"
proof -
  obtain s where s: "life file_os sample_digest (Running s)" "mgr_inv (streamer_manager s)"
    "mgr_map (streamer_manager s) sample_checksum = Some zeros" by (rule sample_life)
  from managers.store_get_known [OF s(2) sample_ok(2) wf_chunk_init s(3)] obtain ch' where
    g: "cache_manager_get_chunk (streamer_manager s) sample_checksum chunk_init = Inr (True, streamer_manager s, ch')"
    by blast
  from life_integrity [OF s(1) sample_digest_wf(1) sample_ok(2) wf_chunk_init g] g s(1) show ?thesis by blast
qed

section \<open>No access out of bounds, no deadlock\<close>

text \<open>The only failure is that of an assertion.\<close>

definition asserts_only :: "'a result \<Rightarrow> bool" where
  "asserts_only r \<longleftrightarrow> (\<forall>e. r = Inl e \<longrightarrow> e = AssertFailed)"

lemma asserts_only_simps [simp]:
  "asserts_only (Inr x)" "asserts_only (Inl e) \<longleftrightarrow> e = AssertFailed" "asserts_only (ALWAYS b r) \<longleftrightarrow> b \<longrightarrow> asserts_only r"
  by (auto simp: asserts_only_def ALWAYS_def)

lemma asserts_only_rbind: "asserts_only r \<Longrightarrow> (\<And>x. r = Inr x \<Longrightarrow> asserts_only (f x)) \<Longrightarrow> asserts_only (rbind r f)"
  by (cases r) (simp_all add: asserts_only_def)

lemma process_asserts_only:
  assumes "phase_inv mh (Running s)" "wf_digest mh" "unat n \<le> length bs"
  shows "\<exists>r. chunk_streamer_process_buffer mh s (Some bs) n = Some r \<and> asserts_only r"
proof (cases "retained_size (streamer_chunker s) = 0")
  case True
  then have ready: "streamer_ready s" using assms(1) by (simp add: streamer_ready_def)
  have "\<forall>d \<in> set (fst (split_chunks (take (unat n) bs))). chunk_sized d"
    using split_chunks_parts [of "take (unat n) bs"] by simp
  moreover have "mgr_inv (streamer_manager s)" using assms(1) by simp
  ultimately have "asserts_only (store_chunks mh s (fst (split_chunks (take (unat n) bs))))"
    using store_chunks_fails [OF _ assms(2)] unfolding asserts_only_def by blast
  with process_streams [OF ready assms(3), of mh] show ?thesis
    by (auto simp: streams_to_def split: sum.splits)
next
  case False
  then show ?thesis by (simp add: process_not_ready)
qed

lemma flush_asserts_only:
  assumes "chunker_inv (streamer_chunker s)" "unat n \<le> length buf"
  shows "asserts_only (chunk_streamer_flush_retained s buf n)"
proof (cases "retained_size (streamer_chunker s) < n")
  case True
  from flush_returns [OF assms(1) True assms(2)] show ?thesis by (simp add: chunk_streamer_flush_retained_def)
next
  case False
  then show ?thesis by (simp add: chunk_streamer_flush_retained_def chunker_flush_retained_def ALWAYS_def)
qed

lemma release_cells_ok:
  "\<forall>c \<in> set cs. cell_inv c \<Longrightarrow> n = length cs \<Longrightarrow> cache_release_cells n cs = Inr ()"
  by (induction cs arbitrary: n) (auto simp: cell_release_def pthread_mutex_destroy_def cell_inv_def)

lemma release_asserts_only:
  assumes "mgr_inv mgr"
  shows "asserts_only (cache_manager_release os mgr w)"
proof -
  have inv: "\<forall>c \<in> set (cells_of (mgr_cache mgr)). cell_inv c"
      "unat (cell_count (cache_header (mgr_cache mgr))) = length (cells_of (mgr_cache mgr))"
      "cache_cells (mgr_cache mgr) = Some (cells_of (mgr_cache mgr))"
    using assms by (auto simp: mgr_inv_def cache_inv_def cells_of_def split: option.splits)
  have "cache_release (mgr_cache mgr) = Inr ((mgr_cache mgr)\<lparr>cache_cells := None\<rparr>)"
    using release_cells_ok [OF inv(1) inv(2)] inv(3) by (simp add: cache_release_def)
  then show ?thesis
    by (auto simp: cache_manager_release_def Let_def split: prod.splits intro!: asserts_only_rbind)
qed

lemma add_asserts_only:
  assumes "mgr_inv mgr" "chunk_ok ck buf n"
  shows "asserts_only (cache_manager_add_chunk mgr ck buf n)"
proof -
  have "wf_checksum ck" using assms(2) by (simp add: chunk_ok_def)
  then show ?thesis
    using managers.store_add_known [OF assms(1)] managers.store_add_new [OF assms] managers.store_add_unsafe [OF assms]
    by (cases "mgr_map mgr ck = None"; cases "mgr_safe mgr ck n") auto
qed

text \<open>
  C3: in every state the program can get into, through evictions, crashes and reopenings, no call reads or writes outside
  its objects, divides by zero, waits for itself or goes on for ever.  Lookups and metrics always answer; streaming, flushing, adding and
  releasing return or fail in an assertion.
\<close>

theorem life_memory_safe:
  assumes "life os mh (Running s)" "wf_digest mh" "wf_checksum ck" "wf_chunk ch"
    and "unat n \<le> length bs" "unat m \<le> length buf" "chunk_ok ck' buf' k"
  shows "(\<exists>r. chunk_streamer_process_buffer mh s (Some bs) n = Some r \<and> asserts_only r) \<and>
    asserts_only (chunk_streamer_flush_retained s buf m) \<and>
    asserts_only (cache_manager_add_chunk (streamer_manager s) ck' buf' k) \<and>
    asserts_only (cache_manager_release os (streamer_manager s) w) \<and>
    (\<exists>b. cache_manager_has_chunk (streamer_manager s) ck = Inr (b, streamer_manager s)) \<and>
    (\<exists>b ch'. cache_manager_get_chunk (streamer_manager s) ck ch = Inr (b, streamer_manager s, ch')) \<and>
    (\<exists>x. cache_manager_cache_metrics (streamer_manager s) = Inr (x, streamer_manager s))"
proof -
  have inv: "phase_inv mh (Running s)" by (rule life_phase_inv [OF assms(1,2)])
  then have m: "mgr_inv (streamer_manager s)" and c: "chunker_inv (streamer_chunker s)" by simp_all
  show ?thesis
    using process_asserts_only [OF inv assms(2,5)] flush_asserts_only [OF c assms(6)] add_asserts_only [OF m assms(7)]
      release_asserts_only [OF m, of os w] lookups_answer [OF m assms(3,4)] by blast
qed

theorem life_memory_safe_witness:
  "\<exists>s x. life file_os sample_digest (Running s) \<and>
     cache_manager_cache_metrics (streamer_manager s) = Inr (x, streamer_manager s) \<and>
     asserts_only (chunk_streamer_flush_retained s [0] 1)"
proof -
  obtain s where s: "life file_os sample_digest (Running s)" by (rule sample_life)
  have "unat (0 :: u32) \<le> length ([] :: u8 list)" "unat (1 :: u32) \<le> length [0 :: u8]" by simp_all
  from life_memory_safe [OF s sample_digest_wf(1) sample_ok(2) wf_chunk_init this sample_ok(1)] s show ?thesis by blast
qed

end
