(* ===== verification/Cell_Sizes.thy ===== *)
theory Cell_Sizes
  imports Cell_Store
begin

text \<open>
  Chunks larger than the 15 bits of the size field of a body entry, which \<^verbatim>\<open>chunk.h\<close> and \<^verbatim>\<open>cell.c\<close> accept, and the
  removal of the only entry of a cell.
\<close>

text \<open>What the body of a fresh cell becomes, for a chunk of any size that fits.\<close>

definition first_chunk :: "cell \<Rightarrow> cell \<Rightarrow> checksum \<Rightarrow> u8 list \<Rightarrow> u32 \<Rightarrow> bool" where
  "first_chunk c c' ck buffer n \<longleftrightarrow>
     same_meta c c' \<and> dir_inv (cell_dir_of c') (slab c') (header_offset c') \<and>
     dir_map (cell_dir_of c') (slab c') (header_offset c') ck = Some 0 \<and>
     be_size (load_body_entry (slab c') 0) = ucast n \<and>
     mem_read (slab c') sizeof_cell_body_entry (unat n) = take (unat n) buffer"

lemma add_first_chunk:
  assumes items: "cell_items c []" and zero: "next_off c = 0" "top_off c = 0" "spill_of c = 0"
    and ck: "wf_checksum ck" and n: "unat n \<le> length buffer" "unat n + 108 \<le> header_offset c"
  obtains c' where "cell_body_add c ck buffer n cell_dir_entry_init = Inr c'" "first_chunk c c' ck buffer n"
proof -
  let ?h = "header_offset c"
  let ?f = "\<lambda>e. e\<lparr>be_free_space := 0, be_top_entry := 0, be_size := ucast n, be_checksum := ck\<rparr>"
  obtain pre mid post where v: "cell_view c pre mid post" "ring c pre (last_size (last_size 0 pre) mid) (unat (next_off c) + span mid) post"
    using cell_items_ring [OF items] by metis
  note b = ring_bounds [OF v(2)]
  have un: "unat (n + 36) = unat n + 36" "unat (n + 72) = unat n + 72" using n(2) b(6) by (simp_all add: word_nat)
  have fit: "0 + 36 + unat n \<le> ?h" using n(2) by simp
  have "wf_checksum (be_checksum (?f (load_body_entry (slab c) 0)))" using ck by simp
  from put_entry [of 0 "unat n" c buffer ?f, OF fit n(1) this] obtain m1 m2 where
    m1: "body_update c 0 ?f = Inr (c\<lparr>slab := m1\<rparr>)"
      "slab_memcpy (c\<lparr>slab := m1\<rparr>) (0 + sizeof_cell_body_entry) buffer (unat n) = Inr (c\<lparr>slab := m2\<rparr>)"
    and m2: "load_body_entry m2 0 = ?f (load_body_entry (slab c) 0)"
      "mem_read m2 (0 + sizeof_cell_body_entry) (unat n) = take (unat n) buffer"
    by blast
  let ?c2 = "c\<lparr>slab := m2\<rparr>" and ?e = "cell_dir_entry_set cell_dir_entry_init ck 0"
  have "mem_eq_on (?h - spill_of c * sizeof_cell_dir_entry) ?h (slab c) m2" using zero(3) by (auto simp: mem_eq_on_def)
  from dirs.frame_inv [OF cell_items_keys(2) [OF items] this] dirs.frame_lookup [OF cell_items_keys(2) [OF items] this]
  have d2: "dir_inv (cell_dir_of c) m2 ?h" "dir_map (cell_dir_of c) m2 ?h = Map.empty"
    using cell_items_keys(3) [OF items] by (simp_all add: item_dir_def)
  have "entry_is_set ?e" "wf_dir_entry ?e" "Suc (spill_of c) * sizeof_cell_dir_entry \<le> ?h"
    using ck zero(3) b(5) by (simp_all add: wf_dir_entry_def cell_dir_entry_set_def sizeof_cell_dir_entry_def)
  with dirs.add_law [OF d2(1), of ?e] d2(2) zero(3) obtain d3 m3 where
    d3: "cell_dir_add (cell_dir_of c) m2 ?h ?e = Inr (d3, m3)" "dir_inv d3 m3 ?h"
      "dir_map d3 m3 ?h ck = Some 0" "dir_ov_count d3 \<le> 1" "mem_eq_on 0 (?h - dir_ov_count d3 * sizeof_cell_dir_entry) m2 m3"
    by (auto simp: cell_dir_entry_set_def)
  let ?d = "set_dir ?c2 d3 m3"
  let ?c3 = "?d\<lparr>cell_header := (cell_header ?d)
      \<lparr>hdr_entry_count := hdr_entry_count (cell_header c) + 1, hdr_byte_count := hdr_byte_count (cell_header c) + n\<rparr>\<rparr>"
  have add: "cell_header_add ?c2 ?e n = Inr ?c3" using d3(1) by (simp add: cell_header_add_def Let_def)
  have h3: "header_offset ?c3 = ?h" by (simp add: header_offset_def)
  let ?g = "\<lambda>e. (cell_body_set_top e)\<lparr>be_previous_size := ucast n\<rparr>" and ?p = "sizeof_cell_body_entry + unat n"
  have "?p + 36 \<le> header_offset ?c3" using n(2) h3 by (simp add: sizeof_cell_body_entry_def)
  moreover have "wf_checksum (be_checksum (?g (load_body_entry (slab ?c3) ?p)))" by (simp add: cell_body_set_top_def)
  ultimately obtain m4 where
    m4: "body_update ?c3 ?p ?g = Inr (?c3\<lparr>slab := m4\<rparr>)"
      "mem_eq_on 0 ?p (slab ?c3) m4" "mem_eq_on (?p + 36) (header_offset ?c3) (slab ?c3) m4"
    using update_entry_only [of ?p ?c3 ?g] by metis
  let ?q = "n + 36"
  let ?c' = "set_next_off (set_top_off (?c3\<lparr>slab := m4\<rparr>) ?q) ?q"
  have "\<not> cell_body_free_space c < n + 72"
    using ring_free_space [OF v(2)] n(2) un zero by (simp add: word_less_nat_alt)
  then have top: "cell_body_add_top c ck buffer n cell_dir_entry_init = Inr (True, ?c')"
    using m1 add m4(1) zero
    by (simp add: cell_body_add_top_def Let_def sizeof_cell_body_entry_def sizeof_cell_dir_entry_def add.assoc)
  from view_next_entry [OF v(1)] zero obtain e where
    "body_load c (unat (next_off c)) = Inr e" "cell_body_entry_top e" by metis
  then have body: "cell_body_add c ck buffer n cell_dir_entry_init = Inr ?c'" using top by (simp add: cell_body_add_def)
  have lo: "mem_eq_on 0 ?p m2 m4"
  proof (rule mem_eq_on_trans)
    show "mem_eq_on 0 ?p m2 m3"
      using d3(4) n(2) by (intro mem_eq_on_sub [OF d3(5)]) (simp_all add: sizeof_cell_body_entry_def sizeof_cell_dir_entry_def)
    show "mem_eq_on 0 ?p m3 m4" using m4(2) by simp
  qed
  have "slab ?c3 = m3" by simp
  then have hi: "mem_eq_on (?p + 36) ?h m3 m4" using m4(3) unfolding h3 by (simp only:)
  have "dir_ov_count d3 * sizeof_cell_dir_entry \<le> 36" using d3(4) by (simp add: sizeof_cell_dir_entry_def)
  moreover have "?p + 72 \<le> ?h" using n(2) by (simp add: sizeof_cell_body_entry_def)
  ultimately have "?p + 36 \<le> ?h - dir_ov_count d3 * sizeof_cell_dir_entry" by linarith
  from mem_eq_on_sub [OF hi this order_refl]
  have "mem_eq_on (?h - dir_ov_count d3 * sizeof_cell_dir_entry) ?h m3 m4" .
  from dirs.frame_inv [OF d3(2) this] dirs.frame_lookup [OF d3(2) this] d3(3)
  have dir: "dir_inv d3 m4 ?h" "dir_map d3 m4 ?h ck = Some 0" by simp_all
  have "load_body_entry m2 0 = load_body_entry m4 0"
    by (rule body_entry.load_eq_on [OF lo]) (simp_all add: sizeof_cell_body_entry_def)
  then have "load_body_entry m4 0 = ?f (load_body_entry (slab c) 0)" using m2(1) by (rule trans [OF sym])
  then have size: "be_size (load_body_entry m4 0) = ucast n" by simp
  have "mem_read m2 sizeof_cell_body_entry (unat n) = mem_read m4 sizeof_cell_body_entry (unat n)"
    by (rule mem_read_eq_on [OF lo]) simp_all
  then have data: "mem_read m4 sizeof_cell_body_entry (unat n) = take (unat n) buffer" using m2(2) by simp
  have "same_meta c ?c'" by (simp add: same_meta_def)
  moreover have "cell_dir_of ?c' = d3" "slab ?c' = m4" "header_offset ?c' = ?h" using h3 by simp_all
  ultimately have "first_chunk c ?c' ck buffer n" unfolding first_chunk_def using dir size data by simp
  with body show ?thesis by (rule that)
qed

text \<open>
  C16: of a chunk of \<open>n\<close> bytes only the first \<open>n mod 32768\<close> can be read again, although the addition reports success and the chunk is
  found: the size field of its entry has 15 bits.  A chunk of \<^verbatim>\<open>CHUNK_MAX_BUFFER_SIZE\<close> bytes comes back empty.
\<close>

theorem cell_size_truncated:
  assumes "\<not> cell_header_sane h" "ok_geometry sz" "cell_init h m sz = Inr c"
    and "wf_checksum ck" "wf_chunk ch" "unat n \<le> length buffer" "unat n + 28812 \<le> unat sz"
  shows "\<exists>c' ch'. cell_add_chunk c ck buffer n = Inr (True, c') \<and>
    cell_get_chunk c' ck ch = Inr (True, c', ch') \<and> ch_checksum ch' = ck \<and>
    chunk_data ch' = take (unat n mod 32768) buffer"
proof -
  from cell_init_insane [OF assms(1,2), of m] assms(3) have c: "cell_inv c" "cell_map c = Map.empty" "cell_items c []"
      "slab_size c = sz" "next_off c = 0" "top_off c = 0" "spill_of c = 0"
    by (metis sum.inject(2))+
  have mu: "mutex c = MutexUnlocked" using c(1) by (simp add: cell_inv_def)
  have n: "unat n + 108 \<le> header_offset (entered c)"
    using assms(7) c(4) by (simp add: entered_off(2)) (simp add: header_offset_def sizeof_cell_header_def)
  from add_first_chunk [OF entered_items(1) [OF c(3)] _ _ _ assms(4,6) n] c(5-7) obtain c2 where
    c2: "cell_body_add (entered c) ck buffer n cell_dir_entry_init = Inr c2" "first_chunk (entered c) c2 ck buffer n"
    by auto
  then have meta: "mutex c2 = MutexLocked" "slab_size c2 = sz" "header_offset c2 = header_offset c"
    using c(4) by (simp_all add: first_chunk_def same_meta_def entered_def header_offset_def)
  let ?c = "left_cell c2"
  have add: "cell_add_chunk c ck buffer n = Inr (True, ?c)"
    using add_chunk_absent [OF c(3) mu assms(4)] c(2) c2(1) meta(1) by simp
  let ?k = "unat n mod 32768"
  have k: "be_size (load_body_entry (slab ?c) 0) = ucast n" "unat (ucast n :: u15) = ?k" "unat (ucast (ucast n :: u15) :: u32) = ?k"
    using c2(2) by (simp_all add: first_chunk_def left_cell_def word_nat)
  have le: "?k \<le> unat n" by simp
  have "take ?k (mem_read (slab c2) sizeof_cell_body_entry (unat n)) = take ?k (take (unat n) buffer)"
    using c2(2) by (simp add: first_chunk_def)
  then have data: "mem_read (slab ?c) sizeof_cell_body_entry ?k = take ?k buffer"
    using le by (simp add: mem_read_def take_map left_cell_def min_def)
  have dir: "dir_inv (cell_dir_of ?c) (slab ?c) (header_offset ?c)"
      "dir_map (cell_dir_of ?c) (slab ?c) (header_offset ?c) ck = Some 0"
    using c2(2) by (simp_all add: first_chunk_def left_cell_def)
  from dirs.get_found [OF dir(1) assms(4) dir(2)] obtain x where
    x: "cell_dir_get_chunk (cell_dir_of ?c) (slab ?c) (header_offset ?c) ck cell_dir_entry_init = Inr (True, x)"
      "de_checksum x = ck" "de_offset x = 0" by metis
  have "header_offset ?c = unat sz - 28704" using meta by (simp add: left_cell_def header_offset_def sizeof_cell_header_def)
  then have ld: "body_load ?c 0 = Inr (load_body_entry (slab ?c) 0)"
      "slab_read ?c sizeof_cell_body_entry ?k = Inr (take ?k buffer)"
    using assms(7) le data by (simp_all add: body_load_def slab_read_def sizeof_cell_body_entry_def)
  have "unat (ucast (ucast n :: u15) :: u32) \<le> 32768" "unat (ucast (ucast n :: u15) :: u32) \<le> length (take ?k buffer)"
    using k(3) le assms(6) by (simp_all add: less_imp_le)
  from chunk_set_data [OF assms(5,4) this] k(3) obtain ch' where
    ch': "chunk_set ch ck (take ?k buffer) (ucast (ucast n :: u15)) = Inr ch'" "ch_checksum ch' = ck"
      "chunk_data ch' = take ?k buffer" by auto
  have "mutex ?c = MutexUnlocked" by (simp add: left_cell_def)
  then have "cell_get_chunk ?c ck ch = Inr (True, ?c, ch')"
    using x ld ch'(1) k by (simp add: cell_get_chunk_def lock_unlocked)
  with add ch' show ?thesis by blast
qed

theorem cell_size_truncated_witness:
  "\<exists>c c' ch'. cell_init blank_header (\<lambda>_. 0) 1048576 = Inr c \<and>
     cell_add_chunk c sample_checksum (replicate CHUNK_MAX_BUFFER_SIZE 9) (of_nat CHUNK_MAX_BUFFER_SIZE) = Inr (True, c') \<and>
     cell_get_chunk c' sample_checksum chunk_init = Inr (True, c', ch') \<and> chunk_data ch' = []"
proof -
  obtain c where c: "cell_init blank_header (\<lambda>_. 0) 1048576 = Inr c" using blank_cell by metis
  have "unat (of_nat CHUNK_MAX_BUFFER_SIZE :: u32) = 32768" by (simp add: CHUNK_MAX_BUFFER_SIZE_def)
  then have "unat (of_nat CHUNK_MAX_BUFFER_SIZE :: u32) \<le> length (replicate CHUNK_MAX_BUFFER_SIZE (9 :: u8))"
    "unat (of_nat CHUNK_MAX_BUFFER_SIZE :: u32) + 28812 \<le> unat (1048576 :: u32)"
    "unat (of_nat CHUNK_MAX_BUFFER_SIZE :: u32) mod 32768 = 0"
    by (simp_all add: CHUNK_MAX_BUFFER_SIZE_def)
  with cell_size_truncated [OF blank_header_insane geometry_1MB c sample_ok(2) wf_chunk_init] c show ?thesis
    by fastforce
qed

text \<open>
  Taking the only chunk of a cell out of it aborts: the assertion that there are entries left comes after the count went down.  No addition
  does this on a cell of proper size, since the ring is well filled before anything is evicted.
\<close>

theorem remove_only_entry_aborts:
  assumes "cell_items c [it]"
  shows "cell_header_remove c (it_off it) = Inl AssertFailed"
proof -
  note k = cell_items_keys [OF assms] and m = cell_items_mem [OF assms, of it]
  let ?ck = "be_checksum (it_entry it)"
  have ld: "body_load c (it_off it) = Inr (it_entry it)"
    using m by (simp add: body_load_def it_span_def sizeof_cell_body_entry_def)
  have wf: "wf_checksum ?ck" using m(1) by simp
  have "dir_map (cell_dir_of c) (slab c) (header_offset c) ?ck \<noteq> None"
    using k(3) item_dir_Some [OF k(1), of it] by simp
  from dirs.remove_law [OF k(2) wf this] obtain d' m' where
    r: "cell_dir_remove (cell_dir_of c) (slab c) (header_offset c) ?ck = Inr (True, d', m')" by blast
  have "unat (hdr_entry_count (cell_header c)) = unat (1 :: u32)" using k(5) by simp
  then have "hdr_entry_count (cell_header c) - 1 = 0" unfolding word_unat_eq_iff [symmetric] by simp
  then show ?thesis using ld r by (simp add: cell_header_remove_def Let_def ALWAYS_def)
qed

end
