(* ===== verification/Cell_Limits.thy ===== *)
theory Cell_Limits
  imports Cell_Fifo
begin

text \<open>
  Two situations the general theorems of \<open>Cell_Store\<close> leave room for, and how a cell gets there from a blank
  slab: an addition that reports success and stores nothing, and an addition that aborts the process.
\<close>

section \<open>A chunk that is dropped\<close>

text \<open>
  C15: an addition that reports success may store nothing.  This happens when the entry at
  \<open>next_entry_offset\<close> does not have the size of the chunk, what is left from there to the top is too small
  for it, and what is left to the directory is too small as well: all that is evicted, the top is pushed
  down, and the failure of the append that follows is ignored.
\<close>

theorem cell_add_drops:
  assumes "cell_inv c" "chunk_ok ck buffer bs" "cell_map c ck = None" "next_off c \<noteq> top_off c"
    and "be_size (load_body_entry (slab c) (unat (next_off c))) \<noteq> ucast bs"
    and "unat (top_off c) < unat (next_off c) + unat bs + 72"
    and "header_offset c < unat (next_off c) + unat bs + 108"
  shows "\<exists>c'. cell_add_chunk c ck buffer bs = Inr (True, c') \<and> cell_inv c' \<and>
     cell_map c' \<subseteq>\<^sub>m cell_map c \<and> cell_has_chunk c' ck = Inr (False, c')"
proof -
  let ?e = "load_body_entry (slab c) (unat (next_off c))"
  have "unat (ucast (be_size ?e) :: u32) = unat (be_size ?e)"
    using unat_bound_u15 [of "be_size ?e"] by (simp add: word_nat)
  then have no: "\<not> reuses c bs"
    using assms(5) chunk_ok_bounds(5) [OF assms(2)] by (metis reuses_def word_unat_eq_iff)
  then have ns: "\<not> self_evicts c bs"
    by (auto simp: self_evicts_def reuses_def body_load_def split: sum.splits if_splits)
  from assms(1-3) obtain its where a: "addable c its ck buffer bs" by (auto simp: cell_inv_def addable_def)
  from add_chunk_offset [OF a assms(4) ns] obtain c' its' where
    c': "cell_add_chunk c ck buffer bs = Inr (True, c')" "cell_inv c'"
      "cell_map c' \<subseteq>\<^sub>m (cell_map c)(ck \<mapsto> take (unat bs) buffer)"
      "ck \<in> it_key ` set its' \<longleftrightarrow> cell_map c' ck = Some (take (unat bs) buffer)"
      "if reuses c bs then ck \<in> it_key ` set its' else stored_or_dropped c ck bs its'" by metis
  have "ck \<notin> it_key ` set its'" using c'(5) no assms(6,7) by (simp add: stored_or_dropped_def)
  then have "cell_map c' ck \<noteq> Some (take (unat bs) buffer)" using c'(4) by simp
  moreover have "cell_map c' ck = Some (take (unat bs) buffer)" if "cell_map c' ck \<noteq> None"
    using c'(3) that unfolding map_le_def by (metis domIff fun_upd_same)
  ultimately have gone: "cell_map c' ck = None" by blast
  have "cell_map c' \<subseteq>\<^sub>m cell_map c"
    using c'(3) gone unfolding map_le_def by (metis domIff fun_upd_other)
  moreover have "cell_has_chunk c' ck = Inr (False, c')"
    using cells.store_has [OF c'(2) addableD(6) [OF a]] gone by simp
  ultimately show ?thesis using c'(1,2) by blast
qed

lemma uniform_next_size:
  assumes "uniform bs c new (x # old)"
  shows "unat (be_size (load_body_entry (slab c) (unat (next_off c)))) = unat bs"
proof -
  from assms obtain pre post where v: "cell_view c pre [] post" "map it_kd post = x # old"
    and size: "\<forall>it \<in> set (pre @ post). it_size it = unat bs" by (auto simp: uniform_def)
  from map_eq_Cons_D [OF v(2)] obtain y rest where post: "post = y # rest" by (elim exE conjE)
  have "ring c pre (last_size 0 pre) (unat (next_off c)) post" using v(1) by (simp add: cell_view_def)
  from ringD(2) [OF this] post have "it_entry y = load_body_entry (slab c) (unat (next_off c))"
    by (simp add: ring_mem_def)
  then show ?thesis using size post by simp
qed

text \<open>245 chunks of 8192 bytes bring the cell there, and then one of 16384 bytes is dropped.\<close>

lemma crowded_run:
  assumes "cell_init blank_header (\<lambda>_. 0) 1048576 = Inr c"
  obtains c' new x where "cell_add_all c 8192 (map crowded_chunk [0..<245]) = Inr c'"
    "uniform 8192 c' new [x]" "length new = 122" "header_offset c' = 1019872"
    "map fst (x # new) = map fst (map crowded_chunk [122..<245])"
proof -
  have d: "distinct (map fst (map crowded_chunk [0..<245]))" by (rule crowded_ok(2)) simp
  have m: "unat (8192 :: u32) \<le> MAX_ENTRY" by (simp add: MAX_ENTRY_def)
  from fifo_from_start [OF blank_header_insane geometry_1MB assms crowded_ok(1) d crowded_ok(4) _ m]
  obtain c' new old where
    run: "cell_add_all c 8192 (map crowded_chunk [0..<245]) = Inr c'"
    and st: "fifo_state 1048576 8192 123 123 c' (map (stored 8192) (map crowded_chunk [0..<245])) new old"
    by blast
  note d = fifo_stateD [OF st]
  have ne: "map (stored 8192) (map crowded_chunk [0..<245]) \<noteq> []" by simp
  have new: "length new = 122" using d(6) [OF ne] by simp
  then have "length old = 1" using d(7) by simp
  then obtain x where old: "old = [x]" by (cases old) auto
  have "map (stored 8192) (map crowded_chunk [0..<245]) = map crowded_chunk [0..<245]"
    using crowded_ok(3) by simp
  then have "map fst (x # new) = map fst (map crowded_chunk [122..<245])"
    using d(4) old by (simp add: drop_map)
  then show ?thesis
    using that [OF run d(1) [unfolded old] new] d(2) by (simp add: header_offset_def sizeof_cell_header_def)
qed

theorem cell_add_drops_witness:
  "\<exists>c0 c c'. cell_init blank_header (\<lambda>_. 0) 1048576 = Inr c0 \<and>
     cell_add_all c0 8192 (map crowded_chunk [0..<245]) = Inr c \<and>
     cell_add_chunk c (numbered_key 0 245) (replicate 16384 7) 16384 = Inr (True, c') \<and>
     cell_has_chunk c' (numbered_key 0 245) = Inr (False, c')"
proof -
  obtain c0 where c0: "cell_init blank_header (\<lambda>_. 0) 1048576 = Inr c0" using blank_cell by metis
  from crowded_run [OF c0] obtain c new x where
    run: "cell_add_all c0 8192 (map crowded_chunk [0..<245]) = Inr c" and u: "uniform 8192 c new [x]"
    and len: "length new = 122" and hdr: "header_offset c = 1019872"
    and keys: "map fst (x # new) = map fst (map crowded_chunk [122..<245])" .
  note f = uniform_facts [OF u]
  have off: "unat (next_off c) = 1003816" "unat (top_off c) = 1012044" using f(1,2) len by simp_all
  have ok: "chunk_ok (numbered_key 0 245) (replicate 16384 7) 16384"
    by (simp add: chunk_ok_def ok_size_def MIN_ENTRY_def MAX_ENTRY_def)
  have "fst ` set (new @ [x]) = set (map fst (x # new))" by simp
  also have "\<dots> = set (map fst (map crowded_chunk [122..<245]))" by (simp only: keys)
  finally have "fst ` set (new @ [x]) = set (map fst (map crowded_chunk [122..<245]))" .
  moreover have "numbered_key 0 245 \<notin> set (map fst (map crowded_chunk [122..<245]))"
    using of_nat_u8_inj [of 245] by (auto simp: crowded_chunk_def numbered_key_def simp del: upt_Suc)
  ultimately have new: "cell_map c (numbered_key 0 245) = None"
    by (simp only: f(4) map_of_eq_None_iff not_False_eq_True)
  have "next_off c \<noteq> top_off c" using off by auto
  moreover have "be_size (load_body_entry (slab c) (unat (next_off c))) \<noteq> ucast (16384 :: u32)"
    using uniform_next_size [OF u] by (auto simp: word_nat)
  moreover have "unat (top_off c) < unat (next_off c) + unat (16384 :: u32) + 72"
    and "header_offset c < unat (next_off c) + unat (16384 :: u32) + 108"
    using off hdr by simp_all
  ultimately show ?thesis using cell_add_drops [OF f(6) ok new] c0 run by blast
qed

section \<open>An addition that aborts\<close>

lemma cell_add_all_append:
  "cell_add_all c bs (xs @ ys) = rbind (cell_add_all c bs xs) (\<lambda>c'. cell_add_all c' bs ys)"
proof (induction xs arbitrary: c)
  case (Cons kb xs)
  obtain ck buffer where "kb = (ck, buffer)" by (cases kb)
  then show ?case
    using Cons.IH by (cases "cell_add_chunk c ck buffer bs") (auto split: prod.splits)
qed simp

text \<open>
  The last of the old chunks is to be replaced, the only overflow entry is of another bucket, and there is
  room for one overflow entry but not for two.
\<close>

lemma uniform_self_evicts:
  assumes u: "uniform bs c new [x]" and one: "spill_of c = 1"
    and crowd: "CELL_DIR_BLOCK_ENTRIES < crowd b (map fst (new @ [x]))" "block_no (fst x) \<noteq> b"
    and full: "header_offset c < unat (top_off c) + 108"
  shows "self_evicts c bs"
proof -
  from u obtain pre post where v: "cell_view c pre [] post" and kd: "map it_kd pre = new" "map it_kd post = [x]"
    and size: "\<forall>it \<in> set (pre @ post). it_size it = unat bs" and inv: "cell_inv c" by (auto simp: uniform_def)
  from map_eq_Cons_D [OF kd(2)] obtain y rest where "post = y # rest" "it_kd y = x" "map it_kd rest = []"
    by (elim exE conjE)
  then have post: "post = [y]" and x: "fst x = it_key y" by auto
  have keys: "map it_key (pre @ [y]) = map fst (new @ [x])" using kd(1) x by (auto simp: comp_def)
  have "next_off c \<noteq> top_off c" using uniform_facts(1,2) [OF u] by (auto simp: add_mult_distrib)
  then have fill: "98341 \<le> unat (top_off c)"
    using inv by (auto simp: cell_inv_def cell_items_def ring_filled_def)
  from claim_exact [OF v [unfolded post] fill] obtain c2 l where
    cl: "claimed c c2 (it_entry y) pre l []"
    and spill: "\<And>b. spill_of c = 1 \<Longrightarrow> CELL_DIR_BLOCK_ENTRIES < crowd b (map it_key (pre @ [y])) \<Longrightarrow>
       block_no (it_key y) \<noteq> b \<Longrightarrow> spill_of c2 = 1" by blast
  note d = claimedD [OF cl]
  have "spill_of c2 = 1" using spill [OF one] crowd x unfolding keys by simp
  then have "header_offset c2 < unat (top_off c2) + 36 + Suc (spill_of c2) * 36"
    using full d(4) same_meta_offset [OF d(3)] by simp
  moreover have "ucast (be_size (it_entry y)) = bs"
    using size post unat_bound_u15 [of "be_size (it_entry y)"] by (simp add: word_unat_eq_iff word_nat)
  ultimately show ?thesis using self_evicts_claimed [OF cl] by simp
qed

lemma uniform_aborts:
  assumes u: "uniform bs c new old" and ok: "chunk_ok ck buffer bs" and fresh: "ck \<notin> fst ` set (new @ old)"
    and self: "self_evicts c bs"
  shows "cell_add_chunk c ck buffer bs = Inl AssertFailed"
proof -
  from uniform_addable [OF u ok fresh] obtain its where a: "addable c its ck buffer bs" by metis
  show ?thesis using add_chunk_aborts [OF a self self_evicts_not_top [OF addableD(1) [OF a] ok self]] .
qed

text \<open>
  86 chunks of 23680 bytes, 43 of which fill a cell of one megabyte but for 84 bytes.  The checksums
  are spread over the buckets of the directory, except that the last but one shares its bucket with the
  three before it.
\<close>

definition spread_chunk :: "nat \<Rightarrow> binding" where
  "spread_chunk i = (numbered_key (if 81 \<le> i \<and> i \<le> 84 then 81 else i) i, replicate 23680 7)"

lemma spread_ok:
  "chunk_ok (fst (spread_chunk i)) (snd (spread_chunk i)) 23680"
  "n \<le> 256 \<Longrightarrow> distinct (map fst (map spread_chunk [0..<n]))"
  "stored 23680 (spread_chunk i) = spread_chunk i" "chunk_capacity 1048576 23680 0 43"
  using numbered_distinct [of n "\<lambda>i. if 81 \<le> i \<and> i \<le> 84 then 81 else i"]
  by (simp_all add: spread_chunk_def chunk_ok_def ok_size_def MIN_ENTRY_def MAX_ENTRY_def stored_def
      chunk_capacity_def sizeof_cell_header_def comp_def)

lemma spread_block: "block_no (fst (spread_chunk i)) = of_nat (if 81 \<le> i \<and> i \<le> 84 then 81 else i)"
  by (simp add: spread_chunk_def)

lemma crowd_distinct:
  assumes "distinct (map block_no ks)"
  shows "crowd b ks \<le> 1"
proof -
  have "card {k \<in> set ks. block_no k = b} \<le> Suc 0"
    using assms by (subst card_le_Suc0_iff_eq) (auto simp: distinct_map inj_on_def)
  then show ?thesis using crowd_card [of ks b] assms by (simp add: distinct_map)
qed

lemma spread_crowd: "crowd b (map fst (map spread_chunk [0..<84])) \<le> 3"
proof -
  have up: "[0..<84] = [0..<81] @ [81, 82, 83]"
    using upt_add_eq_append [of 0 81 3] by (simp add: upt_rec [of 81] upt_rec [of 82] upt_rec [of 83] del: upt_Suc)
  have low: "map block_no (map fst (map spread_chunk [0..<81])) = map of_nat [0..<81]"
    unfolding map_map by (rule map_cong) (auto simp: spread_block)
  have "distinct (map (of_nat :: nat \<Rightarrow> u8) [0..<81])"
    by (auto simp: distinct_map inj_on_def of_nat_u8_inj simp del: upt_Suc)
  then have one: "crowd b (map fst (map spread_chunk [0..<81])) \<le> 1"
    unfolding low [symmetric] by (rule crowd_distinct)
  show ?thesis
  proof (cases "b = 81")
    case True
    have "(of_nat i :: u8) \<noteq> 81" if "i < 81" for i using of_nat_u8_inj [of i 81] that by simp
    then have "crowd b (map fst (map spread_chunk [0..<81])) = 0"
      using True by (auto simp: crowd_def filter_empty_conv spread_block simp del: upt_Suc)
    then show ?thesis unfolding up by (simp add: spread_block del: upt_Suc)
  next
    case False
    then show ?thesis using one unfolding up by (simp add: spread_block del: upt_Suc)
  qed
qed

lemma spread_fresh:
  assumes "list_all (\<lambda>j. j < n) is" "n < 256"
  shows "fst (spread_chunk n) \<notin> fst ` set (map spread_chunk is)"
  using assms of_nat_u8_inj [of n]
  by (auto simp: spread_chunk_def numbered_key_def list_all_iff)

text \<open>After 84 of them the ring has gone round once and is two chunks away from the top again.\<close>

lemma spread_fill:
  assumes "cell_init blank_header (\<lambda>_. 0) 1048576 = Inr c0"
  obtains c where "cell_add_all c0 23680 (map spread_chunk [0..<84]) = Inr c"
    "uniform 23680 c (map spread_chunk [43..<84]) [spread_chunk 41, spread_chunk 42]"
    "spill_of c = 0" "header_offset c = 1019872"
proof -
  let ?xs = "map spread_chunk [0..<84]"
  have ok: "\<forall>kb \<in> set ?xs. chunk_ok (fst kb) (snd kb) 23680" using spread_ok(1) by auto
  have d: "distinct (map fst ?xs)" by (rule spread_ok(2)) simp
  have few: "43 \<le> (0 :: nat) \<or> (0 :: nat) = 0 \<and> (\<forall>b. crowd b (map fst ?xs) \<le> CELL_DIR_BLOCK_ENTRIES)"
    using spread_crowd unfolding CELL_DIR_BLOCK_ENTRIES_def by blast
  have m: "unat (23680 :: u32) \<le> MAX_ENTRY" by (simp add: MAX_ENTRY_def)
  from fifo_from_start [OF blank_header_insane geometry_1MB assms ok d spread_ok(4) few m] obtain c new old where
    run: "cell_add_all c0 23680 ?xs = Inr c"
    and st: "fifo_state 1048576 23680 0 43 c (map (stored 23680) ?xs) new old" .
  note d = fifo_stateD [OF st]
  have ne: "map (stored 23680) ?xs \<noteq> []" by simp
  have "length new = 41" using d(6) [OF ne] by simp
  then have len: "length old = 2" using d(7) by simp
  have "map (stored 23680) ?xs = ?xs" using spread_ok(3) by simp
  then have "old @ new = map spread_chunk [41..<84]" using d(4) by (simp add: drop_map del: upt_Suc)
  also have "[41..<84] = [41, 42] @ [43..<84]" by (simp add: upt_rec [of 41] upt_rec [of 42] del: upt_Suc)
  finally have "old @ new = [spread_chunk 41, spread_chunk 42] @ map spread_chunk [43..<84]"
    by (simp only: map_append list.map)
  moreover have "length old = length [spread_chunk 41, spread_chunk 42]" using len by simp
  ultimately have "old = [spread_chunk 41, spread_chunk 42] \<and> new = map spread_chunk [43..<84]"
    using append_eq_append_conv by blast
  then show ?thesis
    using that [OF run] d(1-3) by (simp add: header_offset_def sizeof_cell_header_def del: upt_Suc)
qed

lemma spread_run:
  assumes "cell_init blank_header (\<lambda>_. 0) 1048576 = Inr c0"
  obtains c where "cell_add_all c0 23680 (map spread_chunk [0..<85]) = Inr c"
    "uniform 23680 c (map spread_chunk [43..<85]) [spread_chunk 42]" "spill_of c = 1" "header_offset c = 1019872"
proof -
  from spread_fill [OF assms] obtain c where
    run: "cell_add_all c0 23680 (map spread_chunk [0..<84]) = Inr c"
    and u: "uniform 23680 c (map spread_chunk [43..<84]) [spread_chunk 41, spread_chunk 42]"
    and c: "spill_of c = 0" "header_offset c = 1019872" .
  obtain ck buffer where kb: "spread_chunk 84 = (ck, buffer)" by (cases "spread_chunk 84")
  have ok: "chunk_ok ck buffer 23680" using spread_ok(1) [of 84] kb by simp
  have kd: "(ck, take (unat (23680 :: u32)) buffer) = spread_chunk 84"
    using spread_ok(3) [of 84] kb by (simp add: stored_def)
  have "fst (spread_chunk 84) \<notin> fst ` set (map spread_chunk ([43..<84] @ [41, 42]))"
    by (rule spread_fresh) (simp_all add: list_all_iff)
  then have fresh: "ck \<notin> fst ` set (map spread_chunk [43..<84] @ [spread_chunk 41, spread_chunk 42])"
    using kb by (simp del: upt_Suc)
  have "unat (top_off c) = 1019788" using uniform_facts(2) [OF u] by (simp del: upt_Suc)
  then have room: "unat (top_off c) + 36 + Suc (spill_of c) * 36 \<le> header_offset c" using c by simp
  from uniform_reuse [OF u ok fresh room] obtain c1 where
    c1: "cell_add_chunk c ck buffer 23680 = Inr (True, c1)"
      "uniform 23680 c1 (map spread_chunk [43..<84] @ [spread_chunk 84]) [spread_chunk 42]"
      "slab_size c1 = slab_size c"
      "spill_step (spill_of c) (map fst (map spread_chunk [43..<84] @ [spread_chunk 42])) ck (spill_of c1)"
    unfolding kd by blast
  have "[43..<84] = [43..<81] @ [81, 82, 83]"
    using upt_add_eq_append [of 43 81 3] by (simp add: upt_rec [of 81] upt_rec [of 82] upt_rec [of 83] del: upt_Suc)
  moreover have "block_no ck = 81" using spread_block [of 84] kb by simp
  ultimately have "3 \<le> crowd (block_no ck) (map fst (map spread_chunk [43..<84] @ [spread_chunk 42]))"
    by (simp add: spread_block del: upt_Suc)
  then have "spill_of c1 = 1" using c1(4) c(1) by (simp add: spill_step_def CELL_DIR_BLOCK_ENTRIES_def del: upt_Suc)
  moreover have "[0..<85] = [0..<84] @ [84]" "[43..<85] = [43..<84] @ [84]"
    using upt_add_eq_append [of _ 84 1] by (simp_all add: upt_rec [of 84])
  moreover have "header_offset c1 = 1019872" using c1(3) c(2) by (simp add: header_offset_def)
  ultimately show ?thesis
    using that [of c1] c1(1,2) run kb by (simp add: cell_add_all_append del: upt_Suc)
qed

text \<open>
  C14: the abort is reachable.  From a blank slab of one megabyte, 85 chunks of the sizes the chunker
  produces are added, all of them successfully, and the next one, which the cell does not have, fails an
  assertion.
\<close>

theorem cell_abort_reachable:
  "\<exists>c0 c. cell_init blank_header (\<lambda>_. 0) 1048576 = Inr c0 \<and>
     list_all (\<lambda>(ck, buffer). chunk_ok ck buffer 23680) (map spread_chunk [0..<86]) \<and>
     distinct (map fst (map spread_chunk [0..<86])) \<and>
     cell_add_all c0 23680 (map spread_chunk [0..<85]) = Inr c \<and>
     cell_add_chunk c (fst (spread_chunk 85)) (snd (spread_chunk 85)) 23680 = Inl AssertFailed"
proof -
  obtain c0 where c0: "cell_init blank_header (\<lambda>_. 0) 1048576 = Inr c0" using blank_cell by metis
  from spread_run [OF c0] obtain c where
    run: "cell_add_all c0 23680 (map spread_chunk [0..<85]) = Inr c"
    and u: "uniform 23680 c (map spread_chunk [43..<85]) [spread_chunk 42]"
    and c: "spill_of c = 1" "header_offset c = 1019872" .
  have up: "[43..<85] = [43..<81] @ [81, 82, 83, 84]"
    using upt_add_eq_append [of 43 81 4]
    by (simp add: upt_rec [of 81] upt_rec [of 82] upt_rec [of 83] upt_rec [of 84] del: upt_Suc)
  have "CELL_DIR_BLOCK_ENTRIES < crowd 81 (map fst (map spread_chunk [43..<85] @ [spread_chunk 42]))"
    unfolding up by (simp add: spread_block CELL_DIR_BLOCK_ENTRIES_def del: upt_Suc)
  moreover have "block_no (fst (spread_chunk 42)) \<noteq> 81" by (simp add: spread_block)
  moreover have "header_offset c < unat (top_off c) + 108"
    using uniform_facts(2) [OF u] c(2) by (simp del: upt_Suc)
  ultimately have self: "self_evicts c 23680" by (rule uniform_self_evicts [OF u c(1)])
  have "fst (spread_chunk 85) \<notin> fst ` set (map spread_chunk ([43..<85] @ [42]))"
    by (rule spread_fresh) (simp_all add: list_all_iff)
  then have "fst (spread_chunk 85) \<notin> fst ` set (map spread_chunk [43..<85] @ [spread_chunk 42])"
    by (simp del: upt_Suc)
  from uniform_aborts [OF u spread_ok(1) this self] have
    "cell_add_chunk c (fst (spread_chunk 85)) (snd (spread_chunk 85)) 23680 = Inl AssertFailed" .
  moreover have "list_all (\<lambda>(ck, buffer). chunk_ok ck buffer 23680) (map spread_chunk [0..<86])"
    using spread_ok(1) by (auto simp: list_all_iff case_prod_unfold simp del: upt_Suc)
  moreover have "distinct (map fst (map spread_chunk [0..<86]))" by (rule spread_ok(2)) simp
  ultimately show ?thesis using c0 run by blast
qed

end
