(* ===== verification/Cell_Meta.thy ===== *)
theory Cell_Meta
  imports Cell_Ring_Steps
begin

text \<open>
  Whatever an operation of \<^verbatim>\<open>cell_body.c\<close> is given, and in whatever state the body is: if it returns, it has left the
  lock, the size of the slab, the magic and the integrity code alone.
\<close>

named_theorems meta_steps \<open>operations of the body leave lock, size, magic and integrity code alone\<close>

lemma same_meta_set [simp]: "same_meta c (set_top_off c1 v) = same_meta c c1" "same_meta c (set_next_off c1 v) = same_meta c c1"
  "same_meta (set_top_off c v) c1 = same_meta c c1" "same_meta (set_next_off c v) c1 = same_meta c c1"
  by (simp_all add: same_meta_def)

lemma meta_update [meta_steps]: "body_update c off f = Inr c' \<Longrightarrow> same_meta c c'"
  by (auto simp: body_update_def rbind_eq_Inr same_meta_def)

lemma meta_memcpy [meta_steps]: "slab_memcpy c off bs n = Inr c' \<Longrightarrow> same_meta c c'"
  by (auto simp: slab_memcpy_def same_meta_def split: if_splits)

lemma meta_remove [meta_steps]: "cell_header_remove c off = Inr c' \<Longrightarrow> same_meta c c'"
  by (auto simp: cell_header_remove_def rbind_eq_Inr ALWAYS_eq_Inr Let_def same_meta_def)

lemma meta_add [meta_steps]: "cell_header_add c e n = Inr c' \<Longrightarrow> same_meta c c'"
  by (auto simp: cell_header_add_def rbind_eq_Inr Let_def same_meta_def)

lemmas result_split = rbind_eq_Inr ALWAYS_eq_Inr Let_def

lemma meta_write_chunk [meta_steps]: "cell_body_write_chunk c off ck bs n = Inr c' \<Longrightarrow> same_meta c c'"
  by (auto simp: cell_body_write_chunk_def rbind_eq_Inr dest!: meta_steps simp: same_meta_def)

lemma meta_add_top [meta_steps]: "cell_body_add_top c ck bs n e = Inr (b, c') \<Longrightarrow> same_meta c c'"
  by (auto simp: cell_body_add_top_def result_split dest!: meta_steps simp: same_meta_def split: if_splits)

lemma meta_push_down [meta_steps]: "cell_body_push_down_top c off ck bs n e = Inr c' \<Longrightarrow> same_meta c c'"
  by (auto simp: cell_body_push_down_top_def result_split dest!: meta_steps simp: same_meta_def)

lemma meta_add_dir_entry [meta_steps]: "cell_body_add_dir_entry c e n = Inr c' \<Longrightarrow> same_meta c c'"
  by (auto simp: cell_body_add_dir_entry_def result_split dest!: meta_steps simp: same_meta_def split: if_splits)

lemma rbindE: "rbind r f = Inr y \<Longrightarrow> (\<And>x. r = Inr x \<Longrightarrow> f x = Inr y \<Longrightarrow> P) \<Longrightarrow> P"
  by (auto simp: rbind_eq_Inr)

lemma meta_evict [meta_steps]: "cell_body_evict c p f r = Inr (c', stop) \<Longrightarrow> same_meta c c'"
proof (induction c p f r rule: cell_body_evict.induct)
  case (1 c p f r)
  note IH = 1(1)
  show ?case
  proof (cases "f < r")
    case False
    with 1(2) show ?thesis by (subst (asm) cell_body_evict.simps) simp
  next
    case True
    let ?p = "\<lambda>e. p + unat (be_size e) + sizeof_cell_body_entry"
    from 1(2) [unfolded cell_body_evict.simps [of c p f r]] True obtain e e1 where
      e: "body_load c p = Inr e" "body_load c (?p e) = Inr e1"
      and rest: "(if cell_body_entry_top e1 then Inr (c, None)
        else rbind (if \<not> cell_body_entry_free e1 then cell_header_remove c (?p e) else Inr c) (\<lambda>c1.
          rbind (body_load c1 (?p e)) (\<lambda>e2.
          cell_body_evict c1 (?p e) (f + (ucast (be_size e2) + of_nat sizeof_cell_body_entry)) r))) = Inr (c', stop)"
      by (simp only: rbind_eq_Inr if_True) blast
    show ?thesis
    proof (cases "cell_body_entry_top e1")
      case True
      then show ?thesis using rest by simp
    next
      case False
      with rest obtain c1 e2 where n:
        "(if \<not> cell_body_entry_free e1 then cell_header_remove c (?p e) else Inr c) = Inr c1"
        "body_load c1 (?p e) = Inr e2"
        "cell_body_evict c1 (?p e) (f + (ucast (be_size e2) + of_nat sizeof_cell_body_entry)) r = Inr (c', stop)"
        by (simp only: rbind_eq_Inr if_False) blast
      have "same_meta c c1" using n(1) by (auto dest: meta_remove split: if_splits)
      from same_meta_trans [OF this IH [OF True e False n]] show ?thesis .
    qed
  qed
qed

lemma meta_replace:
  "rbind (cell_body_write_chunk c off ck bs n) (\<lambda>c3. rbind (cell_body_add_dir_entry c3 (g c3) n) (\<lambda>c4. Inr (set_next_off c4 (h c4)))) = Inr c' \<Longrightarrow>
    same_meta c c'"
  by (auto simp: rbind_eq_Inr dest!: meta_steps simp: same_meta_def)

lemma meta_hole:
  "rbind (cell_body_write_chunk c off ck bs n) (\<lambda>c4. rbind (cell_body_add_dir_entry c4 (g c4) n) (\<lambda>c5.
     rbind (body_update (set_next_off c5 (h c5)) (a c5) f) (\<lambda>c7. body_update c7 (b c5) f'))) = Inr c' \<Longrightarrow> same_meta c c'"
  by (auto simp: rbind_eq_Inr dest!: meta_steps simp: same_meta_def)

lemma meta_evicted:
  assumes "rbind (cell_body_evict c off x req) (\<lambda>(c3, stop). case stop of
      None \<Rightarrow> cell_body_push_down_top c3 off ck bs n e
    | Some (ptr, free_space) \<Rightarrow> rbind (cell_body_next_entry_is_top c3 ptr) (\<lambda>is_top.
        if is_top then cell_body_push_down_top c3 off ck bs n e else K c3 free_space)) = Inr c'"
    and K: "\<And>c3 free_space. K c3 free_space = Inr c' \<Longrightarrow> same_meta c3 c'"
  shows "same_meta c c'"
proof -
  from assms(1) obtain c3 stop where ev: "cell_body_evict c off x req = Inr (c3, stop)"
    and rest: "(case stop of None \<Rightarrow> cell_body_push_down_top c3 off ck bs n e
      | Some (ptr, free_space) \<Rightarrow> rbind (cell_body_next_entry_is_top c3 ptr) (\<lambda>is_top.
          if is_top then cell_body_push_down_top c3 off ck bs n e else K c3 free_space)) = Inr c'"
    by (auto simp: rbind_eq_Inr)
  have "same_meta c3 c'"
    using rest meta_push_down [of c3 off ck bs n e c'] K
    by (auto simp: rbind_eq_Inr split: option.splits if_splits)
  with meta_evict [OF ev] show ?thesis by (rule same_meta_trans)
qed

lemma meta_add_offset [meta_steps]:
  assumes "cell_body_add_offset c ck bs n e = Inr c'"
  shows "same_meta c c'"
proof -
  let ?off = "unat (next_off c)"
  have "\<exists>c2. same_meta c c2 \<and> same_meta c2 c'"
    using assms unfolding cell_body_add_offset_def Let_def
  proof (elim rbindE, goal_cases)
    case (1 entry c1 c2 entry2)
    have "same_meta c c1" using 1(2) by (auto dest: meta_remove split: if_splits)
    moreover have "same_meta c1 c2" using 1(3) by (rule meta_update)
    moreover have "same_meta c2 c'"
    proof (cases "ucast (be_size entry2) = n")
      case True
      with 1(5) show ?thesis by (auto dest: meta_replace)
    next
      case False
      with 1(5) show ?thesis by (auto elim!: meta_evicted dest: meta_hole)
    qed
    ultimately show ?case using same_meta_trans by blast
  qed
  then show ?thesis using same_meta_trans by blast
qed

lemma meta_body_add: "cell_body_add c ck bs n e = Inr c' \<Longrightarrow> same_meta c c'"
  by (auto simp: cell_body_add_def result_split dest!: meta_steps simp: same_meta_def split: if_splits)
end
