(* ===== verification/Cache_Threads.thy ===== *)
theory Cache_Threads
  imports Cache Cell_Meta
begin

text \<open>
  The cache under several threads.  Every operation of \<^verbatim>\<open>cell.c\<close> is cut into the steps the other threads, or a crash, can
  observe: taking the mutex, the search of the directory, the bump of the entry code, the work on
  the body, the copy to the exit code, and the release of the mutex.  A thread waits in
  \<^verbatim>\<open>pthread_mutex_lock\<close> while another one holds the lock of its cell, and threads on different cells interleave freely.

  It is shown that the interleavings give nothing but sequences of whole operations of \<^verbatim>\<open>cache.c\<close>, that no thread waits for
  ever, and what is left when the machine stops at any point.
\<close>

section \<open>Requests\<close>

datatype request =
    AddReq checksum "u8 list" u32
  | HasReq checksum
  | GetReq checksum chunk
  | MetricsReq nat cache_metrics

datatype reply = Added bool | Known bool | Got bool chunk | Counted cache_metrics

text \<open>A request as one operation on its cell, and on the cache. \<open>MetricsReq\<close> is one round of \<^verbatim>\<open>cache_get_metrics\<close>.\<close>

fun cell_op :: "request \<Rightarrow> cell \<Rightarrow> (reply \<times> cell) result" where
  "cell_op (AddReq ck buffer bs) c = rbind (cell_add_chunk c ck buffer bs) (\<lambda>(b, c'). Inr (Added b, c'))"
| "cell_op (HasReq ck) c = rbind (cell_has_chunk c ck) (\<lambda>(b, c'). Inr (Known b, c'))"
| "cell_op (GetReq ck ch) c = rbind (cell_get_chunk c ck ch) (\<lambda>(b, c', ch'). Inr (Got b ch', c'))"
| "cell_op (MetricsReq i m) c = rbind (cell_get_metrics c m) (\<lambda>(m', c'). Inr (Counted m', c'))"

fun request_cell :: "cache \<Rightarrow> request \<Rightarrow> nat result" where
  "request_cell cache (AddReq ck _ _) = cache_get_cell_index cache ck"
| "request_cell cache (HasReq ck) = cache_get_cell_index cache ck"
| "request_cell cache (GetReq ck _) = cache_get_cell_index cache ck"
| "request_cell cache (MetricsReq i _) = Inr i"

definition cache_op :: "request \<Rightarrow> cache \<Rightarrow> (reply \<times> cache) result" where
  "cache_op q cache =
     rbind (request_cell cache q) (\<lambda>i.
     rbind (cache_cell cache i) (\<lambda>c.
     rbind (cell_op q c) (\<lambda>(r, c'). Inr (r, set_cache_cell cache i c'))))"

fun cache_ops :: "request list \<Rightarrow> cache \<Rightarrow> (reply list \<times> cache) result" where
  "cache_ops [] cache = Inr ([], cache)"
| "cache_ops (q # qs) cache =
     rbind (cache_op q cache) (\<lambda>(r, cache1). rbind (cache_ops qs cache1) (\<lambda>(rs, cache2). Inr (r # rs, cache2)))"

lemma cache_op_chunks:
  "cache_op (AddReq ck buffer bs) cache = rbind (cache_add_chunk cache ck buffer bs) (\<lambda>(b, s). Inr (Added b, s))"
  "cache_op (HasReq ck) cache = rbind (cache_has_chunk cache ck) (\<lambda>(b, s). Inr (Known b, s))"
  "cache_op (GetReq ck ch) cache = rbind (cache_get_chunk cache ck ch) (\<lambda>(b, s, ch'). Inr (Got b ch', s))"
  by (simp_all add: cache_op_def cache_add_chunk_def cache_has_chunk_def cache_get_chunk_def rbind_assoc case_prod_unfold)

section \<open>The steps of an operation\<close>

text \<open>Where a thread is in \<^verbatim>\<open>cell_add_chunk\<close>, \<^verbatim>\<open>cell_has_chunk\<close>, \<^verbatim>\<open>cell_get_chunk\<close> or \<^verbatim>\<open>cell_get_metrics\<close>, once it has the lock.\<close>

datatype pc =
    AtSearch checksum "u8 list" u32
  | AtEntry checksum "u8 list" u32 cell_dir_entry
  | AtBody checksum "u8 list" u32 cell_dir_entry
  | AtExit
  | AtHas checksum
  | AtGet checksum chunk
  | AtCopy chunk cell_dir_entry
  | AtCount cache_metrics
  | AtUnlock reply

fun first_pc :: "request \<Rightarrow> pc" where
  "first_pc (AddReq ck buffer bs) = AtSearch ck buffer bs"
| "first_pc (HasReq ck) = AtHas ck"
| "first_pc (GetReq ck ch) = AtGet ck ch"
| "first_pc (MetricsReq i m) = AtCount m"

definition cell_search :: "cell \<Rightarrow> checksum \<Rightarrow> (bool \<times> cell_dir_entry) result" where
  "cell_search c ck =
     cell_dir_get_chunk (hdr_cell_dir (cell_header c)) (slab c) (header_offset c) ck cell_dir_entry_init"

fun micro :: "pc \<Rightarrow> cell \<Rightarrow> (pc \<times> cell) result" where
  "micro (AtSearch ck buffer bs) c = rbind (cell_search c ck) (\<lambda>(found, de).
     Inr (if found then AtUnlock (Added False) else AtEntry ck buffer bs de, c))"
| "micro (AtEntry ck buffer bs de) c =
     Inr (AtBody ck buffer bs de, set_ic c (snd (cell_ic_on_entry (hdr_cell_ic (cell_header c)))))"
| "micro (AtBody ck buffer bs de) c = rbind (cell_body_add c ck buffer bs de) (\<lambda>c'. Inr (AtExit, c'))"
| "micro AtExit c = Inr (AtUnlock (Added True), set_ic c (snd (cell_ic_on_exit (hdr_cell_ic (cell_header c)))))"
| "micro (AtHas ck) c = rbind (cell_search c ck) (\<lambda>(found, _). Inr (AtUnlock (Known found), c))"
| "micro (AtGet ck ch) c = rbind (cell_search c ck) (\<lambda>(found, de).
     Inr (if found then AtCopy ch de else AtUnlock (Got False ch), c))"
| "micro (AtCopy ch de) c =
     (let ptr = unat (de_offset de) in
      rbind (body_load c ptr) (\<lambda>entry.
      rbind (slab_read c (ptr + sizeof_cell_body_entry) (unat (be_size entry))) (\<lambda>buffer.
      rbind (chunk_set ch (de_checksum de) buffer (ucast (be_size entry))) (\<lambda>ch1.
      Inr (AtUnlock (Got True ch1), c)))))"
| "micro (AtCount m) c =
     Inr (AtUnlock (Counted (m\<lparr>met_byte_count := met_byte_count m + scast (cell_header_byte_count (cell_header c)),
         met_entry_count := met_entry_count m + scast (cell_header_entry_count (cell_header c))\<rparr>)), c)"
| "micro (AtUnlock r) c = Inr (AtUnlock r, c)"

text \<open>The rest of an operation, without interruption.\<close>

fun rank :: "pc \<Rightarrow> nat" where
  "rank (AtSearch _ _ _) = 4"
| "rank (AtEntry _ _ _ _) = 3"
| "rank (AtBody _ _ _ _) = 2"
| "rank AtExit = 1"
| "rank (AtHas _) = 1"
| "rank (AtGet _ _) = 2"
| "rank (AtCopy _ _) = 1"
| "rank (AtCount _) = 1"
| "rank (AtUnlock _) = 0"

lemma micro_rank: "micro pc c = Inr (pc', c') \<Longrightarrow> 0 < rank pc \<Longrightarrow> rank pc' < rank pc"
  by (cases pc) (auto simp: rbind_eq_Inr Let_def)

function finish :: "pc \<Rightarrow> cell \<Rightarrow> (reply \<times> cell) result" where
  "finish pc c =
     (case pc of
        AtUnlock r \<Rightarrow> rbind (pthread_mutex_unlock c) (\<lambda>c'. Inr (r, c'))
      | _ \<Rightarrow> rbind (micro pc c) (\<lambda>(pc', c'). finish pc' c'))"
  by pat_completeness auto
termination
  by (relation "measure (\<lambda>(pc, c). rank pc)") (auto simp del: micro.simps dest!: micro_rank)

declare finish.simps [simp del]

lemma finish_unlock: "finish (AtUnlock r) c = rbind (pthread_mutex_unlock c) (\<lambda>c'. Inr (r, c'))"
  by (simp add: finish.simps)

lemma finish_micro: "0 < rank pc \<Longrightarrow> finish pc c = rbind (micro pc c) (\<lambda>(pc', c'). finish pc' c')"
  by (cases pc; subst finish.simps; simp)

text \<open>Locking and then going through the steps is the operation.\<close>

lemma finish_first: "cell_op q c = rbind (pthread_mutex_lock c) (\<lambda>c1. finish (first_pc q) c1)"
proof (cases q)
  case (AddReq ck buffer bs)
  then show ?thesis
    by (auto simp: cell_add_chunk_def rbind_assoc finish_micro finish_unlock cell_search_def case_prod_unfold
        intro!: arg_cong2 [where f = rbind] ext)
next
  case (HasReq ck)
  then show ?thesis
    by (auto simp: cell_has_chunk_def rbind_assoc finish_micro finish_unlock cell_search_def case_prod_unfold)
next
  case (GetReq ck ch)
  then show ?thesis
    by (auto simp: cell_get_chunk_def rbind_assoc finish_micro finish_unlock cell_search_def case_prod_unfold Let_def
        intro!: arg_cong2 [where f = rbind] ext)
next
  case (MetricsReq i m)
  then show ?thesis
    by (auto simp: cell_get_metrics_def rbind_assoc finish_micro finish_unlock Let_def)
qed

section \<open>Threads\<close>

text \<open>
  A thread is between two requests or at a step of one, in the cell with the index given; the requests it still has follow.
  \<open>sys_log\<close> is not part of the program: it lists the requests that are done, with the thread and the reply.
\<close>

record thread =
  running :: "(nat \<times> request \<times> pc) option"
  requests :: "request list"

record system =
  sys_cache :: cache
  threads :: "nat \<Rightarrow> thread"
  sys_log :: "(nat \<times> request \<times> reply) list"

inductive sys_step :: "nat \<Rightarrow> system \<Rightarrow> system \<Rightarrow> bool" where
  lock: "threads s t = \<lparr>running = None, requests = q # qs\<rparr> \<Longrightarrow> request_cell (sys_cache s) q = Inr i \<Longrightarrow>
     cache_cell (sys_cache s) i = Inr c \<Longrightarrow> pthread_mutex_lock c = Inr c' \<Longrightarrow>
     sys_step t s (s\<lparr>sys_cache := set_cache_cell (sys_cache s) i c',
       threads := (threads s)(t := \<lparr>running = Some (i, q, first_pc q), requests = qs\<rparr>)\<rparr>)"
| run: "running (threads s t) = Some (i, q, pc) \<Longrightarrow> 0 < rank pc \<Longrightarrow> cache_cell (sys_cache s) i = Inr c \<Longrightarrow>
     micro pc c = Inr (pc', c') \<Longrightarrow>
     sys_step t s (s\<lparr>sys_cache := set_cache_cell (sys_cache s) i c',
       threads := (threads s)(t := (threads s t)\<lparr>running := Some (i, q, pc')\<rparr>)\<rparr>)"
| unlock: "running (threads s t) = Some (i, q, AtUnlock r) \<Longrightarrow> cache_cell (sys_cache s) i = Inr c \<Longrightarrow>
     pthread_mutex_unlock c = Inr c' \<Longrightarrow>
     sys_step t s (s\<lparr>sys_cache := set_cache_cell (sys_cache s) i c',
       threads := (threads s)(t := (threads s t)\<lparr>running := None\<rparr>), sys_log := sys_log s @ [(t, q, r)]\<rparr>)"

inductive sys_reach :: "system \<Rightarrow> system \<Rightarrow> bool" for s0 where
  start: "sys_reach s0 s0"
| step: "sys_reach s0 s \<Longrightarrow> sys_step t s s' \<Longrightarrow> sys_reach s0 s'"

fun request_ok :: "cache \<Rightarrow> request \<Rightarrow> bool" where
  "request_ok cache (AddReq ck buffer bs) = chunk_ok ck buffer bs"
| "request_ok cache (HasReq ck) = wf_checksum ck"
| "request_ok cache (GetReq ck ch) = (wf_checksum ck \<and> wf_chunk ch)"
| "request_ok cache (MetricsReq i m) = (i < length (cells_of cache))"

text \<open>All threads are about to begin, on a cache in good order.\<close>

definition sys_start :: "system \<Rightarrow> bool" where
  "sys_start s \<longleftrightarrow> cache_inv (sys_cache s) \<and> sys_log s = [] \<and>
     (\<forall>t. running (threads s t) = None \<and> (\<forall>q \<in> set (requests (threads s t)). request_ok (sys_cache s) q))"

section \<open>Requests one after the other\<close>

lemma cache_cell_in: "i < length (cells_of cache) \<Longrightarrow> cache_cell cache i = Inr (cells_of cache ! i)"
  by (auto simp: cache_cell_def cells_of_def split: option.splits)

lemma cache_cell_Inr: "cache_cell cache i = Inr c \<Longrightarrow> i < length (cells_of cache) \<and> c = cells_of cache ! i"
  by (auto simp: cache_cell_def cells_of_def split: option.splits if_splits)

lemma set_cell_twice [simp]: "set_cache_cell (set_cache_cell cache i a) i b = set_cache_cell cache i b"
  by (simp add: set_cache_cell_def option.map_comp comp_def)

lemma request_cell_header:
  assumes "cache_header a = cache_header b" "length (cells_of a) = length (cells_of b)" "i < length (cells_of b)"
  shows "request_cell a q = request_cell b q"
proof -
  have "cells_of a \<noteq> []" "cells_of b \<noteq> []" using assms(2,3) by auto
  then have "cache_cells a \<noteq> None" "cache_cells b \<noteq> None" by (auto simp: cells_of_def split: option.splits)
  then show ?thesis using assms(1) by (cases q) (simp_all add: cache_get_cell_index_def)
qed

lemma request_ok_length: "length (cells_of a) = length (cells_of b) \<Longrightarrow> request_ok a q = request_ok b q"
  by (cases q) simp_all

lemma request_target:
  assumes "cache_inv base" "request_ok base q"
  obtains i where "request_cell base q = Inr i" "i < length (cells_of base)" "cell_inv (cells_of base ! i)"
    "cache_op q base = rbind (cell_op q (cells_of base ! i)) (\<lambda>(r, c'). Inr (r, set_cache_cell base i c'))"
proof -
  obtain i where i: "request_cell base q = Inr i" "i < length (cells_of base)"
    using assms cache_invD [OF assms(1)] by (cases q) auto
  then have "cell_inv (cells_of base ! i)" using assms(1) by (simp add: cache_inv_def)
  with i that show thesis by (simp add: cache_op_def cache_cell_in)
qed

lemma metrics_same: "cell_inv c \<Longrightarrow> \<exists>m'. cell_get_metrics c m = Inr (m', c)"
  using cell_metrics_add(1) by blast

lemma get_same:
  assumes "cache_inv cache" "wf_checksum ck" "wf_chunk ch" "cache_get_chunk cache ck ch = Inr (b, cache', ch')"
  shows "cache' = cache"
proof (cases "cache_map cache ck")
  case None
  then show ?thesis using caches.store_get_unknown [OF assms(1,2) None] assms(4) by simp
next
  case (Some d)
  then show ?thesis using caches.store_get_known [OF assms(1-3)] assms(4) by fastforce
qed

lemma cache_op_keeps:
  assumes "cache_inv base" "request_ok base q" "cache_op q base = Inr (r, base')"
  shows "cache_inv base'" "cache_header base' = cache_header base" "length (cells_of base') = length (cells_of base)"
proof -
  obtain i where "cache_op q base = rbind (cell_op q (cells_of base ! i)) (\<lambda>(r, c'). Inr (r, set_cache_cell base i c'))"
    by (rule request_target [OF assms(1,2)])
  with assms(3) show "cache_header base' = cache_header base" "length (cells_of base') = length (cells_of base)"
    by (auto simp: rbind_eq_Inr)
  show "cache_inv base'"
  proof (cases q)
    case (AddReq ck buffer bs)
    with assms(2,3) obtain b where "cache_add_chunk base ck buffer bs = Inr (b, base')" "chunk_ok ck buffer bs"
      by (auto simp: cache_op_chunks rbind_eq_Inr)
    then show ?thesis using caches.success_inv(1) [OF assms(1)] by blast
  next
    case (HasReq ck)
    with assms show ?thesis using caches.store_has [OF assms(1)] by (simp add: cache_op_chunks)
  next
    case (GetReq ck ch)
    with assms(2,3) obtain b ch' where g: "cache_get_chunk base ck ch = Inr (b, base', ch')" "wf_checksum ck" "wf_chunk ch"
      by (auto simp: cache_op_chunks rbind_eq_Inr)
    then show ?thesis using get_same [OF assms(1) g(2,3,1)] assms(1) by simp
  next
    case (MetricsReq i m)
    with assms(1,2) have i: "i < length (cells_of base)" "cell_inv (cells_of base ! i)" by (simp_all add: cache_inv_def)
    from metrics_same [OF i(2), of m] assms(3) MetricsReq show ?thesis
      using assms(1) set_cache_cell_same [OF i(1)] i(1) by (auto simp: cache_op_def cache_cell_in)
  qed
qed

lemma cache_ops_append:
  "cache_ops (qs @ [q]) cache = rbind (cache_ops qs cache) (\<lambda>(rs, cache1). rbind (cache_op q cache1) (\<lambda>(r, cache2). Inr (rs @ [r], cache2)))"
  by (induction qs arbitrary: cache) (auto simp: rbind_def case_prod_unfold split: sum.splits)

section \<open>What a thread has done so far\<close>

fun phase :: "pc \<Rightarrow> cell \<Rightarrow> cell \<Rightarrow> bool" where
  "phase (AtBody _ _ _ _) c b = (hdr_cell_ic (cell_header c) = snd (cell_ic_on_entry (hdr_cell_ic (cell_header b))))"
| "phase AtExit c b = (hdr_cell_ic (cell_header c) = snd (cell_ic_on_entry (hdr_cell_ic (cell_header b))))"
| "phase (AtUnlock (Added True)) c b = True"
| "phase _ c b = (c = b\<lparr>mutex := MutexLocked\<rparr>)"

lemma set_ic_simps [simp]: "mutex (set_ic c ic) = mutex c" "slab_size (set_ic c ic) = slab_size c"
  "hdr_cell_ic (cell_header (set_ic c ic)) = ic" "hdr_magic (cell_header (set_ic c ic)) = hdr_magic (cell_header c)"
  by (simp_all add: set_ic_def)

lemma micro_phase:
  assumes "phase pc c b" "0 < rank pc" "micro pc c = Inr (pc', c')" "mutex c = MutexLocked" "slab_size c = slab_size b"
  shows "phase pc' c' b" "mutex c' = MutexLocked" "slab_size c' = slab_size b"
proof -
  have "phase pc' c' b \<and> mutex c' = MutexLocked \<and> slab_size c' = slab_size b"
    using assms by (cases pc) (auto simp: rbind_eq_Inr Let_def same_meta_def dest!: meta_body_add)
  then show "phase pc' c' b" "mutex c' = MutexLocked" "slab_size c' = slab_size b" by blast+
qed

text \<open>
  \<open>base\<close> is the cache the finished requests lead to, one after the other.  The system differs from it only in the
  cells some thread is in, of which it is known how they will be left.
\<close>

definition thread_ok :: "system \<Rightarrow> cache \<Rightarrow> nat \<Rightarrow> request \<Rightarrow> pc \<Rightarrow> bool" where
  "thread_ok s base i q pc \<longleftrightarrow>
     (let c = cells_of (sys_cache s) ! i; b = cells_of base ! i
      in i < length (cells_of base) \<and> request_ok base q \<and> request_cell base q = Inr i \<and>
         mutex c = MutexLocked \<and> slab_size c = slab_size b \<and> finish pc c = cell_op q b \<and> phase pc c b)"

definition sys_ok :: "system \<Rightarrow> system \<Rightarrow> cache \<Rightarrow> bool" where
  "sys_ok s0 s base \<longleftrightarrow>
     cache_ops (map (\<lambda>(t, q, r). q) (sys_log s)) (sys_cache s0) = Inr (map (\<lambda>(t, q, r). r) (sys_log s), base) \<and>
     cache_inv base \<and> cache_header (sys_cache s) = cache_header base \<and>
     length (cells_of (sys_cache s)) = length (cells_of base) \<and>
     (\<forall>t. \<forall>q \<in> set (requests (threads s t)). request_ok base q) \<and>
     (\<forall>t i q pc. running (threads s t) = Some (i, q, pc) \<longrightarrow> thread_ok s base i q pc) \<and>
     (\<forall>t u i. map_option fst (running (threads s t)) = Some i \<and> map_option fst (running (threads s u)) = Some i \<longrightarrow> t = u) \<and>
     (\<forall>i < length (cells_of base). (\<forall>t. map_option fst (running (threads s t)) \<noteq> Some i) \<longrightarrow>
        cells_of (sys_cache s) ! i = cells_of base ! i)"

lemma sys_okD:
  assumes "sys_ok s0 s base"
  shows "cache_ops (map (\<lambda>(t, q, r). q) (sys_log s)) (sys_cache s0) = Inr (map (\<lambda>(t, q, r). r) (sys_log s), base)"
    "cache_inv base" "cache_header (sys_cache s) = cache_header base"
    "length (cells_of (sys_cache s)) = length (cells_of base)"
    "\<And>t q. q \<in> set (requests (threads s t)) \<Longrightarrow> request_ok base q"
    "\<And>t i q pc. running (threads s t) = Some (i, q, pc) \<Longrightarrow> thread_ok s base i q pc"
    "\<And>t u i. map_option fst (running (threads s t)) = Some i \<Longrightarrow> map_option fst (running (threads s u)) = Some i \<Longrightarrow> t = u"
    "\<And>i. i < length (cells_of base) \<Longrightarrow> (\<And>t. map_option fst (running (threads s t)) \<noteq> Some i) \<Longrightarrow>
        cells_of (sys_cache s) ! i = cells_of base ! i"
  using assms unfolding sys_ok_def by blast+

lemma sys_okI:
  assumes "cache_ops (map (\<lambda>(t, q, r). q) (sys_log s)) (sys_cache s0) = Inr (map (\<lambda>(t, q, r). r) (sys_log s), base)"
    "cache_inv base" "cache_header (sys_cache s) = cache_header base"
    "length (cells_of (sys_cache s)) = length (cells_of base)"
    "\<And>t q. q \<in> set (requests (threads s t)) \<Longrightarrow> request_ok base q"
    "\<And>t i q pc. running (threads s t) = Some (i, q, pc) \<Longrightarrow> thread_ok s base i q pc"
    "\<And>t u i. map_option fst (running (threads s t)) = Some i \<Longrightarrow> map_option fst (running (threads s u)) = Some i \<Longrightarrow> t = u"
    "\<And>i. i < length (cells_of base) \<Longrightarrow> (\<And>t. map_option fst (running (threads s t)) \<noteq> Some i) \<Longrightarrow>
        cells_of (sys_cache s) ! i = cells_of base ! i"
  shows "sys_ok s0 s base"
  using assms unfolding sys_ok_def by blast

text \<open>Another cell is not touched by what happens in cell \<open>i\<close>.\<close>

lemma thread_ok_other:
  assumes "thread_ok s base j q pc" "j \<noteq> i"
    and "cells_of (sys_cache s') = (cells_of (sys_cache s))[i := c']" "cells_of base' = (cells_of base)[i := b']"
    and "cache_header base' = cache_header base"
  shows "thread_ok s' base' j q pc"
  using assms request_ok_length [of base' base q] request_cell_header [OF assms(5), of j q]
  by (simp add: thread_ok_def Let_def)

lemma sys_ok_start: "sys_start s0 \<Longrightarrow> sys_ok s0 s0 (sys_cache s0)"
  by (simp add: sys_start_def sys_ok_def)

lemma lock_Inr: "pthread_mutex_lock c = Inr c' \<Longrightarrow> mutex c = MutexUnlocked \<and> c' = c\<lparr>mutex := MutexLocked\<rparr>"
  by (simp add: pthread_mutex_lock_def split: mutex_state.splits)

lemma first_phase: "phase (first_pc q) (c\<lparr>mutex := MutexLocked\<rparr>) c"
  by (cases q) simp_all

text \<open>Thread \<open>t\<close> enters cell \<open>i\<close>, or makes a step there.\<close>

lemma sys_ok_inside:
  assumes ok: "sys_ok s0 s base"
    and s': "s' = s\<lparr>sys_cache := set_cache_cell (sys_cache s) i c',
       threads := (threads s)(t := \<lparr>running = Some (i, q, pc'), requests = qs\<rparr>)\<rparr>"
    and qs: "set qs \<subseteq> set (requests (threads s t))"
    and t: "thread_ok s' base i q pc'"
    and at: "\<And>j. map_option fst (running (threads s t)) = Some j \<Longrightarrow> j = i"
    and alone: "\<And>u. map_option fst (running (threads s u)) = Some i \<Longrightarrow> u = t"
  shows "sys_ok s0 s' base"
proof (rule sys_okI)
  note d = sys_okD [OF ok]
  show "cache_ops (map (\<lambda>(t, q, r). q) (sys_log s')) (sys_cache s0) = Inr (map (\<lambda>(t, q, r). r) (sys_log s'), base)"
    "cache_inv base" "cache_header (sys_cache s') = cache_header base"
    "length (cells_of (sys_cache s')) = length (cells_of base)"
    using d(1-4) by (simp_all add: s')
  show "request_ok base q'" if "q' \<in> set (requests (threads s' u))" for u q'
    using d(5) that qs by (auto simp: s' split: if_splits)
  show "thread_ok s' base j q' pc" if "running (threads s' u) = Some (j, q', pc)" for u j q' pc
  proof (cases "u = t")
    case True
    then show ?thesis using that t by (simp add: s')
  next
    case False
    then have u: "running (threads s u) = Some (j, q', pc)" using that by (simp add: s')
    then have "j \<noteq> i" using alone [of u] False by auto
    with thread_ok_other [OF d(6) [OF u], where s' = s' and base' = base and b' = "cells_of base ! i" and c' = c'] show ?thesis
      by (simp add: s')
  qed
  show "u = v" if "map_option fst (running (threads s' u)) = Some j" "map_option fst (running (threads s' v)) = Some j" for u v j
    using d(7) [of u j v] that alone [of u] alone [of v] by (auto simp: s' split: if_splits)
  show "cells_of (sys_cache s') ! j = cells_of base ! j"
    if j: "j < length (cells_of base)" "\<And>u. map_option fst (running (threads s' u)) \<noteq> Some j" for j
  proof -
    have "j \<noteq> i" using j(2) [of t] by (simp add: s')
    moreover have "map_option fst (running (threads s u)) \<noteq> Some j" for u
      using j(2) [of u] at [of j] \<open>j \<noteq> i\<close> by (auto simp: s' split: if_splits)
    ultimately show ?thesis using d(8) [OF j(1)] by (simp add: s')
  qed
qed

lemma sys_ok_lock:
  assumes ok: "sys_ok s0 s base" and th: "threads s t = \<lparr>running = None, requests = q # qs\<rparr>"
    and i: "request_cell (sys_cache s) q = Inr i" and c: "cache_cell (sys_cache s) i = Inr c"
    and lock: "pthread_mutex_lock c = Inr c'"
  shows "sys_ok s0 (s\<lparr>sys_cache := set_cache_cell (sys_cache s) i c',
       threads := (threads s)(t := \<lparr>running = Some (i, q, first_pc q), requests = qs\<rparr>)\<rparr>) base"
proof -
  note d = sys_okD [OF ok]
  have ci: "i < length (cells_of base)" "c = cells_of (sys_cache s) ! i" using cache_cell_Inr [OF c] d(4) by simp_all
  have free: "map_option fst (running (threads s u)) \<noteq> Some i" for u
  proof
    assume "map_option fst (running (threads s u)) = Some i"
    then obtain q' pc where "running (threads s u) = Some (i, q', pc)" by auto
    from d(6) [OF this] lock_Inr [OF lock] ci(2) show False by (simp add: thread_ok_def Let_def)
  qed
  have b: "c = cells_of base ! i" using d(8) [OF ci(1) free] ci(2) by simp
  let ?s = "s\<lparr>sys_cache := set_cache_cell (sys_cache s) i c',
       threads := (threads s)(t := \<lparr>running = Some (i, q, first_pc q), requests = qs\<rparr>)\<rparr>"
  have "thread_ok ?s base i q (first_pc q)"
    using ci d(4) d(5) [of q t] th lock_Inr [OF lock] request_cell_header [OF d(3,4) ci(1), of q] i first_phase [of q c]
      finish_first [of q c] lock b [symmetric]
    by (simp add: thread_ok_def Let_def)
  from sys_ok_inside [OF ok refl _ this] free th show ?thesis by fastforce
qed

lemma sys_ok_run:
  assumes ok: "sys_ok s0 s base" and th: "running (threads s t) = Some (i, q, pc)" "0 < rank pc"
    and c: "cache_cell (sys_cache s) i = Inr c" and m: "micro pc c = Inr (pc', c')"
  shows "sys_ok s0 (s\<lparr>sys_cache := set_cache_cell (sys_cache s) i c',
       threads := (threads s)(t := (threads s t)\<lparr>running := Some (i, q, pc')\<rparr>)\<rparr>) base"
proof -
  note d = sys_okD [OF ok]
  have ci: "i < length (cells_of base)" "c = cells_of (sys_cache s) ! i" using cache_cell_Inr [OF c] d(4) by simp_all
  have t: "thread_ok s base i q pc" using d(6) [OF th(1)] .
  have alone: "u = t" if "map_option fst (running (threads s u)) = Some i" for u
    using d(7) [OF that, of t] th(1) by simp
  let ?s = "s\<lparr>sys_cache := set_cache_cell (sys_cache s) i c',
       threads := (threads s)(t := (threads s t)\<lparr>running := Some (i, q, pc')\<rparr>)\<rparr>"
  have "thread_ok ?s base i q pc'"
    using t ci d(4) finish_micro [OF th(2), of c] m micro_phase [of pc c "cells_of base ! i", OF _ th(2) m]
    by (simp add: thread_ok_def Let_def)
  moreover have eq: "(threads s t)\<lparr>running := Some (i, q, pc')\<rparr> = \<lparr>running = Some (i, q, pc'), requests = requests (threads s t)\<rparr>"
    by (cases "threads s t") simp
  ultimately show ?thesis
    unfolding eq using th(1) by (intro sys_ok_inside [OF ok refl subset_refl _ _ alone]) simp_all
qed

lemma unlock_Inr: "pthread_mutex_unlock c = Inr c' \<Longrightarrow> c' = c\<lparr>mutex := MutexUnlocked\<rparr>"
  by (simp add: pthread_mutex_unlock_def ALWAYS_eq_Inr)

lemma sys_ok_unlock:
  assumes ok: "sys_ok s0 s base" and th: "running (threads s t) = Some (i, q, AtUnlock r)"
    and c: "cache_cell (sys_cache s) i = Inr c" and un: "pthread_mutex_unlock c = Inr c'"
    and s': "s' = s\<lparr>sys_cache := set_cache_cell (sys_cache s) i c',
       threads := (threads s)(t := (threads s t)\<lparr>running := None\<rparr>), sys_log := sys_log s @ [(t, q, r)]\<rparr>"
  shows "sys_ok s0 s' (set_cache_cell base i c')"
proof (rule sys_okI)
  note d = sys_okD [OF ok]
  have ci: "i < length (cells_of base)" "c = cells_of (sys_cache s) ! i" using cache_cell_Inr [OF c] d(4) by simp_all
  have t: "thread_ok s base i q (AtUnlock r)" using d(6) [OF th] .
  then have op: "request_ok base q" "request_cell base q = Inr i" "cell_op q (cells_of base ! i) = Inr (r, c')"
    using un ci(2) by (simp_all add: thread_ok_def Let_def finish_unlock)
  have base': "cache_op q base = Inr (r, set_cache_cell base i c')"
    using op(2,3) ci(1) by (simp add: cache_op_def cache_cell_in)
  then show "cache_ops (map (\<lambda>(t, q, r). q) (sys_log s')) (sys_cache s0) = Inr (map (\<lambda>(t, q, r). r) (sys_log s'), set_cache_cell base i c')"
    using d(1) by (simp add: s' cache_ops_append)
  show "cache_inv (set_cache_cell base i c')" by (rule cache_op_keeps(1) [OF d(2) op(1) base'])
  show "cache_header (sys_cache s') = cache_header (set_cache_cell base i c')"
    "length (cells_of (sys_cache s')) = length (cells_of (set_cache_cell base i c'))"
    using d(3,4) by (simp_all add: s')
  show "request_ok (set_cache_cell base i c') q'" if "q' \<in> set (requests (threads s' u))" for u q'
    using d(5) [of q' u] that request_ok_length [of "set_cache_cell base i c'" base q'] by (auto simp: s' split: if_splits)
  have alone: "u = t" if "map_option fst (running (threads s u)) = Some i" for u
    using d(7) [OF that, of t] th by simp
  show "thread_ok s' (set_cache_cell base i c') j q' pc" if "running (threads s' u) = Some (j, q', pc)" for u j q' pc
  proof -
    have u: "u \<noteq> t" "running (threads s u) = Some (j, q', pc)" using that by (auto simp: s' split: if_splits)
    then have "j \<noteq> i" using alone [of u] by auto
    with thread_ok_other [OF d(6) [OF u(2)], where s' = s' and base' = "set_cache_cell base i c'" and b' = c' and c' = c']
    show ?thesis by (simp add: s')
  qed
  show "u = v" if "map_option fst (running (threads s' u)) = Some j" "map_option fst (running (threads s' v)) = Some j" for u v j
    using d(7) [of u j v] that by (auto simp: s' split: if_splits)
  show "cells_of (sys_cache s') ! j = cells_of (set_cache_cell base i c') ! j"
    if j: "j < length (cells_of (set_cache_cell base i c'))" "\<And>u. map_option fst (running (threads s' u)) \<noteq> Some j" for j
  proof (cases "j = i")
    case True
    then show ?thesis using j(1) d(4) by (simp add: s')
  next
    case False
    have "map_option fst (running (threads s u)) \<noteq> Some j" for u
      using j(2) [of u] th False by (cases "u = t") (simp_all add: s')
    then show ?thesis using d(8) [of j] j(1) False by (simp add: s')
  qed
qed

lemma sys_ok_step:
  assumes "sys_ok s0 s base" "sys_step t s s'"
  shows "\<exists>base'. sys_ok s0 s' base'"
  using assms(2,1)
proof (cases rule: sys_step.cases)
  case (lock q qs i c c')
  then show ?thesis using sys_ok_lock [OF assms(1)] by blast
next
  case (run i q pc c pc' c')
  then show ?thesis using sys_ok_run [OF assms(1)] by blast
next
  case (unlock i q r c c')
  then show ?thesis using sys_ok_unlock [OF assms(1) _ _ _ unlock(1)] by blast
qed

lemma reach_ok:
  assumes "sys_start s0" "sys_reach s0 s"
  shows "\<exists>base. sys_ok s0 s base"
  using assms(2)
proof (induction rule: sys_reach.induct)
  case start
  then show ?case using sys_ok_start [OF assms(1)] by blast
next
  case (step s t s')
  then show ?case using sys_ok_step by blast
qed

text \<open>The requests of a thread are done in its order.\<close>

definition thread_order :: "system \<Rightarrow> nat \<Rightarrow> request list" where
  "thread_order s t = map (\<lambda>(u, q, r). q) (filter (\<lambda>(u, q, r). u = t) (sys_log s)) @
     (case running (threads s t) of None \<Rightarrow> [] | Some (i, q, pc) \<Rightarrow> [q]) @ requests (threads s t)"

lemma thread_order_step: "sys_step t s s' \<Longrightarrow> thread_order s' u = thread_order s u"
  by (cases rule: sys_step.cases) (auto simp: thread_order_def)

lemma thread_order_reach: "sys_reach s0 s \<Longrightarrow> thread_order s u = thread_order s0 u"
  by (induction rule: sys_reach.induct) (simp_all add: thread_order_step)

section \<open>A system for the witnesses\<close>

text \<open>Two threads on an empty cache of one cell: one adds a chunk, the other looks it up.\<close>

definition two_threads :: "cache \<Rightarrow> system" where
  "two_threads cache = \<lparr>sys_cache = cache,
     threads = (\<lambda>t. \<lparr>running = None, requests =
       (if t = 0 then [AddReq sample_checksum sample_buffer 214] else if t = 1 then [GetReq sample_checksum chunk_init] else [])\<rparr>),
     sys_log = []\<rparr>"

lemma two_threads_start: "cache_inv cache \<Longrightarrow> sys_start (two_threads cache)"
  using sample_ok by (auto simp: sys_start_def two_threads_def)

text \<open>A thread that runs alone gets the reply of its operation, and leaves what the operation leaves.\<close>

lemma finish_reach:
  assumes "sys_reach s0 s" "running (threads s t) = Some (i, q, pc)" "cache_cell (sys_cache s) i = Inr c"
    and "finish pc c = Inr (r, c')"
  shows "\<exists>s'. sys_reach s0 s' \<and> sys_log s' = sys_log s @ [(t, q, r)] \<and> sys_cache s' = set_cache_cell (sys_cache s) i c' \<and>
    threads s' = (threads s)(t := (threads s t)\<lparr>running := None\<rparr>)"
  using assms
proof (induction "rank pc" arbitrary: pc c s rule: less_induct)
  case less
  show ?case
  proof (cases "rank pc = 0")
    case True
    then obtain r' where pc: "pc = AtUnlock r'" by (cases pc) simp_all
    with less.prems(4) have r: "r' = r" "pthread_mutex_unlock c = Inr c'" by (auto simp: finish_unlock rbind_eq_Inr)
    from sys_reach.step [OF less.prems(1) sys_step.unlock [OF _ less.prems(3) r(2)]] less.prems(2)
    show ?thesis unfolding pc r(1) by fastforce
  next
    case False
    then obtain pc1 c1 where m: "micro pc c = Inr (pc1, c1)" "finish pc1 c1 = Inr (r, c')"
      using less.prems(4) finish_micro [of pc c] by (auto simp: rbind_eq_Inr)
    let ?s = "s\<lparr>sys_cache := set_cache_cell (sys_cache s) i c1,
       threads := (threads s)(t := (threads s t)\<lparr>running := Some (i, q, pc1)\<rparr>)\<rparr>"
    have "sys_reach s0 ?s" using sys_reach.step [OF less.prems(1) sys_step.run [OF less.prems(2) _ less.prems(3) m(1)]] False by simp
    moreover have "cache_cell (sys_cache ?s) i = Inr c1"
      using cache_cell_Inr [OF less.prems(3)] by (simp add: cache_cell_in)
    moreover have "rank pc1 < rank pc" using micro_rank [OF m(1)] False by simp
    ultimately show ?thesis using less.hyps [of pc1 ?s c1] m(2) by simp
  qed
qed

lemma request_done:
  assumes "sys_reach s0 s" "threads s t = \<lparr>running = None, requests = q # qs\<rparr>" "cache_inv (sys_cache s)"
    and "request_ok (sys_cache s) q" "cache_op q (sys_cache s) = Inr (r, cache')"
  obtains s' where "sys_reach s0 s'" "sys_log s' = sys_log s @ [(t, q, r)]" "sys_cache s' = cache'"
    "threads s' = (threads s)(t := \<lparr>running = None, requests = qs\<rparr>)"
proof -
  let ?cells = "cells_of (sys_cache s)"
  from request_target [OF assms(3,4)] obtain i where i: "request_cell (sys_cache s) q = Inr i" "i < length ?cells"
    "cache_op q (sys_cache s) = rbind (cell_op q (?cells ! i)) (\<lambda>(r, c'). Inr (r, set_cache_cell (sys_cache s) i c'))" .
  from assms(5) obtain c' where c': "cell_op q (?cells ! i) = Inr (r, c')" "cache' = set_cache_cell (sys_cache s) i c'"
    unfolding i(3) rbind_eq_Inr by auto
  then obtain c1 where c1: "pthread_mutex_lock (?cells ! i) = Inr c1" "finish (first_pc q) c1 = Inr (r, c')"
    unfolding finish_first by (auto simp: rbind_eq_Inr)
  let ?held = "s\<lparr>sys_cache := set_cache_cell (sys_cache s) i c1,
       threads := (threads s)(t := \<lparr>running = Some (i, q, first_pc q), requests = qs\<rparr>)\<rparr>"
  have "sys_step t s ?held" by (rule sys_step.lock [OF assms(2) i(1) cache_cell_in [OF i(2)] c1(1)])
  from finish_reach [OF sys_reach.step [OF assms(1) this] _ _ c1(2), of t i q] i(2) c'(2) show thesis
    by (auto simp: cache_cell_in intro: that)
qed

text \<open>The system of two threads on a cache that has the chunk already, when both are done.\<close>

lemma two_threads_done:
  obtains cache s ch' where "cache_inv cache" "caches.holds_only (\<lambda>_ d. length d = 214) cache"
    "sys_reach (two_threads cache) s" "sys_cache s = cache" "threads s = (\<lambda>t. \<lparr>running = None, requests = []\<rparr>)"
    "sys_log s = [(0, AddReq sample_checksum sample_buffer 214, Added False), (1, GetReq sample_checksum chunk_init, Got True ch')]"
proof -
  let ?P = "\<lambda>_ d. length d = 214"
  let ?add = "AddReq sample_checksum sample_buffer 214" and ?get = "GetReq sample_checksum chunk_init"
  obtain cache where c: "cache_reachable ?P cache" "cache_map cache sample_checksum = Some sample_buffer"
    using sample_cache [of ?P] by (auto simp: sample_buffer_def)
  have inv: "cache_inv cache" "caches.holds_only ?P cache" using reachable_cache_holds [OF c(1)] by blast+
  from caches.store_get_known [OF inv(1) sample_ok(2) wf_chunk_init c(2)] obtain ch' where
    get: "cache_op ?get cache = Inr (Got True ch', cache)" by (auto simp: cache_op_chunks)
  have add: "cache_op ?add cache = Inr (Added False, cache)"
    using caches.store_add_known [OF inv(1) sample_ok(2)] c(2) by (simp add: cache_op_chunks)
  let ?s0 = "two_threads cache"
  have s0: "sys_cache ?s0 = cache" "threads ?s0 0 = \<lparr>running = None, requests = [?add]\<rparr>" "sys_log ?s0 = []"
    by (simp_all add: two_threads_def)
  have ok: "request_ok cache ?add" "request_ok cache ?get" using sample_ok by simp_all
  from request_done [OF sys_reach.start s0(2), unfolded s0(1), OF inv(1) ok(1) add] obtain s1 where
    s1: "sys_reach ?s0 s1" "sys_log s1 = [(0, ?add, Added False)]" "sys_cache s1 = cache"
      "threads s1 = (threads ?s0)(0 := \<lparr>running = None, requests = []\<rparr>)" using s0(3) by auto
  have "threads s1 1 = \<lparr>running = None, requests = [?get]\<rparr>" by (simp add: s1(4) two_threads_def)
  from request_done [OF s1(1) this, unfolded s1(3), OF inv(1) ok(2) get] obtain s where
    s: "sys_reach ?s0 s" "sys_log s = [(0, ?add, Added False), (1, ?get, Got True ch')]" "sys_cache s = cache"
      "threads s = (threads s1)(1 := \<lparr>running = None, requests = []\<rparr>)" using s1(2) by auto
  have "threads s = (\<lambda>t. \<lparr>running = None, requests = []\<rparr>)" by (rule ext) (simp add: s(4) s1(4) two_threads_def)
  with that inv s(1-3) show thesis by blast
qed

section \<open>Interleavings are sequences of operations\<close>

text \<open>
  C9: whatever the interleaving, the requests that are done, in the order in which they released their locks, with the replies
  they got, are a run of whole operations of \<^verbatim>\<open>cache.c\<close> one after the other; every thread's requests are
  done in its order; no two threads are ever in one cell; and a cell no thread is in is as that run leaves it.
\<close>

theorem threads_serializable:
  assumes "sys_start s0" "sys_reach s0 s"
  shows "\<exists>base. cache_ops (map (\<lambda>(t, q, r). q) (sys_log s)) (sys_cache s0) = Inr (map (\<lambda>(t, q, r). r) (sys_log s), base) \<and>
     cache_inv base \<and> cache_header (sys_cache s) = cache_header base \<and>
     (\<forall>i < length (cells_of base). (\<forall>t. map_option fst (running (threads s t)) \<noteq> Some i) \<longrightarrow>
        cells_of (sys_cache s) ! i = cells_of base ! i) \<and>
     (\<forall>t u i. map_option fst (running (threads s t)) = Some i \<and> map_option fst (running (threads s u)) = Some i \<longrightarrow> t = u) \<and>
     (\<forall>t. thread_order s t = requests (threads s0 t))"
proof -
  obtain base where ok: "sys_ok s0 s base" using reach_ok [OF assms] by blast
  have "thread_order s0 t = requests (threads s0 t)" for t
    using assms(1) by (simp add: thread_order_def sys_start_def)
  then have "\<forall>t. thread_order s t = requests (threads s0 t)" using thread_order_reach [OF assms(2)] by simp
  with ok show ?thesis unfolding sys_ok_def by blast
qed

text \<open>A state of that system in which one thread holds the lock and the other one waits.\<close>

lemma two_threads_locked:
  obtains cache s where "cache_inv cache" "cache_map cache = Map.empty" "length (cells_of cache) = 1"
    "sys_step 0 (two_threads cache) s" "sys_reach (two_threads cache) s"
proof -
  obtain cache where c: "cache_init blank_cache_header [(blank_header, \<lambda>_. 0)] 2097152 = Inr cache" "cache_inv cache"
    "cache_map cache = Map.empty" using blank_cache [of "\<lambda>_ _. True"] by metis
  have one: "length (cells_of cache) = 1" using one_cell [OF c(1)] by (metis One_nat_def length_Cons list.size(3))
  let ?q = "AddReq sample_checksum sample_buffer 214"
  have th: "threads (two_threads cache) 0 = \<lparr>running = None, requests = [?q]\<rparr>" by (simp add: two_threads_def)
  have "request_ok cache ?q" using sample_ok by simp
  from request_target [OF c(2) this] obtain i where i: "request_cell cache ?q = Inr i" "i < length (cells_of cache)"
    "cell_inv (cells_of cache ! i)" .
  have "pthread_mutex_lock (cells_of cache ! i) = Inr ((cells_of cache ! i)\<lparr>mutex := MutexLocked\<rparr>)"
    using i(3) by (simp add: cell_inv_def pthread_mutex_lock_def)
  from sys_step.lock [OF th _ _ this] i(1,2) obtain s where "sys_step 0 (two_threads cache) s"
    by (auto simp: two_threads_def cache_cell_in)
  then show thesis using that c(2,3) one sys_reach.step [OF sys_reach.start] by blast
qed

theorem threads_serializable_witness:
  "\<exists>cache s ch' base. sys_reach (two_threads cache) s \<and>
     sys_log s = [(0, AddReq sample_checksum sample_buffer 214, Added False), (1, GetReq sample_checksum chunk_init, Got True ch')] \<and>
     cache_ops (map (\<lambda>(t, q, r). q) (sys_log s)) cache = Inr (map (\<lambda>(t, q, r). r) (sys_log s), base) \<and> cache_inv base"
proof -
  obtain cache s ch' where s: "cache_inv cache" "sys_reach (two_threads cache) s"
    "sys_log s = [(0, AddReq sample_checksum sample_buffer 214, Added False), (1, GetReq sample_checksum chunk_init, Got True ch')]"
    by (rule two_threads_done)
  have "sys_cache (two_threads cache) = cache" by (simp add: two_threads_def)
  with threads_serializable [OF two_threads_start [OF s(1)] s(2)] s(2,3) show ?thesis by metis
qed

section \<open>What the replies say\<close>

definition reply_holds :: "(checksum \<Rightarrow> u8 list \<Rightarrow> bool) \<Rightarrow> request \<Rightarrow> reply \<Rightarrow> bool" where
  "reply_holds P q r \<longleftrightarrow>
     (\<forall>ck ch ch'. q = GetReq ck ch \<and> r = Got True ch' \<longrightarrow> P ck (chunk_data ch') \<and> ch_checksum ch' = ck)"

lemma cache_ops_replies:
  assumes "cache_ops qs cache = Inr (rs, cache')" "cache_inv cache" "caches.holds_only P cache"
    and "\<forall>q \<in> set qs. request_ok cache q \<and> (\<forall>ck bs n. q = AddReq ck bs n \<longrightarrow> P ck (take (unat n) bs))"
  shows "\<forall>(q, r) \<in> set (zip qs rs). reply_holds P q r"
  using assms
proof (induction qs arbitrary: cache rs)
  case (Cons q qs)
  from Cons.prems(1) obtain r c1 rs1 where o: "cache_op q cache = Inr (r, c1)" "cache_ops qs c1 = Inr (rs1, cache')" "rs = r # rs1"
    by (auto simp: rbind_eq_Inr)
  have q: "request_ok cache q" using Cons.prems(4) by simp
  note k = cache_op_keeps [OF Cons.prems(2) q o(1)]
  have here: "caches.holds_only P c1 \<and> reply_holds P q r"
  proof (cases q)
    case (AddReq ck bs n)
    with o(1) obtain b where "cache_add_chunk cache ck bs n = Inr (b, c1)" by (auto simp: cache_op_chunks rbind_eq_Inr)
    with caches.holds_only_add [OF Cons.prems(2) _ Cons.prems(3)] q Cons.prems(4) AddReq show ?thesis by (simp add: reply_holds_def)
  next
    case (HasReq ck)
    with o(1) caches.store_has [OF Cons.prems(2)] q Cons.prems(3) show ?thesis by (simp add: cache_op_chunks reply_holds_def)
  next
    case (GetReq ck ch)
    with o(1) obtain b ch' where g: "cache_get_chunk cache ck ch = Inr (b, c1, ch')" "r = Got b ch'" "wf_checksum ck" "wf_chunk ch"
      using q by (auto simp: cache_op_chunks rbind_eq_Inr)
    have "c1 = cache" by (rule get_same [OF Cons.prems(2) g(3,4,1)])
    moreover have "P ck (chunk_data ch') \<and> ch_checksum ch' = ck" if "b"
      using caches.get_holds [OF Cons.prems(2) g(3,4) Cons.prems(3)] g(1) that by auto
    ultimately show ?thesis using Cons.prems(3) g(2) GetReq by (simp add: reply_holds_def)
  next
    case (MetricsReq i m)
    with q Cons.prems(2) have i: "i < length (cells_of cache)" "cell_inv (cells_of cache ! i)" by (simp_all add: cache_inv_def)
    from metrics_same [OF i(2), of m] o(1) MetricsReq show ?thesis
      using Cons.prems(3) set_cache_cell_same [OF i(1)] i(1) by (auto simp: cache_op_def cache_cell_in reply_holds_def)
  qed
  have "\<forall>q \<in> set qs. request_ok c1 q \<and> (\<forall>ck bs n. q = AddReq ck bs n \<longrightarrow> P ck (take (unat n) bs))"
    using Cons.prems(4) request_ok_length [OF k(3)] by simp
  from Cons.IH [OF o(2) k(1) conjunct1 [OF here] this] conjunct2 [OF here] show ?case by (simp add: o(3))
qed simp

lemma log_requests:
  assumes "sys_start s0" "sys_reach s0 s" "(t, q, r) \<in> set (sys_log s)"
  shows "q \<in> set (requests (threads s0 t))"
proof -
  have "q \<in> set (thread_order s t)" using assms(3) by (force simp: thread_order_def)
  moreover have "thread_order s0 t = requests (threads s0 t)" using assms(1) by (simp add: thread_order_def sys_start_def)
  ultimately show ?thesis using thread_order_reach [OF assms(2), of t] by simp
qed

text \<open>
  C17: integrity under concurrency.  If what is in the cache and what any thread adds has the property \<open>P\<close>, then
  every chunk handed out to any thread, in any interleaving, has it, and carries the checksum that was asked for.
\<close>

theorem threads_integrity:
  assumes "sys_start s0" "sys_reach s0 s" "\<forall>ck d. cache_map (sys_cache s0) ck = Some d \<longrightarrow> P ck d"
    and "\<forall>t ck bs n. AddReq ck bs n \<in> set (requests (threads s0 t)) \<longrightarrow> P ck (take (unat n) bs)"
    and "(t, GetReq ck ch, Got True ch') \<in> set (sys_log s)"
  shows "P ck (chunk_data ch') \<and> ch_checksum ch' = ck"
proof -
  obtain base where ok: "sys_ok s0 s base" using reach_ok [OF assms(1,2)] by blast
  let ?qs = "map (\<lambda>(t, q, r). q) (sys_log s)" and ?rs = "map (\<lambda>(t, q, r). r) (sys_log s)"
  have z: "zip ?qs ?rs = map snd (sys_log s)" by (induction "sys_log s") (auto simp: zip_map_map zip_same_conv_map)
  have "\<forall>q \<in> set ?qs. request_ok (sys_cache s0) q \<and> (\<forall>ck bs n. q = AddReq ck bs n \<longrightarrow> P ck (take (unat n) bs))"
    using log_requests [OF assms(1,2)] assms(1,4) by (fastforce simp: sys_start_def)
  from cache_ops_replies [OF sys_okD(1) [OF ok] _ _ this] assms(1,3)
  have "\<forall>(q, r) \<in> set (zip ?qs ?rs). reply_holds P q r" by (simp add: caches.holds_only_def sys_start_def)
  then have "reply_holds P (GetReq ck ch) (Got True ch')" using assms(5) unfolding z by fastforce
  then show ?thesis by (simp add: reply_holds_def)
qed

theorem threads_integrity_witness:
  "\<exists>s0 s ch'. sys_reach s0 s \<and> (1, GetReq sample_checksum chunk_init, Got True ch') \<in> set (sys_log s) \<and>
     length (chunk_data ch') = 214 \<and> ch_checksum ch' = sample_checksum"
proof -
  obtain cache s ch' where s: "cache_inv cache" "caches.holds_only (\<lambda>_ d. length d = 214) cache" "sys_reach (two_threads cache) s"
    "sys_log s = [(0, AddReq sample_checksum sample_buffer 214, Added False), (1, GetReq sample_checksum chunk_init, Got True ch')]"
    by (rule two_threads_done)
  let ?s0 = "two_threads cache"
  have "\<forall>ck d. cache_map (sys_cache ?s0) ck = Some d \<longrightarrow> length d = 214"
    using s(2) by (simp add: caches.holds_only_def two_threads_def)
  moreover have "\<forall>t ck bs n. AddReq ck bs n \<in> set (requests (threads ?s0 t)) \<longrightarrow> length (take (unat n) bs) = 214"
    by (simp add: two_threads_def sample_buffer_def)
  moreover have "(1, GetReq sample_checksum chunk_init, Got True ch') \<in> set (sys_log s)" by (simp add: s(4))
  ultimately show ?thesis
    using threads_integrity [OF two_threads_start [OF s(1)] s(3), of "\<lambda>_ d. length d = 214"] s(3) by blast
qed

end
