(* ===== verification/Cache_Crash.thy ===== *)
theory Cache_Crash
  imports Cache_Threads
begin

text \<open>
  What the threads of \<^verbatim>\<open>Cache_Threads\<close> may count on: none of them waits for ever, and the machine may stop at any step.
\<close>

section \<open>Progress\<close>

lemma unlock_locked: "mutex c = MutexLocked \<Longrightarrow> pthread_mutex_unlock c = Inr (c\<lparr>mutex := MutexUnlocked\<rparr>)"
  by (simp add: pthread_mutex_unlock_def)

lemma lock_free: "mutex c = MutexUnlocked \<Longrightarrow> pthread_mutex_lock c = Inr (c\<lparr>mutex := MutexLocked\<rparr>)"
  by (simp add: pthread_mutex_lock_def)

text \<open>A thread that is in a cell can go on, unless its request is one that aborts.\<close>

lemma running_step:
  assumes ok: "sys_ok s0 s base" and th: "running (threads s t) = Some (i, q, pc)"
  shows "(\<exists>s'. sys_step t s s') \<or> (\<exists>e. cache_op q base = Inl e)"
proof -
  note d = sys_okD [OF ok]
  have t: "thread_ok s base i q pc" using d(6) [OF th] .
  then have i: "i < length (cells_of base)" "request_cell base q = Inr i" "mutex (cells_of (sys_cache s) ! i) = MutexLocked"
    "finish pc (cells_of (sys_cache s) ! i) = cell_op q (cells_of base ! i)" by (simp_all add: thread_ok_def Let_def)
  have c: "cache_cell (sys_cache s) i = Inr (cells_of (sys_cache s) ! i)" using i(1) d(4) by (simp add: cache_cell_in)
  show ?thesis
  proof (cases "rank pc = 0")
    case True
    then obtain r where "pc = AtUnlock r" by (cases pc) simp_all
    then show ?thesis using sys_step.unlock [OF _ c unlock_locked [OF i(3)]] th by blast
  next
    case False
    show ?thesis
    proof (cases "micro pc (cells_of (sys_cache s) ! i)")
      case (Inl e)
      then have "cell_op q (cells_of base ! i) = Inl e" using False i(4) finish_micro [of pc] by simp
      then have "cache_op q base = Inl e" using i(1,2) by (simp add: cache_op_def cache_cell_in)
      then show ?thesis by blast
    next
      case (Inr res)
      then obtain pc' c' where "micro pc (cells_of (sys_cache s) ! i) = Inr (pc', c')" by (cases res) auto
      with sys_step.run [OF th _ c this] False show ?thesis by blast
    qed
  qed
qed

lemma waiting_step:
  assumes ok: "sys_ok s0 s base" and "requests (threads s t) \<noteq> []" and idle: "\<And>u. running (threads s u) = None"
  shows "\<exists>s'. sys_step t s s'"
proof -
  note d = sys_okD [OF ok]
  from assms(2) obtain q qs where q: "threads s t = \<lparr>running = None, requests = q # qs\<rparr>"
    using idle [of t] by (cases "threads s t"; cases "requests (threads s t)") auto
  then have "request_ok base q" using d(5) [of q t] by simp
  from request_target [OF d(2) this] obtain i where i: "request_cell base q = Inr i" "i < length (cells_of base)"
    "cell_inv (cells_of base ! i)" .
  have eq: "cells_of (sys_cache s) ! i = cells_of base ! i" using d(8) [OF i(2)] idle by simp
  have c: "cache_cell (sys_cache s) i = Inr (cells_of base ! i)"
    using i(2) d(4) eq by (simp add: cache_cell_in)
  have "mutex (cells_of base ! i) = MutexUnlocked" using i(3) by (simp add: cell_inv_def)
  from sys_step.lock [OF q _ c lock_free [OF this]] request_cell_header [OF d(3,4) i(2), of q] i(1) show ?thesis by auto
qed

text \<open>The number of steps that are left, for the threads in \<open>T\<close>.\<close>

definition thread_work :: "thread \<Rightarrow> nat" where
  "thread_work th = 6 * length (requests th) + (case running th of None \<Rightarrow> 0 | Some (i, q, pc) \<Rightarrow> Suc (rank pc))"

lemma first_rank: "rank (first_pc q) \<le> 4"
  by (cases q) simp_all

lemma step_work:
  assumes "sys_step t s s'"
  shows "thread_work (threads s' t) < thread_work (threads s t)" "u \<noteq> t \<Longrightarrow> threads s' u = threads s u"
proof -
  show "thread_work (threads s' t) < thread_work (threads s t)"
    using assms
  proof (cases rule: sys_step.cases)
    case (lock q qs i c c')
    then show ?thesis using first_rank [of q] by (simp add: thread_work_def)
  next
    case (run i q pc c pc' c')
    then show ?thesis using micro_rank by (simp add: thread_work_def)
  next
    case (unlock i q r c c')
    then show ?thesis by (simp add: thread_work_def)
  qed
  show "u \<noteq> t \<Longrightarrow> threads s' u = threads s u" using assms by (cases rule: sys_step.cases) simp_all
qed

lemma step_has_work: "sys_step t s s' \<Longrightarrow> running (threads s t) \<noteq> None \<or> requests (threads s t) \<noteq> []"
  by (cases rule: sys_step.cases) auto

inductive sys_run :: "system \<Rightarrow> nat \<Rightarrow> system \<Rightarrow> bool" for s0 where
  stop: "sys_run s0 0 s0"
| more: "sys_run s0 n s \<Longrightarrow> sys_step t s s' \<Longrightarrow> sys_run s0 (Suc n) s'"

lemma run_work:
  assumes "finite T" "\<And>t. t \<notin> T \<Longrightarrow> running (threads s0 t) = None \<and> requests (threads s0 t) = []"
    and "sys_run s0 n s"
  shows "n + (\<Sum>t \<in> T. thread_work (threads s t)) \<le> (\<Sum>t \<in> T. thread_work (threads s0 t)) \<and>
     (\<forall>t. t \<notin> T \<longrightarrow> running (threads s t) = None \<and> requests (threads s t) = [])"
  using assms(3)
proof (induction rule: sys_run.induct)
  case stop
  then show ?case using assms(2) by simp
next
  case (more n s t s')
  have t: "t \<in> T" using step_has_work [OF more(2)] conjunct2 [OF more.IH] by metis
  have "(\<Sum>t \<in> T. thread_work (threads s' t)) < (\<Sum>t \<in> T. thread_work (threads s t))"
  proof -
    have "(\<Sum>u \<in> T - {t}. thread_work (threads s' u)) = (\<Sum>u \<in> T - {t}. thread_work (threads s u))"
      using step_work(2) [OF more(2)] by (intro sum.cong) simp_all
    then show ?thesis using step_work(1) [OF more(2)] by (simp add: sum.remove [OF assms(1) t])
  qed
  moreover have "\<forall>u. u \<notin> T \<longrightarrow> running (threads s' u) = None \<and> requests (threads s' u) = []"
    using step_work(2) [OF more(2)] t more.IH by metis
  ultimately show ?case using more.IH by simp
qed

lemma run_reach: "sys_run s0 n s \<Longrightarrow> sys_reach s0 s"
  by (induction rule: sys_run.induct) (blast intro: sys_reach.intros)+

lemma reach_run: "sys_reach s0 s \<Longrightarrow> \<exists>n. sys_run s0 n s"
  by (induction rule: sys_reach.induct) (blast intro: sys_run.intros)+

text \<open>
  How a run can end: with all requests answered, and every cell as the operations leave it, one after the other; or in an
  operation that aborts the process.
\<close>

definition answered :: "system \<Rightarrow> system \<Rightarrow> bool" where
  "answered s0 s \<longleftrightarrow>
     (\<forall>t. running (threads s t) = None \<and>
        map (\<lambda>(u, q, r). q) (filter (\<lambda>(u, q, r). u = t) (sys_log s)) = requests (threads s0 t)) \<and>
     (\<exists>base. cache_ops (map (\<lambda>(t, q, r). q) (sys_log s)) (sys_cache s0) = Inr (map (\<lambda>(t, q, r). r) (sys_log s), base) \<and>
        cache_inv base \<and> cache_header (sys_cache s) = cache_header base \<and> cells_of (sys_cache s) = cells_of base) \<and>
     (\<forall>c \<in> set (cells_of (sys_cache s)). mutex c = MutexUnlocked)"

definition aborting :: "system \<Rightarrow> system \<Rightarrow> bool" where
  "aborting s0 s \<longleftrightarrow>
     (\<exists>u i q pc base e. running (threads s u) = Some (i, q, pc) \<and>
        cache_ops (map (\<lambda>(t, q, r). q) (sys_log s)) (sys_cache s0) = Inr (map (\<lambda>(t, q, r). r) (sys_log s), base) \<and>
        cache_op q base = Inl e)"

lemma final_answered:
  assumes "sys_start s0" "sys_reach s0 s" "\<not> (\<exists>u s'. sys_step u s s')"
  shows "answered s0 s \<or> aborting s0 s"
proof -
  obtain base where ok: "sys_ok s0 s base" using reach_ok [OF assms(1,2)] by blast
  note d = sys_okD [OF ok]
  show ?thesis
  proof (cases "\<exists>u i q pc. running (threads s u) = Some (i, q, pc)")
    case True
    then show ?thesis using running_step [OF ok] d(1) assms(3) unfolding aborting_def by blast
  next
    case False
    then have idle: "running (threads s u) = None" for u by (cases "running (threads s u)") auto
    then have none: "requests (threads s u) = []" for u using waiting_step [OF ok _ idle] assms(3) by blast
    have "thread_order s t = thread_order s0 t" for t by (rule thread_order_reach [OF assms(2)])
    then have "map (\<lambda>(u, q, r). q) (filter (\<lambda>(u, q, r). u = t) (sys_log s)) = requests (threads s0 t)" for t
      using idle none assms(1) by (simp add: thread_order_def sys_start_def)
    moreover have cells: "cells_of (sys_cache s) = cells_of base"
      using d(4,8) idle by (intro nth_equalityI) simp_all
    moreover have "\<forall>c \<in> set (cells_of base). mutex c = MutexUnlocked"
      using d(2) by (auto simp: cache_inv_def cell_inv_def)
    ultimately have "answered s0 s" unfolding answered_def using idle d(1-3) by auto
    then show ?thesis ..
  qed
qed

section \<open>Stopping at any point\<close>

text \<open>Some thread is between the bump of the entry code and the copy to the exit code in cell \<open>i\<close>.\<close>

definition updating :: "system \<Rightarrow> nat \<Rightarrow> bool" where
  "updating s i \<longleftrightarrow> (\<exists>t q pc. running (threads s t) = Some (i, q, pc) \<and> (pc = AtExit \<or> (\<exists>ck b n de. pc = AtBody ck b n de)))"

text \<open>
  What a crash leaves in the buffer: the bytes of every cell, but of one that is being updated only the integrity
  code is certain.
\<close>

definition crash_image :: "system \<Rightarrow> slot list \<Rightarrow> bool" where
  "crash_image s slots \<longleftrightarrow>
     (let cs = cells_of (sys_cache s)
      in length slots = length cs \<and>
         (\<forall>i < length cs. if updating s i then hdr_cell_ic (fst (slots ! i)) = hdr_cell_ic (cell_header (cs ! i))
            else slots ! i = (cell_header (cs ! i), slab (cs ! i))))"

definition cell_fits :: "cache \<Rightarrow> nat \<Rightarrow> cell \<Rightarrow> bool" where
  "cell_fits base i c \<longleftrightarrow> cell_inv c \<and> slab_size c = of_nat CACHE_CELL_SIZE \<and>
     (\<forall>ck \<in> dom (cell_map c). cell_index base ck = i)"

lemma inv_fits: "cache_inv base \<Longrightarrow> i < length (cells_of base) \<Longrightarrow> cell_fits base i (cells_of base ! i)"
  by (simp add: cache_inv_def cell_fits_def)

lemma fits_inv:
  assumes "cache_inv base" "length cs = length (cells_of base)" "\<And>i. i < length cs \<Longrightarrow> cell_fits base i (cs ! i)"
  shows "cache_inv (base\<lparr>cache_cells := Some cs\<rparr>)"
  using assms unfolding cache_inv_def cell_fits_def
  by (auto simp: cells_of_def in_set_conv_nth cell_index_def)

lemma phase_cases:
  "phase pc c b \<Longrightarrow> c = b\<lparr>mutex := MutexLocked\<rparr> \<or> pc = AtUnlock (Added True) \<or> pc = AtExit \<or> (\<exists>ck bs n de. pc = AtBody ck bs n de)"
  by (cases "(pc, c, b)" rule: phase.cases) auto

lemma cell_unlocked: "cell_inv b \<Longrightarrow> b\<lparr>mutex := MutexUnlocked\<rparr> = b"
  by (cases b) (simp add: cell_inv_def)

lemma stopped_cell:
  assumes ok: "sys_ok s0 s base" and i: "i < length (cells_of base)" and nu: "\<not> updating s i"
  shows "cell_fits base i ((cells_of (sys_cache s) ! i)\<lparr>mutex := MutexUnlocked\<rparr>)"
proof -
  note d = sys_okD [OF ok]
  let ?c = "cells_of (sys_cache s) ! i" and ?b = "cells_of base ! i"
  have b: "cell_fits base i ?b" using inv_fits [OF d(2) i] .
  then have bu: "?b\<lparr>mutex := MutexUnlocked\<rparr> = ?b" using cell_unlocked by (simp add: cell_fits_def)
  show ?thesis
  proof (cases "\<exists>t q pc. running (threads s t) = Some (i, q, pc)")
    case False
    then have "?c = ?b" using d(8) [OF i] by fastforce
    then show ?thesis using b bu by simp
  next
    case True
    then obtain t q pc where th: "running (threads s t) = Some (i, q, pc)" by blast
    then have t: "thread_ok s base i q pc" by (rule d(6))
    then have f: "request_ok base q" "request_cell base q = Inr i" "mutex ?c = MutexLocked"
      "finish pc ?c = cell_op q ?b" "phase pc ?c ?b" by (simp_all add: thread_ok_def Let_def)
    consider "?c = ?b\<lparr>mutex := MutexLocked\<rparr>" | "pc = AtUnlock (Added True)"
      using phase_cases [OF f(5)] nu th by (auto simp: updating_def)
    then show ?thesis
    proof cases
      case 1
      then show ?thesis using b bu by simp
    next
      case 2
      let ?c' = "?c\<lparr>mutex := MutexUnlocked\<rparr>"
      have "cell_op q ?b = Inr (Added True, ?c')"
        using f(4) by (simp add: 2 finish_unlock unlock_locked [OF f(3)])
      then have "cache_op q base = Inr (Added True, set_cache_cell base i ?c')"
        using f(2) i by (simp add: cache_op_def cache_cell_in)
      from cache_op_keeps(1) [OF d(2) f(1) this] have "cell_fits (set_cache_cell base i ?c') i ?c'"
        using inv_fits [of "set_cache_cell base i ?c'" i] i by simp
      then show ?thesis by (simp add: cell_fits_def)
    qed
  qed
qed

lemma updating_insane:
  assumes ok: "sys_ok s0 s base" and "updating s i" "hdr_cell_ic h = hdr_cell_ic (cell_header (cells_of (sys_cache s) ! i))"
  shows "\<not> cell_header_sane h"
proof -
  note d = sys_okD [OF ok]
  from assms(2) obtain t q pc where th: "running (threads s t) = Some (i, q, pc)" "pc = AtExit \<or> (\<exists>ck b n de. pc = AtBody ck b n de)"
    by (auto simp: updating_def)
  then have t: "thread_ok s base i q pc" using d(6) by blast
  let ?b = "cells_of base ! i"
  have "hdr_cell_ic h = snd (cell_ic_on_entry (hdr_cell_ic (cell_header ?b)))"
    using t th(2) assms(3) by (auto simp: thread_ok_def Let_def)
  moreover have "cell_inv ?b" using inv_fits [OF d(2)] t by (simp add: cell_fits_def thread_ok_def Let_def)
  then have "cell_ic_sane (hdr_cell_ic (cell_header ?b))" by (simp add: cell_inv_def cell_header_sane_def split: if_splits)
  ultimately show ?thesis using on_entry_insane by (simp add: cell_header_sane_def)
qed

lemma crash_opens:
  assumes ok: "sys_ok s0 s base" and img: "crash_image s slots" and sz: "size_for sz (length (cells_of base))"
  obtains cache' where "cache_init (cache_header (sys_cache s)) slots sz = Inr cache'" "cache_inv cache'"
    "\<And>ck. cache_map cache' ck = (if updating s (cell_index (sys_cache s) ck) then None else cache_map (sys_cache s) ck)"
proof -
  note d = sys_okD [OF ok]
  let ?n = "length (cells_of base)"
  let ?f = "\<lambda>i. if updating s i then cells_of base ! i else (cells_of (sys_cache s) ! i)\<lparr>mutex := MutexUnlocked\<rparr>"
  define v where "v = base\<lparr>cache_cells := Some (map ?f [0..<?n])\<rparr>"
  have v: "cells_of v = map ?f [0..<?n]" "cache_header v = cache_header (sys_cache s)"
    by (simp_all add: v_def cells_of_def d(3))
  then have ix: "cell_index v ck = cell_index (sys_cache s) ck" for ck by (simp add: cell_index_def)
  have inv: "cache_inv v" unfolding v_def by (rule fits_inv [OF d(2)]) (use inv_fits [OF d(2)] stopped_cell [OF ok] in auto)
  have "image_of v {i. updating s i} slots"
    using img d(4) updating_insane [OF ok] by (auto simp: image_of_def crash_image_def Let_def v(1))
  moreover have "length (cells_of v) = ?n" by (simp add: v(1))
  ultimately obtain cache' where c': "cache_init (cache_header v) slots sz = Inr cache'" "cache_inv cache'"
    "\<And>ck. cache_map cache' ck = (if cell_index v ck \<in> {i. updating s i} then None else cache_map v ck)"
    using open_image [OF inv, of "{i. updating s i}" slots sz] sz by metis
  have "cache_map v ck = cache_map (sys_cache s) ck" if "\<not> updating s (cell_index (sys_cache s) ck)" for ck
  proof -
    have "cell_index (sys_cache s) ck < ?n" using cache_invD(3) [OF inv, of ck] by (simp add: ix v(1))
    then show ?thesis using that by (simp add: cache_map_def ix v(1) cell_map_def header_offset_def)
  qed
  with c' that show thesis by (simp add: ix v(2))
qed

section \<open>Properties\<close>

text \<open>
  C18: no deadlock.  As long as a thread has something to do some thread can make a step, unless one is at a
  request that aborts the process, and then that request aborts on its own, too, after those that are done.
\<close>

theorem threads_progress:
  assumes "sys_start s0" "sys_reach s0 s" "running (threads s t) \<noteq> None \<or> requests (threads s t) \<noteq> []"
  shows "(\<exists>u s'. sys_step u s s') \<or>
     (\<exists>u i q pc base e. running (threads s u) = Some (i, q, pc) \<and>
        cache_ops (map (\<lambda>(t, q, r). q) (sys_log s)) (sys_cache s0) = Inr (map (\<lambda>(t, q, r). r) (sys_log s), base) \<and>
        cache_op q base = Inl e)"
proof -
  obtain base where ok: "sys_ok s0 s base" using reach_ok [OF assms(1,2)] by blast
  show ?thesis
  proof (cases "\<exists>u i q pc. running (threads s u) = Some (i, q, pc)")
    case True
    then show ?thesis using running_step [OF ok] sys_okD(1) [OF ok] by blast
  next
    case False
    then have idle: "running (threads s u) = None" for u by (cases "running (threads s u)") auto
    then have "requests (threads s t) \<noteq> []" using assms(3) by simp
    from waiting_step [OF ok this idle] show ?thesis by blast
  qed
qed

theorem threads_progress_witness:
  "\<exists>cache s. sys_step 0 (two_threads cache) s \<and> ((\<exists>u s'. sys_step u s s') \<or>
     (\<exists>u i q pc base e. running (threads s u) = Some (i, q, pc) \<and>
        cache_ops (map (\<lambda>(t, q, r). q) (sys_log s)) (sys_cache (two_threads cache)) = Inr (map (\<lambda>(t, q, r). r) (sys_log s), base) \<and>
        cache_op q base = Inl e))"
proof -
  obtain cache s where s: "cache_inv cache" "sys_step 0 (two_threads cache) s" "sys_reach (two_threads cache) s"
    using two_threads_locked by metis
  have "threads s 1 = threads (two_threads cache) 1" using step_work(2) [OF s(2)] by simp
  then have "requests (threads s 1) \<noteq> []" by (simp add: two_threads_def)
  with threads_progress [OF two_threads_start [OF s(1)] s(3), of 1] s(2) show ?thesis by blast
qed

text \<open>
  C30: every request is answered.  Whatever the schedule, a run of finitely many threads is over after at most six steps for each request, and
  when no thread can make a step any more, all requests of all threads are done, in their order and with the replies that the operations of \<^verbatim>\<open>cache.c\<close> give one
  after the other, every lock is free again, and the cache is what these operations leave; unless one of them aborts the process.
\<close>

theorem threads_answered:
  assumes "sys_start s0" "finite T" "\<forall>t. t \<notin> T \<longrightarrow> requests (threads s0 t) = []" "sys_run s0 n s"
  shows "n \<le> 6 * (\<Sum>t \<in> T. length (requests (threads s0 t))) \<and>
    (\<not> (\<exists>u s'. sys_step u s s') \<longrightarrow> answered s0 s \<or> aborting s0 s)"
proof
  have idle: "running (threads s0 t) = None" for t using assms(1) by (simp add: sys_start_def)
  then have "(\<Sum>t \<in> T. thread_work (threads s0 t)) = 6 * (\<Sum>t \<in> T. length (requests (threads s0 t)))"
    by (simp add: thread_work_def sum_distrib_left)
  with run_work [OF assms(2) _ assms(4)] idle assms(3)
  show "n \<le> 6 * (\<Sum>t \<in> T. length (requests (threads s0 t)))" by simp
  show "\<not> (\<exists>u s'. sys_step u s s') \<longrightarrow> answered s0 s \<or> aborting s0 s"
    using final_answered [OF assms(1) run_reach [OF assms(4)]] by blast
qed

text \<open>Both threads of the example, run to the end.\<close>

theorem threads_answered_witness:
  "\<exists>cache n s ch'. sys_run (two_threads cache) n s \<and> n \<le> 12 \<and> answered (two_threads cache) s \<and>
     sys_log s = [(0, AddReq sample_checksum sample_buffer 214, Added False), (1, GetReq sample_checksum chunk_init, Got True ch')]"
proof -
  obtain cache s ch' where s: "cache_inv cache" "sys_reach (two_threads cache) s" "threads s = (\<lambda>t. \<lparr>running = None, requests = []\<rparr>)"
    "sys_log s = [(0, AddReq sample_checksum sample_buffer 214, Added False), (1, GetReq sample_checksum chunk_init, Got True ch')]"
    by (rule two_threads_done)
  obtain n where n: "sys_run (two_threads cache) n s" using reach_run [OF s(2)] by blast
  have out: "\<forall>t. t \<notin> {0, 1 :: nat} \<longrightarrow> requests (threads (two_threads cache) t) = []" by (simp add: two_threads_def)
  have "\<not> (\<exists>u s'. sys_step u s s')" using step_has_work [of _ s] s(3) by fastforce
  moreover have "\<not> aborting (two_threads cache) s" using s(3) by (simp add: aborting_def)
  moreover have "6 * (\<Sum>t \<in> {0, 1 :: nat}. length (requests (threads (two_threads cache) t))) = 12" by (simp add: two_threads_def)
  ultimately show ?thesis
    using threads_answered [OF two_threads_start [OF s(1)] _ out n] n s(4) by fastforce
qed

text \<open>
  C10: a crash at any point of any interleaving.  When the file is opened again the cache is in good order, has lost what was in the
  cells some thread was updating, whatever bytes are in them, and has everything else that memory held, also in cells whose lock was taken.
\<close>

theorem threads_crash:
  assumes "sys_start s0" "sys_reach s0 s" "crash_image s slots" "size_for sz (length slots)"
  shows "\<exists>cache'. cache_init (cache_header (sys_cache s)) slots sz = Inr cache' \<and> cache_inv cache' \<and>
     (\<forall>ck. cache_map cache' ck =
        (if updating s (cell_index (sys_cache s) ck) then None else cache_map (sys_cache s) ck))"
proof -
  obtain base where ok: "sys_ok s0 s base" using reach_ok [OF assms(1,2)] by blast
  have "length slots = length (cells_of base)" using assms(3) sys_okD(4) [OF ok] by (simp add: crash_image_def Let_def)
  with crash_opens [OF ok assms(3), of sz] assms(4) show ?thesis by metis
qed

text \<open>One thread has bumped the entry code of the only cell and is in the body.\<close>

lemma two_threads_updating:
  obtains cache s de where "cache_inv cache" "sys_reach (two_threads cache) s" "length (cells_of (sys_cache s)) = 1"
    "running (threads s 0) = Some (0, AddReq sample_checksum sample_buffer 214, AtBody sample_checksum sample_buffer 214 de)"
proof -
  let ?q = "AddReq sample_checksum sample_buffer 214"
  obtain cache s where s: "cache_inv cache" "cache_map cache = Map.empty" "length (cells_of cache) = 1"
    "sys_step 0 (two_threads cache) s" using two_threads_locked by metis
  have "\<exists>c. running (threads s 0) = Some (0, ?q, first_pc ?q) \<and> cells_of (sys_cache s) = [c] \<and>
      pthread_mutex_lock (cells_of cache ! 0) = Inr c"
    using s(4)
  proof (cases rule: sys_step.cases)
    case (lock q qs i c c')
    then have "i = 0" "q = ?q" "c = cells_of cache ! 0"
      using cache_cell_Inr [of cache i c] s(3) by (simp_all add: two_threads_def)
    with lock s(3) show ?thesis by (auto simp: two_threads_def length_Suc_conv)
  qed (simp_all add: two_threads_def)
  then obtain c where c: "running (threads s 0) = Some (0, ?q, first_pc ?q)" "cells_of (sys_cache s) = [c]"
    "pthread_mutex_lock (cells_of cache ! 0) = Inr c" by blast
  let ?b = "cells_of cache ! 0"
  have "cell_index cache sample_checksum = 0" using cache_invD(3) [OF s(1), of sample_checksum] s(3) by simp
  then have b: "cell_inv ?b" "cell_map ?b sample_checksum = None"
    using cache_invD(4) [OF s(1), of sample_checksum] fun_cong [OF s(2), of sample_checksum] by (simp_all add: cache_map_def)
  have "finish (AtHas sample_checksum) c = Inr (Known False, ?b)"
    using cells.store_has [OF b(1) sample_ok(2)] b(2) c(3) finish_first [of "HasReq sample_checksum" ?b] by simp
  then obtain de where de: "cell_search c sample_checksum = Inr (False, de)"
    by (auto simp: finish_micro finish_unlock rbind_eq_Inr)
  have at: "cache_cell (sys_cache s) 0 = Inr c" using c(2) by (simp add: cache_cell_in)
  have "micro (AtSearch sample_checksum sample_buffer 214) c = Inr (AtEntry sample_checksum sample_buffer 214 de, c)"
    using de by simp
  from sys_step.run [OF c(1) _ at this [folded first_pc.simps(1)]] obtain s1 where
    s1: "sys_step 0 s s1" "running (threads s1 0) = Some (0, ?q, AtEntry sample_checksum sample_buffer 214 de)"
      "cells_of (sys_cache s1) = [c]" using c(2) by fastforce
  have "cache_cell (sys_cache s1) 0 = Inr c" using s1(3) by (simp add: cache_cell_in)
  from sys_step.run [OF s1(2) _ this micro.simps(2)] obtain s2 where
    s2: "sys_step 0 s1 s2" "running (threads s2 0) = Some (0, ?q, AtBody sample_checksum sample_buffer 214 de)"
      "length (cells_of (sys_cache s2)) = 1" using s1(3) by fastforce
  have "sys_reach (two_threads cache) s2"
    using sys_reach.step sys_reach.start s(4) s1(1) s2(1) by blast
  with that s(1) s2(2,3) show thesis by blast
qed

text \<open>The machine stops there, with every byte of the body overwritten and wrong counters in the header.\<close>

theorem threads_crash_witness:
  "\<exists>cache s h cache'. sys_reach (two_threads cache) s \<and> updating s 0 \<and> hdr_entry_count h = 77 \<and>
     crash_image s [(h, \<lambda>_. 0xff)] \<and>
     cache_init (cache_header (sys_cache s)) [(h, \<lambda>_. 0xff)] 2097152 = Inr cache' \<and>
     cache_inv cache' \<and> cache_map cache' = Map.empty"
proof -
  obtain cache s de where s: "cache_inv cache" "sys_reach (two_threads cache) s" "length (cells_of (sys_cache s)) = 1"
    "running (threads s 0) = Some (0, AddReq sample_checksum sample_buffer 214, AtBody sample_checksum sample_buffer 214 de)"
    by (rule two_threads_updating)
  have u: "updating s 0" using s(4) unfolding updating_def by blast
  let ?h = "(cell_header (cells_of (sys_cache s) ! 0))\<lparr>hdr_entry_count := 77\<rparr>"
  have img: "crash_image s [(?h, \<lambda>_. 0xff)]" using s(3) u by (simp add: crash_image_def Let_def)
  have "size_for 2097152 (length [(?h, \<lambda>_ :: nat. 0xff :: u8)])" using two_megabytes by simp
  from threads_crash [OF two_threads_start [OF s(1)] s(2) img this] obtain cache' where
    c: "cache_init (cache_header (sys_cache s)) [(?h, \<lambda>_. 0xff)] 2097152 = Inr cache'" "cache_inv cache'"
      "\<forall>ck. cache_map cache' ck = (if updating s (cell_index (sys_cache s) ck) then None else cache_map (sys_cache s) ck)"
    by blast
  obtain base where "sys_ok (two_threads cache) s base" using reach_ok [OF two_threads_start [OF s(1)] s(2)] by blast
  from sys_okD(2-4) [OF this] s(3) have "cell_index (sys_cache s) ck = 0" for ck
    using cache_invD(3) [of base ck] by (simp add: cell_index_def)
  then have "cache_map cache' = Map.empty" using c(3) u by auto
  with c(1,2) s(2) u img show ?thesis
    by (intro exI [of _ cache] exI [of _ s] exI [of _ ?h] exI [of _ cache'] conjI) simp_all
qed

end
