(* ===== verification/Xmalloc.thy ===== *)
theory Xmalloc
  imports Cache_Manager
begin

text \<open>
  \<^verbatim>\<open>xmalloc.c\<close>, and the three functions that use the heap: \<^verbatim>\<open>cache_init\<close>, \<^verbatim>\<open>cache_release\<close> and
  \<^verbatim>\<open>cache_manager_create_file\<close>.  \<^verbatim>\<open>Cache\<close> and \<^verbatim>\<open>Cache_Manager\<close> leave the heap out; here the same functions are written with it,
  and it is shown that they are the same functions, that they give back what they took on every path,
  and that they fail in no new way but when memory runs out.
\<close>

section \<open>The heap\<close>

text \<open>
  The blocks that are allocated, by address, with their sizes.  \<^verbatim>\<open>malloc\<close> of the C library is a parameter: it chooses an address
  or answers with the null pointer.
\<close>

type_synonym heap = "u64 \<rightharpoonup> u64"
type_synonym allocator = "u64 \<Rightarrow> heap \<Rightarrow> u64"

text \<open>What the C standard promises of \<^verbatim>\<open>malloc\<close>: a block that is not in use.\<close>

definition malloc_fresh :: "allocator \<Rightarrow> bool" where
  "malloc_fresh malloc \<longleftrightarrow> (\<forall>n h. malloc n h \<noteq> 0 \<longrightarrow> malloc n h \<notin> dom h)"

definition xmalloc :: "allocator \<Rightarrow> u64 \<Rightarrow> heap \<Rightarrow> (u64 \<times> heap) result" where
  "xmalloc malloc n h = (let ptr = malloc n h in ALWAYS (ptr \<noteq> 0) (Inr (ptr, h(ptr \<mapsto> n))))"

text \<open>\<^verbatim>\<open>free\<close> of an address that is not allocated, which is undefined, is out of bounds.\<close>

definition xfree :: "u64 \<Rightarrow> heap \<Rightarrow> heap result" where
  "xfree ptr h = ALWAYS (ptr \<noteq> 0) (if ptr \<in> dom h then Inr (h(ptr := None)) else Inl OutOfBounds)"

lemma xmalloc_cases:
  assumes "malloc_fresh malloc"
  obtains "malloc n h = 0" "xmalloc malloc n h = Inl AssertFailed"
  | p where "p = malloc n h" "p \<noteq> 0" "xmalloc malloc n h = Inr (p, h(p \<mapsto> n))" "xfree p (h(p \<mapsto> n)) = Inr h"
proof (cases "malloc n h = 0")
  case True
  then show ?thesis using that(1) by (simp add: xmalloc_def)
next
  case False
  then have "malloc n h \<notin> dom h" using assms by (simp add: malloc_fresh_def)
  then have "xfree (malloc n h) (h(malloc n h \<mapsto> n)) = Inr h"
    using False by (auto simp: xfree_def fun_upd_idem_iff domIff)
  then show ?thesis using that(2) False by (simp add: xmalloc_def Let_def)
qed

text \<open>An allocator with one block, for the witnesses.\<close>

definition one_block :: allocator where
  "one_block n h = (if h 4096 = None then 4096 else 0)"

lemma one_block_fresh: "malloc_fresh one_block"
  by (simp add: malloc_fresh_def one_block_def domIff)

section \<open>The array of cells\<close>

text \<open>\<^verbatim>\<open>sizeof(struct cell)\<close> on x86-64: a mutex of 40 bytes, two pointers, an integer and padding.\<close>

definition sizeof_cell :: nat where
  "sizeof_cell = 64"

text \<open>A cache with the address of its array of cells, 0 being the null pointer.\<close>

definition cache_init_heap ::
    "allocator \<Rightarrow> cache_header \<Rightarrow> slot list \<Rightarrow> u64 \<Rightarrow> heap \<Rightarrow> ((cache \<times> u64) \<times> heap) result" where
  "cache_init_heap malloc header slots buffer_size h =
     (let n = buffer_size div of_nat CACHE_CELL_SIZE in
      ALWAYS (n \<ge> 2)
        (let num = n - 1 in
         rbind (xmalloc malloc (num * of_nat sizeof_cell) h) (\<lambda>(ptr, h1).
         rbind (cache_init_cells (unat num) slots) (\<lambda>cs.
         Inr ((\<lparr>cache_cells = Some cs, cache_header = cache_header_init header num,
                cache_buffer = 0, cache_buffer_size = 0\<rparr>, ptr), h1)))))"

definition cache_release_heap :: "cache \<times> u64 \<Rightarrow> heap \<Rightarrow> ((cache \<times> u64) \<times> heap) result" where
  "cache_release_heap c h =
     (let (cache, ptr) = c in
      case cache_cells cache of
        None \<Rightarrow> Inr ((cache, ptr), h)
      | Some cs \<Rightarrow>
          rbind (cache_release_cells (unat (cell_count (cache_header cache))) cs) (\<lambda>_.
          rbind (xfree ptr h) (\<lambda>h1.
          Inr ((cache\<lparr>cache_cells := None\<rparr>, 0), h1))))"

lemma init_cells_length: "cache_init_cells n slots = Inr cs \<Longrightarrow> length cs = n"
  by (induction n slots arbitrary: cs rule: cache_init_cells.induct) (auto simp: rbind_eq_Inr)

text \<open>
  C32: the array of cells.  \<^verbatim>\<open>cache_init\<close> takes one block that is as large as its cells; when the cache is released, whatever was done
  to it in between, exactly that block is given back, and releasing it again frees nothing twice.
\<close>

theorem cache_heap_roundtrip:
  assumes "malloc_fresh malloc" "cache_init_heap malloc header slots sz h = Inr ((cache, ptr), h1)"
    and "cache_cells cache' \<noteq> None" "cache_release cache' = Inr cache''"
  shows "cache_init header slots sz = Inr cache \<and> ptr \<noteq> 0 \<and> ptr \<notin> dom h \<and>
     h1 = h(ptr \<mapsto> of_nat (length (cells_of cache) * sizeof_cell)) \<and>
     length (cells_of cache) * sizeof_cell < 2 ^ 64 \<and>
     cache_release_heap (cache', ptr) h1 = Inr ((cache'', 0), h) \<and>
     cache_release_heap (cache'', 0) h = Inr ((cache'', 0), h)"
proof -
  let ?num = "sz div of_nat CACHE_CELL_SIZE - 1"
  have n: "2 \<le> sz div of_nat CACHE_CELL_SIZE" using assms(2) by (simp add: cache_init_heap_def Let_def ALWAYS_eq_Inr)
  from xmalloc_cases [OF assms(1), of "?num * of_nat sizeof_cell" h] obtain p where
    p: "p \<noteq> 0" "xmalloc malloc (?num * of_nat sizeof_cell) h = Inr (p, h(p \<mapsto> ?num * of_nat sizeof_cell))"
      "xfree p (h(p \<mapsto> ?num * of_nat sizeof_cell)) = Inr h" "p \<notin> dom h"
  proof cases
    case 1
    then show ?thesis using assms(2) n by (simp add: cache_init_heap_def Let_def)
  next
    case (2 p)
    then have "p \<notin> dom h" using assms(1) by (simp add: malloc_fresh_def)
    with 2 that show ?thesis by blast
  qed
  with assms(2) n obtain cs where c: "cache_init_cells (unat ?num) slots = Inr cs" "ptr = p"
    "h1 = h(p \<mapsto> ?num * of_nat sizeof_cell)" "cells_of cache = cs" "cache_init header slots sz = Inr cache"
    by (auto simp: cache_init_heap_def cache_init_def Let_def rbind_eq_Inr cells_of_def)
  have "unat (sz div of_nat CACHE_CELL_SIZE) < 2 ^ 44"
    using unat_lt [of sz] by (simp add: unat_div CACHE_CELL_SIZE_def less_mult_imp_div_less)
  moreover have "unat ?num \<le> unat (sz div of_nat CACHE_CELL_SIZE)"
    using n by (simp add: unat_sub_small word_le_nat_alt)
  ultimately have small: "unat ?num < 2 ^ 44" by simp
  have "?num * of_nat sizeof_cell = of_nat (length cs * sizeof_cell)"
    using init_cells_length [OF c(1)] by simp
  moreover have "length cs * sizeof_cell < 2 ^ 64"
    using init_cells_length [OF c(1)] small by (simp add: sizeof_cell_def)
  moreover have "cache_release_heap (cache', ptr) h1 = Inr ((cache'', 0), h)"
    using assms(3,4) p(3) by (auto simp: cache_release_heap_def cache_release_def rbind_eq_Inr c)
  moreover have "cache_cells cache'' = None"
    using assms(3,4) by (auto simp: cache_release_def rbind_eq_Inr)
  ultimately show ?thesis using c p by (simp add: cache_release_heap_def)
qed

theorem cache_heap_roundtrip_witness:
  "\<exists>cache cache' h1. cache_init_heap one_block blank_cache_header [(blank_header, \<lambda>_. 0)] 2097152 Map.empty = Inr ((cache, 4096), h1) \<and>
     h1 = [4096 \<mapsto> 64] \<and> cache_release_heap (cache, 4096) h1 = Inr ((cache', 0), Map.empty)"
proof -
  obtain cache where c: "cache_init blank_cache_header [(blank_header, \<lambda>_. 0)] 2097152 = Inr cache" "cache_inv cache"
    using blank_cache [of "\<lambda>_ _. True"] by metis
  obtain c1 where c1: "cells_of cache = [c1]" using one_cell [OF c(1)] by metis
  then have cells: "cache_cells cache = Some [c1]" "cell_count (cache_header cache) = 1" "mutex c1 = MutexUnlocked"
    using c(2) by (auto simp: cache_inv_def cells_of_def cell_inv_def word_unat_eq_iff split: option.splits)
  have "\<exists>cache'. cache_release cache = Inr cache'"
    using cells by (simp add: cache_release_def cell_release_def pthread_mutex_destroy_def)
  then obtain cache' where r: "cache_release cache = Inr cache'" by blast
  have i: "cache_init_heap one_block blank_cache_header [(blank_header, \<lambda>_. 0)] 2097152 Map.empty =
      Inr ((cache, 4096), [4096 \<mapsto> 64])"
    using c(1) by (auto simp: cache_init_heap_def cache_init_def Let_def rbind_eq_Inr ALWAYS_eq_Inr xmalloc_def one_block_def
        CACHE_CELL_SIZE_def sizeof_cell_def)
  from cache_heap_roundtrip [OF one_block_fresh i _ r] cells(1) i show ?thesis by auto
qed

section \<open>The buffer of zeros\<close>

definition create_file_heap ::
    "'w os \<Rightarrow> allocator \<Rightarrow> string \<Rightarrow> u64 \<Rightarrow> 'w \<Rightarrow> heap \<Rightarrow> (int \<times> 'w \<times> heap) result option" where
  "create_file_heap os malloc filename sz w h =
     (case msys_open os filename (O_RDWR OR O_CREAT) w of
        (fd, w1) \<Rightarrow>
          if fd < 0 then Some (Inr (-1, w1, h))
          else (case xmalloc malloc (of_nat CACHE_MANAGER_MB) h of
             Inl e \<Rightarrow> Some (Inl e)
           | Inr (buffer, h1) \<Rightarrow>
               (case write_megabytes (unat (sz div of_nat CACHE_MANAGER_MB)) os fd w1 of
                  None \<Rightarrow> None
                | Some (ret, w2) \<Rightarrow>
                    let (synced, w3) = (if ret = 0 then (case msys_fsync os fd w2 of (r, w') \<Rightarrow> (r = 0, w'))
                                        else (True, w2)) in
                    Some (ALWAYS synced
                      (case msys_close os fd w3 of
                         (r, w4) \<Rightarrow> ALWAYS (r = 0) (rbind (xfree buffer h1) (\<lambda>h2. Inr (ret, w4, h2))))))))"

text \<open>
  C33: the buffer of \<^verbatim>\<open>cache_manager_create_file\<close>.  With the heap the function does what it does without, on every path, errors included,
  and leaves the heap as it was; the only new outcome is the abort when there is no memory for the buffer.
\<close>

theorem create_file_no_leak:
  assumes "malloc_fresh malloc"
  shows "create_file_heap os malloc filename sz w h =
     (if fst (msys_open os filename (O_RDWR OR O_CREAT) w) \<ge> 0 \<and> malloc (of_nat CACHE_MANAGER_MB) h = 0
      then Some (Inl AssertFailed)
      else map_option (\<lambda>res. rbind res (\<lambda>(ret, w'). Inr (ret, w', h))) (cache_manager_create_file os filename sz w))"
proof -
  obtain fd w1 where o: "msys_open os filename (O_RDWR OR O_CREAT) w = (fd, w1)" by (metis surj_pair)
  show ?thesis
  proof (cases "fd < 0")
    case True
    then show ?thesis by (simp add: create_file_heap_def cache_manager_create_file_def o)
  next
    case False
    show ?thesis
      using assms
    proof (cases rule: xmalloc_cases [of malloc "of_nat CACHE_MANAGER_MB" h])
      case 1
      then show ?thesis using False by (simp add: create_file_heap_def o)
    next
      case (2 p)
      then show ?thesis
        using False
        by (simp add: create_file_heap_def cache_manager_create_file_def o Let_def rbind_ALWAYS
            split: option.split prod.split)
    qed
  qed
qed

theorem create_file_no_leak_witness:
  "\<forall>os :: nat os. create_file_heap os one_block ''cache'' 1048576 0 Map.empty =
     map_option (\<lambda>res. rbind res (\<lambda>(ret, w'). Inr (ret, w', Map.empty))) (cache_manager_create_file os ''cache'' 1048576 0)"
  by (intro allI, subst create_file_no_leak [OF one_block_fresh]) (simp add: one_block_def)

end
