(* ===== verification/Sha256.thy ===== *)
theory Sha256
  imports Theo_Prelude
begin

text \<open>
  \<^verbatim>\<open>sha256_for_mh_sha256.c\<close> of the vendored ISA-L library: SHA-256 over a buffer, with the macros of
  \<^verbatim>\<open>mh_sha256_internal.h\<close> and \<^verbatim>\<open>endian_helper.h\<close>.  The code keeps the eight working variables in place
  and rotates their roles from step to step, and keeps the last sixteen words of the message schedule in
  a circular buffer.  It is shown to compute the function of the standard: padding, a schedule of 64
  words, and a round that shifts the variables.

  The machine is little-endian, so a load of four bytes puts the first one lowest and \<^verbatim>\<open>to_be32\<close> reverses them.
\<close>

definition SHA256_BLOCK_SIZE :: nat where "SHA256_BLOCK_SIZE = 64"
definition SHA256_DIGEST_WORDS :: nat where "SHA256_DIGEST_WORDS = 8"

section \<open>Words in memory\<close>

text \<open>\<^verbatim>\<open>((uint32_t *) data)[i]\<close>, and the bytes of a word that is stored.\<close>

definition load_u32 :: "u8 list \<Rightarrow> nat \<Rightarrow> u32" where
  "load_u32 data i = ucast (data ! (4 * i)) OR push_bit 8 (ucast (data ! (4 * i + 1))) OR
     push_bit 16 (ucast (data ! (4 * i + 2))) OR push_bit 24 (ucast (data ! (4 * i + 3)))"

definition store_u32 :: "u32 \<Rightarrow> u8 list" where
  "store_u32 x = [ucast x, ucast (drop_bit 8 x), ucast (drop_bit 16 x), ucast (drop_bit 24 x)]"

definition store_u64 :: "u64 \<Rightarrow> u8 list" where
  "store_u64 x = [ucast x, ucast (drop_bit 8 x), ucast (drop_bit 16 x), ucast (drop_bit 24 x),
     ucast (drop_bit 32 x), ucast (drop_bit 40 x), ucast (drop_bit 48 x), ucast (drop_bit 56 x)]"

definition to_be32 :: "u32 \<Rightarrow> u32" where
  "to_be32 x = push_bit 24 x OR push_bit 8 (x AND 0xff00) OR drop_bit 8 (x AND 0xff0000) OR drop_bit 24 x"

definition to_be64 :: "u64 \<Rightarrow> u64" where
  "to_be64 x = push_bit 56 (x AND 0xff) OR push_bit 40 (x AND push_bit 8 0xff) OR
     push_bit 24 (x AND push_bit 16 0xff) OR push_bit 8 (x AND push_bit 24 0xff) OR
     drop_bit 8 (x AND push_bit 32 0xff) OR drop_bit 24 (x AND push_bit 40 0xff) OR
     drop_bit 40 (x AND push_bit 48 0xff) OR drop_bit 56 (x AND push_bit 56 0xff)"

section \<open>The functions of a step\<close>

definition ror32 :: "u32 \<Rightarrow> nat \<Rightarrow> u32" where
  "ror32 x r = drop_bit r x XOR push_bit (32 - r) x"

definition sha_S0 :: "u32 \<Rightarrow> u32" where
  "sha_S0 w = ror32 w 7 XOR ror32 w 18 XOR drop_bit 3 w"

definition sha_S1 :: "u32 \<Rightarrow> u32" where
  "sha_S1 w = ror32 w 17 XOR ror32 w 19 XOR drop_bit 10 w"

definition sha_s0 :: "u32 \<Rightarrow> u32" where
  "sha_s0 a = ror32 a 2 XOR ror32 a 13 XOR ror32 a 22"

definition sha_s1 :: "u32 \<Rightarrow> u32" where
  "sha_s1 e = ror32 e 6 XOR ror32 e 11 XOR ror32 e 25"

definition sha_maj :: "u32 \<Rightarrow> u32 \<Rightarrow> u32 \<Rightarrow> u32" where
  "sha_maj a b c = (a AND b) XOR (a AND c) XOR (b AND c)"

definition sha_ch :: "u32 \<Rightarrow> u32 \<Rightarrow> u32 \<Rightarrow> u32" where
  "sha_ch e f g = (e AND f) XOR (g AND NOT e)"

text \<open>\<^verbatim>\<open>MH_SHA256_H0\<close> to \<^verbatim>\<open>MH_SHA256_H7\<close>, and the constants of the 64 steps, in the rows of the table.\<close>

definition MH_SHA256_H :: "u32 list" where
  "MH_SHA256_H = [0x6a09e667, 0xbb67ae85, 0x3c6ef372, 0xa54ff53a, 0x510e527f, 0x9b05688c, 0x1f83d9ab, 0x5be0cd19]"

definition sha256_k :: "u32 list" where
  "sha256_k = concat [
    [0x428a2f98, 0x71374491, 0xb5c0fbcf, 0xe9b5dba5],
    [0x3956c25b, 0x59f111f1, 0x923f82a4, 0xab1c5ed5],
    [0xd807aa98, 0x12835b01, 0x243185be, 0x550c7dc3],
    [0x72be5d74, 0x80deb1fe, 0x9bdc06a7, 0xc19bf174],
    [0xe49b69c1, 0xefbe4786, 0x0fc19dc6, 0x240ca1cc],
    [0x2de92c6f, 0x4a7484aa, 0x5cb0a9dc, 0x76f988da],
    [0x983e5152, 0xa831c66d, 0xb00327c8, 0xbf597fc7],
    [0xc6e00bf3, 0xd5a79147, 0x06ca6351, 0x14292967],
    [0x27b70a85, 0x2e1b2138, 0x4d2c6dfc, 0x53380d13],
    [0x650a7354, 0x766a0abb, 0x81c2c92e, 0x92722c85],
    [0xa2bfe8a1, 0xa81a664b, 0xc24b8b70, 0xc76c51a3],
    [0xd192e819, 0xd6990624, 0xf40e3585, 0x106aa070],
    [0x19a4c116, 0x1e376c08, 0x2748774c, 0x34b0bcb5],
    [0x391c0cb3, 0x4ed8aa4a, 0x5b9cca4f, 0x682e6ff3],
    [0x748f82ee, 0x78a5636f, 0x84c87814, 0x8cc70208],
    [0x90befffa, 0xa4506ceb, 0xbef9a3f7, 0xc67178f2]]"

section \<open>The code\<close>

text \<open>
  Step \<open>i\<close> is written with the variables \<^verbatim>\<open>a, \<dots>, h\<close> rotated by \<open>i\<close> places: \<open>sha_reg i j\<close> is the variable that
  stands in place \<open>j\<close>.
\<close>

definition sha_reg :: "nat \<Rightarrow> nat \<Rightarrow> nat" where
  "sha_reg i j = (j + (8 - i mod 8)) mod 8"

text \<open>The macro \<^verbatim>\<open>step\<close>, on the variables \<open>r\<close> and the circular buffer \<open>w\<close>; \<open>ww\<close> reads the block.\<close>

definition sha_step :: "(nat \<Rightarrow> u32) \<Rightarrow> nat \<Rightarrow> u32 list \<times> u32 list \<Rightarrow> u32 list \<times> u32 list" where
  "sha_step ww i = (\<lambda>(r, w).
     let w' = w[i mod 16 :=
           (if i < 16 then to_be32 (ww i)
            else w ! ((i - 16) mod 16) + sha_S0 (w ! ((i - 15) mod 16)) + w ! ((i - 7) mod 16) +
                 sha_S1 (w ! ((i - 2) mod 16)))];
         v = (\<lambda>j. r ! sha_reg i j);
         t2 = sha_s0 (v 0) + sha_maj (v 0) (v 1) (v 2);
         t1 = v 7 + sha_s1 (v 4) + sha_ch (v 4) (v 5) (v 6) + sha256_k ! i + w' ! (i mod 16);
         r1 = r[sha_reg i 3 := v 3 + t1]
     in (r1[sha_reg i 7 := t1 + t2], w'))"

text \<open>
  \<open>w\<close> is a local array without initial value; it is zero here, and \<open>sha_steps_ref\<close> below shows that what
  it holds at the start has no influence.
\<close>

definition sha256_single_for_mh_sha256 :: "u8 list \<Rightarrow> u32 list \<Rightarrow> u32 list" where
  "sha256_single_for_mh_sha256 data digest =
     (let (r, w) = fold (sha_step (load_u32 data)) [0..<64] (digest, replicate 16 0)
      in map2 (+) digest r)"

function sha256_whole_blocks :: "u8 list \<Rightarrow> u32 list \<Rightarrow> nat \<Rightarrow> u8 list \<times> u32 list \<times> nat" where
  "sha256_whole_blocks input digest i =
     (if SHA256_BLOCK_SIZE \<le> i
      then sha256_whole_blocks (drop SHA256_BLOCK_SIZE input) (sha256_single_for_mh_sha256 input digest)
             (i - SHA256_BLOCK_SIZE)
      else (input, digest, i))"
  by pat_completeness auto
termination
  by (relation "measure (\<lambda>(input, digest, i). i)") (auto simp: SHA256_BLOCK_SIZE_def)

text \<open>
  The rest of the input is padded in a local buffer of two blocks, whose last eight bytes are written only
  if the second block is needed; they are \<open>junk\<close> before.
\<close>

definition sha256_last_blocks :: "u8 list \<Rightarrow> u8 list \<Rightarrow> u32 list \<Rightarrow> nat \<Rightarrow> u32 \<Rightarrow> u32 list" where
  "sha256_last_blocks junk input digest rest len =
     (let i = rest + 1;
          buf = take rest input @ [0x80] @ replicate (2 * SHA256_BLOCK_SIZE - 8 - i) 0 @ junk;
          last = (if i > SHA256_BLOCK_SIZE - 8 then 2 * SHA256_BLOCK_SIZE else SHA256_BLOCK_SIZE);
          buf = take (last - 8) buf @ store_u64 (to_be64 (ucast len * 8)) @ drop last buf;
          digest = sha256_single_for_mh_sha256 buf digest
      in if last = 2 * SHA256_BLOCK_SIZE
         then sha256_single_for_mh_sha256 (drop SHA256_BLOCK_SIZE buf) digest else digest)"

definition sha256_for_mh_sha256 :: "u8 list \<Rightarrow> u8 list \<Rightarrow> u32 \<Rightarrow> u32 list result" where
  "sha256_for_mh_sha256 junk input len =
     (if unat len \<le> length input
      then let (rest_input, digest, i) = sha256_whole_blocks input MH_SHA256_H (unat len)
           in Inr (sha256_last_blocks junk rest_input digest i len)
      else Inl OutOfBounds)"

declare sha256_whole_blocks.simps [simp del]

section \<open>The standard\<close>

text \<open>Big-endian words, the padding, and a message as a list of blocks.\<close>

definition be_word :: "u8 list \<Rightarrow> nat \<Rightarrow> u32" where
  "be_word data i = push_bit 24 (ucast (data ! (4 * i))) OR push_bit 16 (ucast (data ! (4 * i + 1))) OR
     push_bit 8 (ucast (data ! (4 * i + 2))) OR ucast (data ! (4 * i + 3))"

definition be_bytes64 :: "u64 \<Rightarrow> u8 list" where
  "be_bytes64 x = map (\<lambda>k. ucast (drop_bit (8 * k) x)) [7, 6, 5, 4, 3, 2, 1, 0]"

definition sha_pad :: "nat \<Rightarrow> u8 list \<Rightarrow> u8 list" where
  "sha_pad bsize m = m @ [0x80] @ replicate ((2 * bsize - 9 - length m mod bsize) mod bsize) 0 @
     be_bytes64 (8 * of_nat (length m))"

fun blocks_of :: "nat \<Rightarrow> nat \<Rightarrow> u8 list \<Rightarrow> u8 list list" where
  "blocks_of bsize 0 m = []"
| "blocks_of bsize (Suc n) m = take bsize m # blocks_of bsize n (drop bsize m)"

text \<open>The message schedule, the round, and the compression of a block.\<close>

fun sha_schedule :: "u32 list \<Rightarrow> nat \<Rightarrow> u32 list" where
  "sha_schedule m 0 = m"
| "sha_schedule m (Suc n) =
     (let ws = sha_schedule m n; t = 16 + n
      in ws @ [ws ! (t - 16) + sha_S0 (ws ! (t - 15)) + ws ! (t - 7) + sha_S1 (ws ! (t - 2))])"

fun sha_round :: "u32 \<Rightarrow> u32 \<Rightarrow> u32 list \<Rightarrow> u32 list" where
  "sha_round k w [a, b, c, d, e, f, g, h] =
     (let t1 = h + sha_s1 e + sha_ch e f g + k + w;
          t2 = sha_s0 a + sha_maj a b c
      in [t1 + t2, a, b, c, d + t1, e, f, g])"
| "sha_round k w st = st"

definition sha_compress :: "u32 list \<Rightarrow> u32 list \<Rightarrow> u32 list" where
  "sha_compress h m =
     (let ws = sha_schedule m 48 in map2 (+) h (fold (\<lambda>t. sha_round (sha256_k ! t) (ws ! t)) [0..<64] h))"

definition block_words :: "u8 list \<Rightarrow> u32 list" where
  "block_words blk = map (be_word blk) [0..<16]"

definition sha256 :: "u8 list \<Rightarrow> u32 list" where
  "sha256 m = (let p = sha_pad 64 m
     in fold (\<lambda>blk h. sha_compress h (block_words blk)) (blocks_of 64 (length p div 64) p) MH_SHA256_H)"

section \<open>Loading and storing big-endian words\<close>

lemma byte_masks: "(0xff00 :: u32) = push_bit 8 (mask 8)" "(0xff0000 :: u32) = push_bit 16 (mask 8)"
  "(0xff :: u64) = mask 8"
  by (simp_all add: mask_eq_exp_minus_1 push_bit_eq_mult)

lemma no_bit_byte: "8 \<le> n \<Longrightarrow> \<not> bit (b :: u8) n" using bit_imp_le_length[of b n] by auto

lemma to_be32_load: "to_be32 (load_u32 data i) = be_word data i"
proof (rule bit_word_eqI)
  fix n assume "n < LENGTH(32)"
  then have "n < 8 \<or> 8 \<le> n \<and> n < 16 \<or> 16 \<le> n \<and> n < 24 \<or> 24 \<le> n \<and> n < 32" by auto
  then show "bit (to_be32 (load_u32 data i)) n = bit (be_word data i) n"
    by (elim disjE conjE) (auto simp: to_be32_def load_u32_def be_word_def byte_masks bit_simps no_bit_byte)
qed
section \<open>Rotated variables\<close>

lemma mod_8: "n < 16 \<Longrightarrow> n mod (8 :: nat) = (if n < 8 then n else n - 8)"
  by (simp add: le_mod_geq)

lemma sha_reg_if: "j < 8 \<Longrightarrow> sha_reg i j = (if i mod 8 = 0 then j else if j < i mod 8 then j + 8 - i mod 8 else j - i mod 8)"
  using mod_8 [of "j + (8 - i mod 8)"] mod_less_divisor [of 8 i] unfolding sha_reg_def by auto

lemma sha_reg_less [simp]: "sha_reg i j < 8"
  by (simp add: sha_reg_def)

lemma sha_reg_0: "j < 8 \<Longrightarrow> i mod 8 = 0 \<Longrightarrow> sha_reg i j = j"
  by (simp add: sha_reg_if)

lemma sha_reg_Suc: "j < 8 \<Longrightarrow> sha_reg (Suc i) j = (if j = 0 then sha_reg i 7 else sha_reg i (j - 1))"
  using mod_less_divisor [of 8 i] by (auto simp: sha_reg_if mod_Suc)

lemma sha_reg_inj:
  assumes "j < 8" "k < 8"
  shows "sha_reg i j = sha_reg i k \<longleftrightarrow> j = k"
  using mod_less_divisor [of 8 i] assms by (auto simp: sha_reg_if split: if_splits)

definition sha_view :: "nat \<Rightarrow> u32 list \<Rightarrow> u32 list" where
  "sha_view i r = map (\<lambda>j. r ! sha_reg i j) [0, 1, 2, 3, 4, 5, 6, 7]"

lemma sha_view_ends:
  assumes "length r = 8"
  shows "sha_view 0 r = r" "sha_view 64 r = r"
proof -
  from assms obtain a b c d e f g h where "r = [a, b, c, d, e, f, g, h]" by (auto simp: length_Suc_conv eval_nat_numeral)
  then show "sha_view 0 r = r" "sha_view 64 r = r" by (simp_all add: sha_view_def sha_reg_0)
qed

lemma sha_view_step:
  assumes "length r = 8"
  shows "sha_view (Suc i) (fst (sha_step ww i (r, w))) =
     sha_round (sha256_k ! i) (snd (sha_step ww i (r, w)) ! (i mod 16)) (sha_view i r)"
  using assms
  by (simp add: sha_view_def sha_step_def Let_def sha_reg_inj sha_reg_Suc nth_list_update)

section \<open>The circular buffer\<close>

lemma schedule_length [simp]: "length (sha_schedule m n) = length m + n"
  by (induction n) (simp_all add: Let_def)

lemma schedule_stable: "k \<le> n \<Longrightarrow> t < length m + k \<Longrightarrow> sha_schedule m n ! t = sha_schedule m k ! t"
  by (induction n) (auto simp: Let_def nth_append le_Suc_eq)

lemma schedule_first: "t < length m \<Longrightarrow> sha_schedule m n ! t = m ! t"
  using schedule_stable [of 0 n t m] by simp

lemma schedule_next:
  assumes "length m = 16" "16 \<le> t" "t < 64"
  shows "sha_schedule m 48 ! t = sha_schedule m 48 ! (t - 16) + sha_S0 (sha_schedule m 48 ! (t - 15)) +
     sha_schedule m 48 ! (t - 7) + sha_S1 (sha_schedule m 48 ! (t - 2))"
proof -
  define n where "n = t - 16"
  have t: "t = 16 + n" "Suc n \<le> 48" using assms(2,3) by (simp_all add: n_def)
  have st: "sha_schedule m 48 ! u = sha_schedule m n ! u" if "u < 16 + n" for u
    using schedule_stable [of n 48 u m] that t(2) assms(1) by simp
  have "sha_schedule m 48 ! t = sha_schedule m (Suc n) ! t"
    using schedule_stable [OF t(2), of t m] t(1) assms(1) by simp
  also have "\<dots> = sha_schedule m n ! (t - 16) + sha_S0 (sha_schedule m n ! (t - 15)) +
     sha_schedule m n ! (t - 7) + sha_S1 (sha_schedule m n ! (t - 2))"
    using t(1) assms(1) by (simp add: Let_def nth_append)
  finally show ?thesis using t(1) by (simp add: st)
qed

lemma circular_other: "i mod 16 = t mod (16 :: nat) \<Longrightarrow> t < i \<Longrightarrow> i \<le> 15 + t \<Longrightarrow> P"
  using dvd_imp_le [of 16 "i - t"] by (auto simp: mod_eq_dvd_iff_nat)

definition in_buffer :: "u32 list \<Rightarrow> nat \<Rightarrow> u32 list \<Rightarrow> bool" where
  "in_buffer ws i w \<longleftrightarrow> length w = 16 \<and> (\<forall>t < i. i \<le> t + 16 \<longrightarrow> w ! (t mod 16) = ws ! t)"

lemma in_buffer_put:
  assumes "in_buffer ws i w" "x = ws ! i"
  shows "in_buffer ws (Suc i) (w[i mod 16 := x])"
  using assms unfolding in_buffer_def by (auto simp: less_Suc_eq nth_list_update elim: circular_other)

lemma in_buffer_step:
  fixes ww :: "nat \<Rightarrow> u32"
  defines "ws \<equiv> sha_schedule (map (\<lambda>t. to_be32 (ww t)) [0..<16]) 48"
  assumes "in_buffer ws i w" "i < 64"
  shows "in_buffer ws (Suc i) (snd (sha_step ww i (r, w)))" "snd (sha_step ww i (r, w)) ! (i mod 16) = ws ! i"
proof -
  let ?x = "if i < 16 then to_be32 (ww i)
    else w ! ((i - 16) mod 16) + sha_S0 (w ! ((i - 15) mod 16)) + w ! ((i - 7) mod 16) + sha_S1 (w ! ((i - 2) mod 16))"
  have s: "snd (sha_step ww i (r, w)) = w[i mod 16 := ?x]" by (simp add: sha_step_def Let_def)
  have "?x = ws ! i"
  proof (cases "i < 16")
    case True
    then show ?thesis by (simp add: ws_def schedule_first)
  next
    case False
    then have "w ! ((i - k) mod 16) = ws ! (i - k)" if "k \<in> {16, 15, 7, 2}" for k
      using assms(2) that unfolding in_buffer_def by auto
    then show ?thesis using False assms(3) schedule_next [of "map (\<lambda>t. to_be32 (ww t)) [0..<16]" i] by (simp add: ws_def)
  qed
  then show "in_buffer ws (Suc i) (snd (sha_step ww i (r, w)))" "snd (sha_step ww i (r, w)) ! (i mod 16) = ws ! i"
    using in_buffer_put [OF assms(2)] assms(2) unfolding s by (simp_all add: in_buffer_def)
qed

lemma sha_steps_ref:
  fixes ww :: "nat \<Rightarrow> u32"
  defines "ws \<equiv> sha_schedule (map (\<lambda>t. to_be32 (ww t)) [0..<16]) 48"
  assumes "length r = 8" "length w = 16" "n \<le> 64"
  shows "sha_view n (fst (fold (sha_step ww) [0..<n] (r, w))) = fold (\<lambda>t. sha_round (sha256_k ! t) (ws ! t)) [0..<n] r \<and>
     length (fst (fold (sha_step ww) [0..<n] (r, w))) = 8 \<and> in_buffer ws n (snd (fold (sha_step ww) [0..<n] (r, w)))"
  using assms(4)
proof (induction n)
  case 0
  then show ?case using assms(2,3) sha_view_ends by (simp add: in_buffer_def)
next
  case (Suc n)
  obtain r1 w1 where f: "fold (sha_step ww) [0..<n] (r, w) = (r1, w1)" by (metis surj_pair)
  with Suc have IH: "sha_view n r1 = fold (\<lambda>t. sha_round (sha256_k ! t) (ws ! t)) [0..<n] r" "length r1 = 8"
    "in_buffer ws n w1" by simp_all
  have "length (fst (sha_step ww n (r1, w1))) = 8" using IH(2) by (simp add: sha_step_def Let_def)
  moreover note in_buffer_step [OF IH(3) [unfolded ws_def], of r1] sha_view_step [OF IH(2), of n ww w1]
  ultimately show ?case using f IH(1) Suc.prems by (simp add: ws_def)
qed

lemma sha_64_steps:
  assumes "length digest = 8" "length w = 16"
  shows "map2 (+) digest (fst (fold (sha_step ww) [0..<64] (digest, w))) =
    sha_compress digest (map (\<lambda>t. to_be32 (ww t)) [0..<16])"
proof -
  note steps = sha_steps_ref [OF assms order_refl, of ww]
  show ?thesis
    using sha_view_ends(2) [OF conjunct1 [OF conjunct2 [OF steps]]] conjunct1 [OF steps]
    by (simp add: sha_compress_def Let_def del: upt_Suc)
qed

lemma sha256_single_ref:
  assumes "length digest = 8"
  shows "sha256_single_for_mh_sha256 data digest = sha_compress digest (block_words data)"
proof -
  have "map (\<lambda>t. to_be32 (load_u32 data t)) [0..<16] = block_words data"
    unfolding block_words_def to_be32_load ..
  with sha_64_steps [OF assms, of "replicate 16 0" "load_u32 data"] show ?thesis
    by (simp add: sha256_single_for_mh_sha256_def case_prod_unfold del: upt_Suc)
qed

section \<open>The whole message\<close>

lemma store_be64: "store_u64 (to_be64 x) = be_bytes64 x"
  unfolding store_u64_def be_bytes64_def list.map
  apply (intro arg_cong2 [where f = Cons] refl; rule bit_word_eqI)
  by (auto simp: to_be64_def byte_masks bit_simps)

lemma be_bytes64_length [simp]: "length (be_bytes64 x) = 8"
  by (simp add: be_bytes64_def)

lemma sha_round_length [simp]: "length (sha_round k w st) = length st"
  by (cases "(k, w, st)" rule: sha_round.cases) (simp_all add: Let_def)

lemma sha_rounds_length [simp]: "length (fold (\<lambda>t. sha_round (k t) (w t)) ts st) = length st"
  by (induction ts arbitrary: st) simp_all

lemma sha_compress_length [simp]: "length (sha_compress h m) = length h"
  by (simp add: sha_compress_def Let_def)

lemma blocks_of_append: "length a = n * bsize \<Longrightarrow> blocks_of bsize (n + k) (a @ b) = blocks_of bsize n a @ blocks_of bsize k b"
  by (induction n arbitrary: a) (simp_all add: take_append drop_append)

lemma block_words_take: "block_words (take 64 data) = block_words data"
  by (simp add: block_words_def be_word_def)


lemma block_words_append: "length b = 64 \<Longrightarrow> block_words (b @ c) = block_words b"
  using block_words_take [of "b @ c"] by simp

text \<open>The state after the blocks of \<open>p\<close>.\<close>

definition sha_blocks :: "u8 list \<Rightarrow> u32 list \<Rightarrow> u32 list" where
  "sha_blocks p = fold (\<lambda>blk h. sha_compress h (block_words blk)) (blocks_of 64 (length p div 64) p)"

lemma sha256_blocks: "sha256 m = sha_blocks (sha_pad 64 m) MH_SHA256_H"
  by (simp add: sha256_def sha_blocks_def Let_def)

lemma sha_blocks_append: "length a mod 64 = 0 \<Longrightarrow> sha_blocks (a @ b) h = sha_blocks b (sha_blocks a h)"
  using blocks_of_append [of a "length a div 64" 64 "length b div 64" b]
  by (auto simp: sha_blocks_def)

lemma sha_blocks_one: "length a = 64 \<Longrightarrow> sha_blocks a h = sha_compress h (block_words a)"
  by (simp add: sha_blocks_def)

lemma sha_blocks_length [simp]: "length (sha_blocks p h) = length h"
proof -
  have "length (fold (\<lambda>blk h. sha_compress h (block_words blk)) bs h) = length h" for bs
    by (induction bs arbitrary: h) simp_all
  then show ?thesis by (simp add: sha_blocks_def)
qed

lemma sha256_whole_blocks_ref:
  assumes "length digest = 8" "i \<le> length input"
  shows "sha256_whole_blocks input digest i =
     (drop (i - i mod 64) input, sha_blocks (take (i - i mod 64) input) digest, i mod 64)"
  using assms
proof (induction input digest i rule: sha256_whole_blocks.induct)
  case (1 input digest i)
  show ?case
  proof (cases "64 \<le> i")
    case False
    then show ?thesis by (subst sha256_whole_blocks.simps) (simp add: SHA256_BLOCK_SIZE_def sha_blocks_def)
  next
    case True
    have m: "(i - 64) mod 64 = i mod 64" "i mod 64 \<le> i - 64" using True by (simp_all add: le_mod_geq)
    have a: "sha_blocks (take (i - i mod 64) input) digest =
      sha_blocks (take (i - 64 - i mod 64) (drop 64 input)) (sha_compress digest (block_words input))"
      using sha_blocks_append [of "take 64 input" "take (i - 64 - i mod 64) (drop 64 input)" digest]
        sha_blocks_one [of "take 64 input"] True 1(3) m(2)
      by (simp add: block_words_take flip: take_add)
    have "i - 64 - i mod 64 + 64 = i - i mod 64" using m(2) True by simp
    with 1(1) True 1(2,3) m show ?thesis
      by (subst sha256_whole_blocks.simps) (simp add: SHA256_BLOCK_SIZE_def sha256_single_ref a)
  qed
qed

lemma sha256_last_blocks_ref:
  assumes "length junk = 8" "length digest = 8" "rest < 64" "rest \<le> length input"
  shows "sha256_last_blocks junk input digest rest len =
     sha_blocks (take rest input @ [0x80] @ replicate ((119 - rest) mod 64) 0 @ be_bytes64 (8 * ucast len)) digest"
proof (cases "rest \<le> 55")
  case True
  let ?b = "take rest input @ [0x80] @ replicate (55 - rest) 0 @ be_bytes64 (8 * ucast len)"
  have n: "(119 - rest) mod 64 = 55 - rest" using True by (simp add: le_mod_geq)
  have "sha256_last_blocks junk input digest rest len = sha256_single_for_mh_sha256 (?b @ drop 64 (take rest input @ [0x80] @ replicate (119 - rest) 0 @ junk)) digest"
    using True assms Suc_diff_le [OF True] by (simp add: sha256_last_blocks_def Let_def SHA256_BLOCK_SIZE_def store_be64 mult.commute)
  moreover have "block_words (?b @ c) = block_words ?b" for c
    using True assms by (intro block_words_append) simp
  ultimately show ?thesis using assms True by (simp add: n sha256_single_ref sha_blocks_one)
next
  case False
  let ?b = "take rest input @ [0x80] @ replicate (119 - rest) 0 @ be_bytes64 (8 * ucast len)"
  have n: "(119 - rest) mod 64 = 119 - rest" using False assms by simp
  have "120 - rest = Suc (119 - rest)" using assms(3) by simp
  then have "sha256_last_blocks junk input digest rest len =
    sha256_single_for_mh_sha256 (drop 64 ?b) (sha256_single_for_mh_sha256 ?b digest)"
    using False assms by (simp add: sha256_last_blocks_def Let_def SHA256_BLOCK_SIZE_def store_be64 mult.commute)
  also have "\<dots> = sha_blocks ?b digest"
    using sha_blocks_append [of "take 64 ?b" "drop 64 ?b" digest] sha_blocks_one [of "take 64 ?b"]
      sha_blocks_one [of "drop 64 ?b"] assms False
    by (simp add: sha256_single_ref block_words_take del: take_append drop_append)
  finally show ?thesis by (simp only: n)
qed

lemma sha256_code:
  assumes "length junk = 8"
  shows "sha256_for_mh_sha256 junk input len =
     (if unat len \<le> length input then Inr (sha256 (take (unat len) input)) else Inl OutOfBounds)"
proof (cases "unat len \<le> length input")
  case True
  define i n m where "i = unat len mod 64" and "n = unat len - i" and "m = take (unat len) input"
  have r: "i < 64" "n mod 64 = 0" "n \<le> length input" "length m = unat len" "unat len = n + i"
    using True by (simp_all add: i_def n_def m_def minus_mod_eq_mult_div)
  have m: "take n input = take n m" "take i (drop n input) = drop n m" using r(5) by (simp_all add: m_def drop_take)
  have p: "sha_pad 64 m = take n m @ (drop n m @ [0x80] @ replicate ((119 - i) mod 64) 0 @ be_bytes64 (8 * ucast len))"
    using r(4) append_take_drop_id [of n m] by (simp add: sha_pad_def i_def del: append_take_drop_id flip: append_assoc)
  have "(n + i) mod 64 = i" using r(1,2) by (simp add: mod_add_left_eq [symmetric])
  moreover have "length MH_SHA256_H = 8" by (simp add: MH_SHA256_H_def)
  ultimately have "sha256_for_mh_sha256 junk input len =
      Inr (sha_blocks (drop n m @ [0x80] @ replicate ((119 - i) mod 64) 0 @ be_bytes64 (8 * ucast len))
             (sha_blocks (take n m) MH_SHA256_H))"
    using True assms r(1,3,5) m sha256_whole_blocks_ref [of MH_SHA256_H "unat len" input]
      sha256_last_blocks_ref [of junk "sha_blocks (take n input) MH_SHA256_H" i "drop n input" len]
    by (simp add: sha256_for_mh_sha256_def flip: i_def n_def)
  also have "\<dots> = Inr (sha256 m)"
    unfolding sha256_blocks p by (subst sha_blocks_append) (use r(2,4,5) in simp_all)
  finally show ?thesis using True by (simp add: m_def)
qed (simp add: sha256_for_mh_sha256_def)

text \<open>
  C20: the SHA-256 of the library, with its rotated variables, its circular schedule and its padding in a local
  buffer, is the function of the standard, whatever the local buffer held before; it reads out of bounds only if the length
  goes beyond the input.
\<close>

theorem sha256_code_correct:
  assumes "length junk = 8"
  shows "sha256_for_mh_sha256 junk input len =
     (if unat len \<le> length input then Inr (sha256 (take (unat len) input)) else Inl OutOfBounds)"
  using assms by (rule sha256_code)

theorem sha256_code_correct_witness:
  "sha256_for_mh_sha256 [1, 2, 3, 4, 5, 6, 7, 8] [0x61, 0x62, 0x63] 3 = Inr (sha256 [0x61, 0x62, 0x63])"
  using sha256_code_correct [of "[1, 2, 3, 4, 5, 6, 7, 8]" "[0x61, 0x62, 0x63]" 3] by simp

end
