(* ===== verification/Mh_Sha256.thy ===== *)
theory Mh_Sha256
  imports Sha256 Checksum
begin

text \<open>
  The multi-hash SHA-256 of the vendored ISA-L library, which \<^verbatim>\<open>checksum_gen\<close> calls: \<^verbatim>\<open>mh_sha256.c\<close>,
  \<^verbatim>\<open>mh_sha256_block_base.c\<close>, \<^verbatim>\<open>mh_sha256_update_base.c\<close> and \<^verbatim>\<open>mh_sha256_finalize_base.c\<close>.  The message is cut into
  blocks of 1024 bytes whose words are dealt out to sixteen segments; each segment is hashed on its own,
  and the sixteen digests are hashed again.  The code runs the segments in step, with every variable an array of
  sixteen words, and takes the message in pieces of any size.

  The versions for SSE, AVX, AVX2 and AVX-512 differ from these in the block function only, which is assembly; the
  model is the portable one.
\<close>

definition HASH_SEGS :: nat where "HASH_SEGS = 16"
definition MH_SHA256_BLOCK_SIZE :: nat where "MH_SHA256_BLOCK_SIZE = 1024"
definition MH_SHA256_CTX_ERROR_NONE :: int where "MH_SHA256_CTX_ERROR_NONE = 0"
definition MH_SHA256_CTX_ERROR_NULL :: int where "MH_SHA256_CTX_ERROR_NULL = -1"

lemmas mh_consts = HASH_SEGS_def MH_SHA256_BLOCK_SIZE_def MH_SHA256_CTX_ERROR_NONE_def
  MH_SHA256_CTX_ERROR_NULL_def SHA256_DIGEST_WORDS_def

section \<open>The block function\<close>

text \<open>An array \<^verbatim>\<open>uint32_t [\<dots>][HASH_SEGS]\<close> is the list of its rows.\<close>

type_synonym rows = "u32 list list"

definition for_segs :: "(nat \<Rightarrow> u32) \<Rightarrow> u32 list" where
  "for_segs f = map f [0..<HASH_SEGS]"

text \<open>
  The macros of a step: for one segment, and as loops over the segments.  \<^verbatim>\<open>Ws\<close> is the schedule as a ring of sixteen rows; no segment looks at another one's
  column, so a loop writes its row at once.
\<close>

definition Ws :: "rows \<Rightarrow> nat \<Rightarrow> nat \<Rightarrow> u32" where
  "Ws w x s = w ! (x mod 16) ! s"

definition store_w :: "nat \<Rightarrow> nat \<Rightarrow> (nat \<Rightarrow> u32) \<Rightarrow> u32" where
  "store_w s i ww = to_be32 (ww (i * HASH_SEGS + s))"

definition update_w :: "nat \<Rightarrow> nat \<Rightarrow> rows \<Rightarrow> u32" where
  "update_w s i w = Ws w (i - 16) s + sha_S0 (Ws w (i - 15) s) + Ws w (i - 7) s + sha_S1 (Ws w (i - 2) s)"

definition update_t2 :: "nat \<Rightarrow> u32 list \<Rightarrow> u32 list \<Rightarrow> u32 list \<Rightarrow> u32" where
  "update_t2 s a b c = sha_s0 (a ! s) + sha_maj (a ! s) (b ! s) (c ! s)"

definition update_t1 :: "nat \<Rightarrow> u32 list \<Rightarrow> u32 list \<Rightarrow> u32 list \<Rightarrow> u32 list \<Rightarrow> nat \<Rightarrow> u32 \<Rightarrow> rows \<Rightarrow> u32" where
  "update_t1 s h e f g i k w = h ! s + sha_s1 (e ! s) + sha_ch (e ! s) (f ! s) (g ! s) + k + Ws w i s"

definition update_d :: "nat \<Rightarrow> u32 list \<Rightarrow> u32 list \<Rightarrow> u32" where
  "update_d s d t1 = d ! s + t1 ! s"

definition update_h :: "nat \<Rightarrow> u32 list \<Rightarrow> u32 list \<Rightarrow> u32" where
  "update_h s t1 t2 = t1 ! s + t2 ! s"

definition STORE_W :: "nat \<Rightarrow> rows \<Rightarrow> (nat \<Rightarrow> u32) \<Rightarrow> rows" where
  "STORE_W i w ww = w[i := for_segs (\<lambda>s. store_w s i ww)]"

definition UPDATE_W :: "nat \<Rightarrow> rows \<Rightarrow> rows" where
  "UPDATE_W i w = w[i mod 16 := for_segs (\<lambda>s. update_w s i w)]"

definition UPDATE_T2 :: "u32 list \<Rightarrow> u32 list \<Rightarrow> u32 list \<Rightarrow> u32 list" where
  "UPDATE_T2 a b c = for_segs (\<lambda>s. update_t2 s a b c)"

definition UPDATE_T1 :: "u32 list \<Rightarrow> u32 list \<Rightarrow> u32 list \<Rightarrow> u32 list \<Rightarrow> nat \<Rightarrow> u32 \<Rightarrow> rows \<Rightarrow> u32 list" where
  "UPDATE_T1 h e f g i k w = for_segs (\<lambda>s. update_t1 s h e f g i k w)"

definition UPDATE_D :: "u32 list \<Rightarrow> u32 list \<Rightarrow> u32 list" where
  "UPDATE_D d t1 = for_segs (\<lambda>s. update_d s d t1)"

definition UPDATE_H :: "u32 list \<Rightarrow> u32 list \<Rightarrow> u32 list" where
  "UPDATE_H t1 t2 = for_segs (\<lambda>s. update_h s t1 t2)"

text \<open>\<open>r\<close> holds the eight registers; in step \<open>i\<close> the argument number \<open>j\<close> is register \<open>sha_reg i j\<close>.\<close>

definition mh_step :: "(nat \<Rightarrow> u32) \<Rightarrow> nat \<Rightarrow> rows \<times> rows \<Rightarrow> rows \<times> rows" where
  "mh_step ww i = (\<lambda>(r, w).
     let w' = (if i < 16 then STORE_W i w ww else UPDATE_W i w);
         v = (\<lambda>j. r ! sha_reg i j);
         t2 = UPDATE_T2 (v 0) (v 1) (v 2);
         t1 = UPDATE_T1 (v 7) (v 4) (v 5) (v 6) i (sha256_k ! i) w';
         r1 = r[sha_reg i 3 := UPDATE_D (v 3) t1]
     in (r1[sha_reg i 7 := UPDATE_H t1 t2], w'))"

lemmas mh_step_defs = mh_step_def STORE_W_def UPDATE_W_def UPDATE_T2_def UPDATE_T1_def UPDATE_D_def UPDATE_H_def Ws_def
  store_w_def update_w_def update_t2_def update_t1_def update_d_def update_h_def

definition init_abcdefgh :: "nat \<Rightarrow> rows \<Rightarrow> u32 list" where
  "init_abcdefgh n digests = for_segs (\<lambda>s. digests ! n ! s)"

definition add_abcdefgh :: "rows \<Rightarrow> nat \<Rightarrow> rows \<Rightarrow> rows" where
  "add_abcdefgh r n digests = digests[n := for_segs (\<lambda>s. digests ! n ! s + r ! n ! s)]"

definition mh_sha256_single :: "u8 list \<Rightarrow> rows \<times> rows \<Rightarrow> rows \<times> rows" where
  "mh_sha256_single input = (\<lambda>(digests, frame_buffer).
     let (r, w) = fold (mh_step (load_u32 input)) [0..<64]
                    (map (\<lambda>n. init_abcdefgh n digests) [0..<SHA256_DIGEST_WORDS], frame_buffer)
     in (fold (add_abcdefgh r) [0..<SHA256_DIGEST_WORDS] digests, w))"

primrec mh_sha256_block_base :: "u8 list \<Rightarrow> rows \<times> rows \<Rightarrow> nat \<Rightarrow> rows \<times> rows" where
  "mh_sha256_block_base input st 0 = st"
| "mh_sha256_block_base input st (Suc n) =
     mh_sha256_block_base (drop MH_SHA256_BLOCK_SIZE input) (mh_sha256_single input st) n"

section \<open>The context\<close>

text \<open>
  \<^verbatim>\<open>frame_buffer\<close> is the part of the array that begins at a multiple of 64, as sixteen rows; \<^verbatim>\<open>mh_sha256_interim_digests\<close>
  is used as \<^verbatim>\<open>uint32_t [8][16]\<close> everywhere and kept as such.
\<close>

record mh_sha256_ctx =
  mh_sha256_digest :: "u32 list"
  total_length :: u64
  partial_block_buffer :: "u8 list"
  mh_sha256_interim_digests :: rows
  frame_buffer :: rows

text \<open>
  Why the part that is used lies inside the array, wherever the context was allocated: the array has 64 bytes more than it needs.
\<close>

definition AVX512_ALIGNED :: nat where "AVX512_ALIGNED = 64"

definition ALIGN_64 :: "u64 \<Rightarrow> u64" where
  "ALIGN_64 pointer = (pointer + 0x3f) AND NOT 0x3f"

lemma and_not_63: "(x :: u64) AND NOT 0x3f = x - x mod 64"
proof -
  have "(0x3f :: u64) = mask 6" by (simp add: mask_eq_exp_minus_1)
  then have "x AND 0x3f = take_bit 6 x" by (simp only: take_bit_eq_mask)
  then have m: "x AND 0x3f = x mod 64" by (simp add: take_bit_eq_mod)
  have "(x AND 0x3f) + (x AND NOT 0x3f) = (x AND 0x3f) OR (x AND NOT 0x3f)"
    by (rule disjunctive_add) (auto simp: bit_simps)
  also have "\<dots> = x" by (rule bit_word_eqI) (auto simp: bit_simps)
  finally show ?thesis using m by (simp add: algebra_simps)
qed

lemma frame_buffer_aligned:
  assumes "unat p + MH_SHA256_BLOCK_SIZE + AVX512_ALIGNED < 2 ^ 64"
  shows "64 dvd unat (ALIGN_64 p)" "unat p \<le> unat (ALIGN_64 p)"
    "unat (ALIGN_64 p) + MH_SHA256_BLOCK_SIZE \<le> unat p + (MH_SHA256_BLOCK_SIZE + AVX512_ALIGNED)"
proof -
  have "unat (p + 0x3f) = unat p + 63" using assms by (simp add: word_nat AVX512_ALIGNED_def mh_consts)
  moreover have "(p + 0x3f) mod 64 \<le> p + 0x3f" by (simp add: word_le_nat_alt unat_mod_distrib)
  ultimately have "unat (ALIGN_64 p) = (unat p + 63) - (unat p + 63) mod 64"
    unfolding ALIGN_64_def and_not_63 by (simp add: unat_sub unat_mod_distrib)
  then show "64 dvd unat (ALIGN_64 p)" "unat p \<le> unat (ALIGN_64 p)"
    "unat (ALIGN_64 p) + MH_SHA256_BLOCK_SIZE \<le> unat p + (MH_SHA256_BLOCK_SIZE + AVX512_ALIGNED)"
    by (simp_all add: minus_mod_eq_mult_div AVX512_ALIGNED_def)
qed

definition memcpy_at :: "'a list \<Rightarrow> nat \<Rightarrow> 'a list \<Rightarrow> 'a list" where
  "memcpy_at dest off src = take off dest @ src @ drop (off + length src) dest"

definition mh_sha256_init :: "mh_sha256_ctx option \<Rightarrow> int \<times> mh_sha256_ctx option" where
  "mh_sha256_init ctx = (case ctx of
     None \<Rightarrow> (MH_SHA256_CTX_ERROR_NULL, None)
   | Some _ \<Rightarrow> (MH_SHA256_CTX_ERROR_NONE, Some
       \<lparr>mh_sha256_digest = replicate SHA256_DIGEST_WORDS 0, total_length = 0,
        partial_block_buffer = replicate (2 * MH_SHA256_BLOCK_SIZE) 0,
        mh_sha256_interim_digests = map (\<lambda>n. for_segs (\<lambda>_. MH_SHA256_H ! n)) [0..<SHA256_DIGEST_WORDS],
        frame_buffer = replicate 16 (replicate HASH_SEGS 0)\<rparr>))"

text \<open>The block function on the context.\<close>

definition ctx_blocks :: "u8 list \<Rightarrow> nat \<Rightarrow> mh_sha256_ctx \<Rightarrow> mh_sha256_ctx" where
  "ctx_blocks input n c =
     (let (digests, frame) = mh_sha256_block_base input (mh_sha256_interim_digests c, frame_buffer c) n
      in c\<lparr>mh_sha256_interim_digests := digests, frame_buffer := frame\<rparr>)"

text \<open>The end of an update: the whole blocks of what is left of the input, and the rest into the buffer.\<close>

definition mh_update_blocks :: "mh_sha256_ctx \<Rightarrow> u8 list \<Rightarrow> u32 \<Rightarrow> mh_sha256_ctx" where
  "mh_update_blocks c input_data len =
     (let num_blocks = unat len div MH_SHA256_BLOCK_SIZE;
          (c, input_data, len) =
            (if 0 < num_blocks
             then (ctx_blocks input_data num_blocks c, drop (num_blocks * MH_SHA256_BLOCK_SIZE) input_data,
                   len - of_nat (num_blocks * MH_SHA256_BLOCK_SIZE))
             else (c, input_data, len))
      in if len \<noteq> 0
         then c\<lparr>partial_block_buffer := memcpy_at (partial_block_buffer c) 0 (take (unat len) input_data)\<rparr>
         else c)"

definition mh_sha256_update_base ::
  "mh_sha256_ctx option \<Rightarrow> u8 list \<Rightarrow> u32 \<Rightarrow> (int \<times> mh_sha256_ctx option) result" where
  "mh_sha256_update_base ctx buffer len = (case ctx of
     None \<Rightarrow> Inr (MH_SHA256_CTX_ERROR_NULL, None)
   | Some c \<Rightarrow>
       if len = 0 then Inr (MH_SHA256_CTX_ERROR_NONE, Some c)
       else if length buffer < unat len then Inl OutOfBounds
       else
         let bsize = of_nat MH_SHA256_BLOCK_SIZE;
             partial_block_len = total_length c mod bsize;
             c = c\<lparr>total_length := total_length c + ucast len\<rparr>
         in if ucast len + partial_block_len < bsize
            then Inr (MH_SHA256_CTX_ERROR_NONE, Some (c\<lparr>partial_block_buffer :=
                   memcpy_at (partial_block_buffer c) (unat partial_block_len) (take (unat len) buffer)\<rparr>))
            else if partial_block_len \<noteq> 0
            then let n = MH_SHA256_BLOCK_SIZE - unat partial_block_len;
                     pb = memcpy_at (partial_block_buffer c) (unat partial_block_len) (take n buffer);
                     c = (ctx_blocks pb 1 c)\<lparr>partial_block_buffer :=
                           memcpy_at pb 0 (replicate MH_SHA256_BLOCK_SIZE 0)\<rparr>
                 in Inr (MH_SHA256_CTX_ERROR_NONE, Some (mh_update_blocks c (drop n buffer) (len - of_nat n)))
            else Inr (MH_SHA256_CTX_ERROR_NONE, Some (mh_update_blocks c buffer len)))"

text \<open>\<open>mh_bytes\<close> reads an array of words as bytes; \<open>junk\<close> is uninitialised memory, see \<open>sha256_for_mh_sha256\<close>.\<close>

definition mh_bytes :: "rows \<Rightarrow> u8 list" where
  "mh_bytes rs = concat (map store_u32 (concat rs))"

definition mh_sha256_tail_base :: "u8 list \<Rightarrow> u32 \<Rightarrow> mh_sha256_ctx \<Rightarrow> mh_sha256_ctx result" where
  "mh_sha256_tail_base junk total_len c =
     (let n = unat (total_len mod of_nat MH_SHA256_BLOCK_SIZE);
          pb = (partial_block_buffer c)[n := 0x80];
          n = n + 1;
          pb = memcpy_at pb n (replicate (MH_SHA256_BLOCK_SIZE - n) 0);
          (pb, c) = (if n > MH_SHA256_BLOCK_SIZE - 8
                     then (memcpy_at pb 0 (replicate MH_SHA256_BLOCK_SIZE 0), ctx_blocks pb 1 c)
                     else (pb, c));
          pb = memcpy_at pb (MH_SHA256_BLOCK_SIZE - 8) (store_u64 (to_be64 (ucast total_len * 8)));
          c = (ctx_blocks pb 1 c)\<lparr>partial_block_buffer := pb\<rparr>
      in rbind (sha256_for_mh_sha256 junk (mh_bytes (mh_sha256_interim_digests c))
                 (of_nat (4 * SHA256_DIGEST_WORDS * HASH_SEGS))) (\<lambda>digest.
           Inr (c\<lparr>mh_sha256_digest := digest\<rparr>)))"

definition mh_sha256_finalize_base ::
  "u8 list \<Rightarrow> mh_sha256_ctx option \<Rightarrow> u8 list option \<Rightarrow> (int \<times> mh_sha256_ctx option \<times> u8 list option) result" where
  "mh_sha256_finalize_base junk ctx out = (case ctx of
     None \<Rightarrow> Inr (MH_SHA256_CTX_ERROR_NULL, None, out)
   | Some c \<Rightarrow> rbind (mh_sha256_tail_base junk (ucast (total_length c)) c) (\<lambda>c.
       let word_bytes = concat (map store_u32 (mh_sha256_digest c))
       in case out of
            None \<Rightarrow> Inr (MH_SHA256_CTX_ERROR_NONE, Some c, None)
          | Some mem \<Rightarrow>
              if length word_bytes \<le> length mem
              then Inr (MH_SHA256_CTX_ERROR_NONE, Some c, Some (memcpy_at mem 0 word_bytes))
              else Inl OutOfBounds))"

section \<open>The reference\<close>

text \<open>The words of a block that segment \<open>s\<close> gets, the digest of a segment, and the two levels.\<close>

definition mh_segment :: "nat \<Rightarrow> u8 list \<Rightarrow> u32 list" where
  "mh_segment s blk = map (\<lambda>t. be_word blk (16 * t + s)) [0..<16]"

definition segment_digest :: "u8 list \<Rightarrow> nat \<Rightarrow> u32 list" where
  "segment_digest p s =
     fold (\<lambda>blk h. sha_compress h (mh_segment s blk)) (blocks_of 1024 (length p div 1024) p) MH_SHA256_H"

definition mh_pad :: "u64 \<Rightarrow> u8 list \<Rightarrow> u8 list" where
  "mh_pad n m = m @ [0x80] @ replicate ((2039 - length m mod 1024) mod 1024) 0 @ be_bytes64 (8 * n)"

definition mh_rows :: "(nat \<Rightarrow> u32 list) \<Rightarrow> rows" where
  "mh_rows f = map (\<lambda>j. map (\<lambda>s. f s ! j) [0..<16]) [0..<8]"

definition multi_hash_with :: "u64 \<Rightarrow> u8 list \<Rightarrow> u32 list" where
  "multi_hash_with n m = sha256 (mh_bytes (mh_rows (segment_digest (mh_pad n m))))"

definition multi_hash :: "u8 list \<Rightarrow> u8 list" where
  "multi_hash m = concat (map store_u32 (multi_hash_with (of_nat (length m)) m))"

section \<open>The segments one by one\<close>

definition shape :: "nat \<Rightarrow> rows \<Rightarrow> bool" where
  "shape n rs \<longleftrightarrow> length rs = n \<and> (\<forall>row \<in> set rs. length row = HASH_SEGS)"

definition col :: "nat \<Rightarrow> rows \<Rightarrow> u32 list" where
  "col s rs = map (\<lambda>row. row ! s) rs"

lemma for_segs_simps [simp]: "length (for_segs f) = HASH_SEGS" "s < HASH_SEGS \<Longrightarrow> for_segs f ! s = f s"
  by (simp_all add: for_segs_def)

lemma shape_update: "shape n rs \<Longrightarrow> length row = HASH_SEGS \<Longrightarrow> shape n (rs[k := row])"
  by (auto simp: shape_def dest: set_update_subset_insert [THEN subsetD])

lemma shape_map: "\<forall>x \<in> set xs. length (f x) = HASH_SEGS \<Longrightarrow> shape (length xs) (map f xs)"
  by (simp add: shape_def)

lemma col_update: "s < HASH_SEGS \<Longrightarrow> col s (rs[k := row]) = (col s rs)[k := row ! s]"
  by (simp add: col_def map_update)

lemma col_nth: "k < length rs \<Longrightarrow> rs ! k ! s = col s rs ! k"
  by (simp add: col_def)

lemma col_length [simp]: "length (col s rs) = length rs"
  by (simp add: col_def)

lemma mh_step_col:
  assumes "shape 8 r" "shape 16 w" "s < HASH_SEGS"
  shows "shape 8 (fst (mh_step ww i (r, w)))" "shape 16 (snd (mh_step ww i (r, w)))"
    "sha_step (\<lambda>t. ww (t * HASH_SEGS + s)) i (col s r, col s w) =
      (col s (fst (mh_step ww i (r, w))), col s (snd (mh_step ww i (r, w))))"
proof -
  have l: "length r = 8" "length w = 16" using assms(1,2) by (simp_all add: shape_def)
  show "shape 8 (fst (mh_step ww i (r, w)))" "shape 16 (snd (mh_step ww i (r, w)))"
    using assms(1,2) by (simp_all add: mh_step_defs Let_def shape_update)
  show "sha_step (\<lambda>t. ww (t * HASH_SEGS + s)) i (col s r, col s w) =
      (col s (fst (mh_step ww i (r, w))), col s (snd (mh_step ww i (r, w))))"
    using assms(3) l by (simp add: mh_step_defs sha_step_def Let_def col_update col_nth)
qed

lemma mh_steps_col:
  assumes "shape 8 r" "shape 16 w" "s < HASH_SEGS"
  shows "shape 8 (fst (fold (mh_step ww) is (r, w))) \<and> shape 16 (snd (fold (mh_step ww) is (r, w))) \<and>
    fold (sha_step (\<lambda>t. ww (t * HASH_SEGS + s))) is (col s r, col s w) =
      (col s (fst (fold (mh_step ww) is (r, w))), col s (snd (fold (mh_step ww) is (r, w))))"
  using assms
proof (induction "is" arbitrary: r w)
  case (Cons i "is")
  obtain r1 w1 where m: "mh_step ww i (r, w) = (r1, w1)" by (metis surj_pair)
  with mh_step_col [OF Cons.prems, of ww i] Cons.IH [of r1 w1] Cons.prems(3) show ?case by simp
qed simp

lemma mh_rows_shape [simp]: "shape 8 (mh_rows f)"
  by (simp add: mh_rows_def shape_def HASH_SEGS_def)

lemma col_mh_rows: "s < HASH_SEGS \<Longrightarrow> length (f s) = 8 \<Longrightarrow> col s (mh_rows f) = f s"
  by (simp add: mh_rows_def col_def HASH_SEGS_def list_eq_iff_nth_eq)

lemma mh_rows_cong: "\<forall>s < HASH_SEGS. f s = g s \<Longrightarrow> mh_rows f = mh_rows g"
  by (simp add: mh_rows_def HASH_SEGS_def)

lemma rows_of_cols:
  assumes "shape 8 rs"
  shows "rs = mh_rows (\<lambda>s. col s rs)"
  using assms by (auto simp: shape_def mh_rows_def col_def HASH_SEGS_def list_eq_iff_nth_eq)

lemma add_all:
  assumes "shape 8 digests" "shape 8 r"
  shows "fold (add_abcdefgh r) [0..<SHA256_DIGEST_WORDS] digests = mh_rows (\<lambda>s. map2 (+) (col s digests) (col s r))"
proof -
  have "length digests = 8" "length r = 8" using assms by (simp_all add: shape_def)
  then show ?thesis
    by (auto simp: SHA256_DIGEST_WORDS_def eval_nat_numeral length_Suc_conv add_abcdefgh_def mh_rows_def col_def
        for_segs_def HASH_SEGS_def)
qed

lemma init_all: "shape 8 digests \<Longrightarrow> map (\<lambda>n. init_abcdefgh n digests) [0..<SHA256_DIGEST_WORDS] = digests"
  by (auto simp: shape_def init_abcdefgh_def for_segs_def SHA256_DIGEST_WORDS_def list_eq_iff_nth_eq)

lemma mh_single_ref:
  assumes "shape 8 digests" "shape 16 frame"
  obtains frame' where "shape 16 frame'" "mh_sha256_single input (digests, frame) =
    (mh_rows (\<lambda>s. sha_compress (col s digests) (mh_segment s input)), frame')"
proof -
  obtain r w where f: "fold (mh_step (load_u32 input)) [0..<64] (digests, frame) = (r, w)" by (metis surj_pair)
  have sh: "shape 8 r" "shape 16 w"
    using mh_steps_col [OF assms, of 0 "load_u32 input" "[0..<64]"] by (simp_all add: f HASH_SEGS_def del: upt_Suc)
  have "map2 (+) (col s digests) (col s r) = sha_compress (col s digests) (mh_segment s input)" if "s < HASH_SEGS" for s
  proof -
    have "length (col s digests) = 8" "length (col s frame) = 16" using assms by (simp_all add: shape_def)
    from sha_64_steps [OF this, of "\<lambda>t. load_u32 input (t * HASH_SEGS + s)"]
      mh_steps_col [OF assms that, of "load_u32 input" "[0..<64]"] show ?thesis
      by (simp add: f mh_segment_def to_be32_load HASH_SEGS_def mult.commute del: upt_Suc)
  qed
  then have "mh_sha256_single input (digests, frame) =
    (mh_rows (\<lambda>s. sha_compress (col s digests) (mh_segment s input)), w)"
    using init_all [OF assms(1)] add_all [OF assms(1) sh(1)]
    by (simp add: mh_sha256_single_def f del: upt_Suc cong: ) (rule mh_rows_cong, simp)
  with sh(2) show thesis by (rule that)
qed

end
