(* ===== verification/Mh_Sha256_Correct.thy ===== *)
theory Mh_Sha256_Correct
  imports Mh_Sha256
begin

text \<open>
  The correctness of the multi-hash: what a context holds after any sequence of updates, the interface \<open>message_digest\<close> that
  \<^verbatim>\<open>checksum.c\<close> uses, its interpretation by the code, and the checksum of a chunk.
\<close>

section \<open>Blocks\<close>

definition mh_blocks :: "u8 list \<Rightarrow> (nat \<Rightarrow> u32 list) \<Rightarrow> nat \<Rightarrow> u32 list" where
  "mh_blocks p f s = fold (\<lambda>blk h. sha_compress h (mh_segment s blk)) (blocks_of 1024 (length p div 1024) p) (f s)"

lemma segment_blocks: "segment_digest p = mh_blocks p (\<lambda>_. MH_SHA256_H)"
  by (rule ext) (simp add: segment_digest_def mh_blocks_def)

lemma mh_blocks_append: "length a mod 1024 = 0 \<Longrightarrow> mh_blocks (a @ b) f = mh_blocks b (mh_blocks a f)"
  using blocks_of_append [of a "length a div 1024" 1024 "length b div 1024" b]
  by (auto simp: mh_blocks_def intro!: ext)

lemma mh_blocks_short: "length b < 1024 \<Longrightarrow> mh_blocks b f = f"
  by (rule ext) (simp add: mh_blocks_def)

lemma mh_blocks_length [simp]: "length (mh_blocks p f s) = length (f s)"
proof -
  have "length (fold (\<lambda>blk h. sha_compress h (mh_segment s blk)) bs h) = length h" for bs h
    by (induction bs arbitrary: h) simp_all
  then show ?thesis by (simp add: mh_blocks_def)
qed

lemma be_word_take: "4 * i + 4 \<le> n \<Longrightarrow> be_word (take n x) i = be_word x i"
  by (simp add: be_word_def)

lemma mh_segment_take: "s < HASH_SEGS \<Longrightarrow> mh_segment s (take 1024 x) = mh_segment s x"
  by (auto simp: mh_segment_def HASH_SEGS_def intro!: be_word_take)

lemma mh_blocks_one: "1024 \<le> length x \<Longrightarrow> s < HASH_SEGS \<Longrightarrow>
    mh_blocks (take 1024 x) f s = sha_compress (f s) (mh_segment s x)"
  by (simp add: mh_blocks_def mh_segment_take)

lemma block_base_ref:
  assumes "\<forall>s < HASH_SEGS. length (f s) = 8" "shape 16 frame" "length x = n * 1024"
  obtains frame' where "shape 16 frame'"
    "mh_sha256_block_base (x @ y) (mh_rows f, frame) n = (mh_rows (mh_blocks x f), frame')"
  using assms
proof (induction n arbitrary: thesis f frame x)
  case 0
  then show ?case by (simp add: mh_blocks_short)
next
  case (Suc n)
  note result = Suc.prems(1)
  have x: "length (take 1024 x) = 1024" "length (drop 1024 x) = n * 1024" using Suc.prems(4) by simp_all
  obtain frame1 where s: "shape 16 frame1" "mh_sha256_single (x @ y) (mh_rows f, frame) =
    (mh_rows (\<lambda>s. sha_compress (col s (mh_rows f)) (mh_segment s (x @ y))), frame1)"
    using mh_single_ref [OF mh_rows_shape Suc.prems(3)] .
  have "\<forall>s < HASH_SEGS. sha_compress (col s (mh_rows f)) (mh_segment s (x @ y)) = mh_blocks (take 1024 x) f s"
    using Suc.prems(2,4) mh_blocks_one [of "x @ y" _ f] by (simp add: col_mh_rows)
  with s have s': "mh_sha256_single (x @ y) (mh_rows f, frame) = (mh_rows (mh_blocks (take 1024 x) f), frame1)"
    using mh_rows_cong [of "\<lambda>s. sha_compress (col s (mh_rows f)) (mh_segment s (x @ y))"] by simp
  obtain frame' where r: "shape 16 frame'" "mh_sha256_block_base (drop 1024 x @ y) (mh_rows (mh_blocks (take 1024 x) f), frame1) n =
    (mh_rows (mh_blocks (drop 1024 x) (mh_blocks (take 1024 x) f)), frame')"
    by (rule Suc.IH [OF _ _ s(1) x(2), of "mh_blocks (take 1024 x) f"]) (use Suc.prems(2) in auto)
  show ?case
  proof (rule result [OF r(1)])
    show "mh_sha256_block_base (x @ y) (mh_rows f, frame) (Suc n) = (mh_rows (mh_blocks x f), frame')"
      using r(2) mh_blocks_append [of "take 1024 x" "drop 1024 x" f] Suc.prems(4)
      by (simp add: s' MH_SHA256_BLOCK_SIZE_def)
  qed
qed

section \<open>The context holds a message\<close>

text \<open>
  \<open>w\<close> has been hashed, and \<open>t\<close>, shorter than a block, waits in the buffer.
\<close>

definition ctx_hashed :: "mh_sha256_ctx \<Rightarrow> u8 list \<Rightarrow> bool" where
  "ctx_hashed c w \<longleftrightarrow> length w mod 1024 = 0 \<and> mh_sha256_interim_digests c = mh_rows (segment_digest w) \<and>
     shape 16 (frame_buffer c) \<and> length (partial_block_buffer c) = 2048"

definition ctx_holds :: "mh_sha256_ctx \<Rightarrow> u8 list \<Rightarrow> bool" where
  "ctx_holds c m \<longleftrightarrow> total_length c = of_nat (length m) \<and>
     (\<exists>w t. m = w @ t \<and> length t < 1024 \<and> ctx_hashed c w \<and> take (length t) (partial_block_buffer c) = t)"

lemma MH_SHA256_H_length [simp]: "length MH_SHA256_H = 8"
  by (simp add: MH_SHA256_H_def)

lemma ctx_blocks_ref:
  assumes "ctx_hashed c w" "length x = n * 1024"
  shows "ctx_hashed (ctx_blocks (x @ y) n c) (w @ x)"
    "partial_block_buffer (ctx_blocks (x @ y) n c) = partial_block_buffer c"
    "total_length (ctx_blocks (x @ y) n c) = total_length c"
proof -
  have c: "length w mod 1024 = 0" "mh_sha256_interim_digests c = mh_rows (segment_digest w)"
    "shape 16 (frame_buffer c)" "length (partial_block_buffer c) = 2048"
    using assms(1) by (simp_all add: ctx_hashed_def)
  obtain frame' where "shape 16 frame'" "mh_sha256_block_base (x @ y) (mh_rows (segment_digest w), frame_buffer c) n =
      (mh_rows (mh_blocks x (segment_digest w)), frame')"
    by (rule block_base_ref [OF _ c(3) assms(2)]) (auto simp: segment_blocks)
  then show "ctx_hashed (ctx_blocks (x @ y) n c) (w @ x)"
    "partial_block_buffer (ctx_blocks (x @ y) n c) = partial_block_buffer c"
    "total_length (ctx_blocks (x @ y) n c) = total_length c"
    using c assms(2) by (simp_all add: ctx_blocks_def ctx_hashed_def segment_blocks mh_blocks_append mod_add_right_eq [symmetric])
qed

lemma init_holds: "\<exists>c'. mh_sha256_init (Some c) = (MH_SHA256_CTX_ERROR_NONE, Some c') \<and> ctx_holds c' []"
  by (simp add: mh_sha256_init_def ctx_holds_def ctx_hashed_def shape_def mh_consts segment_blocks mh_blocks_short
      mh_rows_def for_segs_def)

lemma memcpy_at_length [simp]: "off + length src \<le> length dest \<Longrightarrow> length (memcpy_at dest off src) = length dest"
  by (simp add: memcpy_at_def)

lemma u64_mod_block: "unat ((of_nat n :: u64) mod 1024) = n mod 1024"
  by (simp add: unat_mod_distrib unat_of_nat mod_mod_cancel)

section \<open>Update\<close>

lemma ctx_hashed_put:
  "ctx_hashed c w \<Longrightarrow> length pb = 2048 \<Longrightarrow> ctx_hashed (c\<lparr>partial_block_buffer := pb\<rparr>) w"
  by (simp add: ctx_hashed_def)

lemma ctx_hashed_len: "ctx_hashed (c\<lparr>total_length := n\<rparr>) w = ctx_hashed c w"
  by (simp add: ctx_hashed_def)

lemma ctx_holds_parts:
  assumes "ctx_holds c m"
  obtains w t where "m = w @ t" "length t < 1024" "ctx_hashed c w" "take (length t) (partial_block_buffer c) = t"
    "length (partial_block_buffer c) = 2048" "unat (total_length c mod of_nat MH_SHA256_BLOCK_SIZE) = length t"
    "total_length c = of_nat (length m)"
proof -
  obtain w t where p: "m = w @ t" "length t < 1024" "ctx_hashed c w" "take (length t) (partial_block_buffer c) = t"
    "total_length c = of_nat (length m)"
    using assms by (auto simp: ctx_holds_def)
  moreover from p(1-3) have "length m mod 1024 = length t" by (auto simp: ctx_hashed_def mod_add_left_eq [symmetric])
  then have "unat (total_length c mod of_nat MH_SHA256_BLOCK_SIZE) = length t"
    using u64_mod_block [of "length m"] unfolding p(5) by (simp add: MH_SHA256_BLOCK_SIZE_def)
  ultimately show thesis using that [of w t] by (auto simp: ctx_hashed_def)
qed

lemma unat_sub_nat: "n \<le> unat (len :: u32) \<Longrightarrow> unat (len - of_nat n) = unat len - n"
  using unat_bound_u32 [of len] by (simp add: unat_sub_small unat_of_nat_word)

text \<open>The last step of an update.\<close>

lemma update_blocks_holds:
  assumes "ctx_hashed c w" "unat len \<le> length input"
  defines "c2 \<equiv> mh_update_blocks c input len"
  shows "total_length c2 = total_length c"
    "\<exists>w' t. w @ take (unat len) input = w' @ t \<and> length t < 1024 \<and> ctx_hashed c2 w' \<and>
       take (length t) (partial_block_buffer c2) = t"
proof -
  define n where "n = unat len div 1024"
  let ?x = "take (n * 1024) input" and ?t = "take (unat len mod 1024) (drop (n * 1024) input)"
  have n: "n * 1024 + unat len mod 1024 = unat len" by (simp add: n_def)
  define c1 where "c1 = (if 0 < n then ctx_blocks input n c else c)"
  define len1 where "len1 = len - of_nat (n * 1024)"
  have len1: "unat len1 = unat len mod 1024"
    using unat_sub_nat [of "n * 1024" len] n by (simp add: len1_def)
  have x: "length ?x = n * 1024" using assms(2) n by simp
  have c1: "ctx_hashed c1 (w @ ?x)" "total_length c1 = total_length c"
    using ctx_blocks_ref [OF assms(1) x, of "drop (n * 1024) input"] assms(1) by (auto simp: c1_def)
  have c2: "c2 = (if len1 \<noteq> 0
      then c1\<lparr>partial_block_buffer := memcpy_at (partial_block_buffer c1) 0 (take (unat len mod 1024) (drop (n * 1024) input))\<rparr>
      else c1)"
    using len1 n by (auto simp: c2_def mh_update_blocks_def MH_SHA256_BLOCK_SIZE_def Let_def c1_def len1_def n_def [symmetric])
  show "total_length c2 = total_length c" using c1(2) by (simp add: c2)
  have pb: "length (partial_block_buffer c1) = 2048" using c1(1) by (simp add: ctx_hashed_def)
  have t: "length ?t = unat len mod 1024" "unat len mod 1024 < 1024" using assms(2) n by simp_all
  have "ctx_hashed c2 (w @ ?x)"
    using c1(1) pb t by (auto simp: c2 intro!: ctx_hashed_put)
  moreover have "take (length ?t) (partial_block_buffer c2) = ?t"
  proof (cases "len1 = 0")
    case True
    then have "unat len mod 1024 = 0" using len1 by simp
    then show ?thesis by simp
  next
    case False
    then show ?thesis using t by (simp add: c2 memcpy_at_def)
  qed
  moreover have "take (unat len) input = ?x @ ?t" using n by (metis take_add)
  ultimately show "\<exists>w' t. w @ take (unat len) input = w' @ t \<and> length t < 1024 \<and> ctx_hashed c2 w' \<and>
       take (length t) (partial_block_buffer c2) = t"
    using t by (intro exI [of _ "w @ ?x"] exI [of _ ?t]) simp
qed

lemma update_holds:
  assumes "ctx_holds c m" "unat len \<le> length d"
  shows "\<exists>c'. mh_sha256_update_base (Some c) d len = Inr (MH_SHA256_CTX_ERROR_NONE, Some c') \<and>
    ctx_holds c' (m @ take (unat len) d)"
proof -
  from assms(1) obtain w t where p: "m = w @ t" "length t < 1024" "ctx_hashed c w"
    "take (length t) (partial_block_buffer c) = t" "length (partial_block_buffer c) = 2048"
    "unat (total_length c mod of_nat MH_SHA256_BLOCK_SIZE) = length t" "total_length c = of_nat (length m)"
    by (rule ctx_holds_parts)
  let ?pl = "total_length c mod of_nat MH_SHA256_BLOCK_SIZE"
  define c0 where "c0 = c\<lparr>total_length := total_length c + ucast len\<rparr>"
  have c0: "ctx_hashed c0 w" "partial_block_buffer c0 = partial_block_buffer c" 
    using p(3) by (simp_all add: c0_def ctx_hashed_len)
  have tl: "total_length c0 = of_nat (length (m @ take (unat len) d))"
    using p(7) assms(2) by (simp add: c0_def)
  have sum: "unat (ucast len + ?pl) = unat len + length t"
    using p(2,6) unat_bound_u32 [of len] by (subst unat_add_small) (simp_all add: unat_ucast_word)
  have lt: "ucast len + ?pl < of_nat MH_SHA256_BLOCK_SIZE \<longleftrightarrow> unat len + length t < 1024"
    unfolding word_less_nat_alt sum by (simp add: MH_SHA256_BLOCK_SIZE_def)
  have pl0: "?pl = 0 \<longleftrightarrow> t = []" using p(6) by (metis length_0_conv unat_eq_zero)
  note upd = mh_sha256_update_base_def Let_def lt pl0 p(6) c0_def [symmetric]
  consider "len = 0" | "len \<noteq> 0" "unat len + length t < 1024" | "len \<noteq> 0" "1024 \<le> unat len + length t" "t = []"
    | "len \<noteq> 0" "1024 \<le> unat len + length t" "t \<noteq> []" by linarith
  then show ?thesis
  proof cases
    case 1
    with assms(1) show ?thesis by (simp add: mh_sha256_update_base_def)
  next
    case 2
    let ?pb = "memcpy_at (partial_block_buffer c) (length t) (take (unat len) d)"
    have "ctx_hashed (c0\<lparr>partial_block_buffer := ?pb\<rparr>) w"
      using c0(1) p(2,5) 2(2) assms(2) by (intro ctx_hashed_put) simp_all
    moreover have "take (length t + unat len) ?pb = t @ take (unat len) d"
      using p(4) assms(2) 2(2) p(5) by (simp add: memcpy_at_def)
    ultimately have "ctx_holds (c0\<lparr>partial_block_buffer := ?pb\<rparr>) (m @ take (unat len) d)"
      using p(1) tl 2(2) assms(2) unfolding ctx_holds_def
      by (intro conjI exI [of _ w] exI [of _ "t @ take (unat len) d"]) simp_all
    moreover have "mh_sha256_update_base (Some c) d len = Inr (MH_SHA256_CTX_ERROR_NONE, Some (c0\<lparr>partial_block_buffer := ?pb\<rparr>))"
      using 2 assms(2) c0(2) by (simp add: upd)
    ultimately show ?thesis by blast
  next
    case 3
    then have "mh_sha256_update_base (Some c) d len = Inr (MH_SHA256_CTX_ERROR_NONE, Some (mh_update_blocks c0 d len))"
      using assms(2) by (simp add: upd)
    moreover have "ctx_holds (mh_update_blocks c0 d len) (m @ take (unat len) d)"
      using update_blocks_holds [OF c0(1) assms(2)] tl p(1) 3(3) by (simp add: ctx_holds_def)
    ultimately show ?thesis by blast
  next
    case 4
    let ?n = "1024 - length t"
    let ?pb = "memcpy_at (partial_block_buffer c) (length t) (take ?n d)"
    let ?zeroed = "memcpy_at ?pb 0 (replicate 1024 0)"
    have n: "?n \<le> unat len" "?n \<le> length d" "unat (len - of_nat ?n) = unat len - ?n"
      using 4(2) assms(2) unat_sub_nat [of ?n len] by simp_all
    have pb: "?pb = (t @ take ?n d) @ drop 1024 (partial_block_buffer c)"
      unfolding memcpy_at_def p(4) using p(2) n(2) by simp
    have pbl: "length (t @ take ?n d) = 1 * 1024" using p(2) n(2) by simp
    let ?c1 = "(ctx_blocks ?pb 1 c0)\<lparr>partial_block_buffer := ?zeroed\<rparr>"
    have h: "ctx_hashed ?c1 (w @ t @ take ?n d)"
      using ctx_blocks_ref(1) [OF c0(1) pbl, of "drop 1024 (partial_block_buffer c)"] p(2,5) n(2)
      by (intro ctx_hashed_put) (simp_all add: pb)
    have "mh_sha256_update_base (Some c) d len = Inr (MH_SHA256_CTX_ERROR_NONE, Some (mh_update_blocks ?c1 (drop ?n d) (len - of_nat ?n)))"
    proof -
      have "MH_SHA256_BLOCK_SIZE - length t = ?n" "replicate MH_SHA256_BLOCK_SIZE (0 :: u8) = replicate 1024 0"
        by (simp_all only: MH_SHA256_BLOCK_SIZE_def)
      then show ?thesis using 4 assms(2) c0(2) by (simp add: upd)
    qed
    moreover have "ctx_holds (mh_update_blocks ?c1 (drop ?n d) (len - of_nat ?n)) (m @ take (unat len) d)"
    proof -
      have "total_length ?c1 = total_length c0"
        using ctx_blocks_ref(3) [OF c0(1) pbl, of "drop 1024 (partial_block_buffer c)"] by (simp add: pb)
      moreover have "take (unat len) d = take ?n d @ take (unat len - ?n) (drop ?n d)"
        using n(1) by (simp flip: take_add)
      ultimately show ?thesis
        using update_blocks_holds [OF h, of "len - of_nat ?n" "drop ?n d"] tl p(1) assms(2) n
        unfolding ctx_holds_def n(3) by simp
    qed
    ultimately show ?thesis by blast
  qed
qed


section \<open>Finalize\<close>

lemma ctx_holds_last_block:
  assumes "ctx_hashed c w" "length x = 1024" "take 1024 pb = x"
  shows "ctx_hashed (ctx_blocks pb 1 c) (w @ x)"
  using ctx_blocks_ref(1) [OF assms(1), of x 1 "drop 1024 pb"] assms(2,3) append_take_drop_id [of 1024 pb] by simp

lemma sha256_length [simp]: "length (sha256 m) = 8"
  by (simp add: sha256_blocks)

lemma store_words_length [simp]: "length (concat (map store_u32 ws)) = 4 * length ws"
  by (induction ws) (simp_all add: store_u32_def)

lemma mh_bytes_length: "shape n rs \<Longrightarrow> length (mh_bytes rs) = n * 64"
  unfolding mh_bytes_def store_words_length
  by (induction rs arbitrary: n) (auto simp: shape_def HASH_SEGS_def)

text \<open>What the padding puts into the buffer.\<close>

lemma pad_first_block:
  assumes "length t < 1024" "take (length t) pb = t" "length pb = 2048"
  defines "pb1 \<equiv> memcpy_at (pb[length t := 0x80]) (length t + 1) (replicate (1024 - (length t + 1)) 0)"
  shows "take 1024 pb1 = t @ [0x80] @ replicate (1023 - length t) 0" "length pb1 = 2048"
proof -
  have "take (length t + 1) (pb[length t := 0x80]) = t @ [0x80]"
    using assms(1-3) by (simp add: take_Suc_conv_app_nth)
  moreover have "1024 - length t = Suc (1023 - length t)" using assms(1) by simp
  ultimately show "take 1024 pb1 = t @ [0x80] @ replicate (1023 - length t) 0"
    using assms(1) by (simp add: pb1_def memcpy_at_def)
  show "length pb1 = 2048" using assms(1,3) by (simp add: pb1_def)
qed

lemma put_length:
  assumes "take 1024 pb = xs @ ys" "length xs = 1016" "length pb = 2048" "length bs = 8"
  shows "take 1024 (memcpy_at pb 1016 bs) = xs @ bs"
proof -
  have "take 1016 pb = take 1016 (take 1024 pb)" by simp
  also have "\<dots> = xs" unfolding assms(1) using assms(2) by simp
  finally show ?thesis using assms(2-4) by (simp add: memcpy_at_def)
qed

lemma mod_block: "n < 1024 \<Longrightarrow> (2039 - n) mod (1024 :: nat) = (if n \<le> 1015 then 1015 - n else 2039 - n)"
  by (simp add: le_mod_geq)

lemma ucast_length: "(ucast (of_nat n :: u64) :: u32) = of_nat n"
  by (simp add: word_unat_eq_iff unat_ucast_word unat_of_nat mod_mod_cancel)

lemma tail_ref:
  assumes "ctx_holds c m" "length junk = 8"
  shows "\<exists>c'. mh_sha256_tail_base junk (ucast (total_length c)) c = Inr c' \<and>
    mh_sha256_digest c' = multi_hash_with (ucast (of_nat (length m) :: u32)) m"
proof -
  from assms(1) obtain w t where p: "m = w @ t" "length t < 1024" "ctx_hashed c w"
    "take (length t) (partial_block_buffer c) = t" "length (partial_block_buffer c) = 2048"
    "unat (total_length c mod of_nat MH_SHA256_BLOCK_SIZE) = length t" "total_length c = of_nat (length m)"
    by (rule ctx_holds_parts)
  define tl where "tl = (of_nat (length m) :: u32)"
  have tl: "ucast (total_length c) = tl" unfolding tl_def p(7) by (rule ucast_length)
  have tlm: "length m mod 1024 = length t"
    using p(1-3) by (auto simp: ctx_hashed_def mod_add_left_eq [symmetric])
  then have n: "unat (tl mod of_nat 1024) = length t"
    by (simp add: tl_def unat_mod_distrib unat_of_nat mod_mod_cancel)
  define lb where "lb = store_u64 (to_be64 (ucast tl * 8))"
  have lb: "lb = be_bytes64 (8 * ucast tl)" "length lb = 8"
    by (simp_all add: lb_def store_be64 mult.commute)
  define pb1 where "pb1 = memcpy_at ((partial_block_buffer c)[length t := 0x80]) (length t + 1) (replicate (1024 - (length t + 1)) 0)"
  have pb1: "take 1024 pb1 = t @ [0x80] @ replicate (1023 - length t) 0" "length pb1 = 2048"
    using pad_first_block [OF p(2,4,5)] by (simp_all add: pb1_def)
  obtain pb c1 where two: "(if length t + 1 > 1024 - 8 then (memcpy_at pb1 0 (replicate 1024 0), ctx_blocks pb1 1 c) else (pb1, c)) = (pb, c1)"
    by (metis surj_pair)
  define c2 where "c2 = (ctx_blocks (memcpy_at pb 1016 lb) 1 c1)\<lparr>partial_block_buffer := memcpy_at pb 1016 lb\<rparr>"
  have "mh_sha256_interim_digests c2 = mh_rows (segment_digest (mh_pad (ucast tl) m))"
  proof (cases "length t \<le> 1015")
    case True
    then have "pb = pb1" "c1 = c" using two by auto
    moreover have "take 1024 (memcpy_at pb1 1016 lb) = (t @ [0x80] @ replicate (1015 - length t) 0) @ lb"
      using True pb1 lb(2) by (intro put_length [where ys = "replicate 8 0"]) (simp_all flip: replicate_add)
    moreover have "mh_pad (ucast tl) m = w @ (t @ [0x80] @ replicate (1015 - length t) 0) @ lb"
      using True p(1,2) lb(1) tlm by (simp add: mh_pad_def mod_block)
    ultimately show ?thesis
      using ctx_holds_last_block [OF p(3), of "(t @ [0x80] @ replicate (1015 - length t) 0) @ lb" "memcpy_at pb1 1016 lb"] lb(2) True
      by (simp add: c2_def ctx_hashed_def)
  next
    case False
    then have pb: "pb = memcpy_at pb1 0 (replicate 1024 0)" "c1 = ctx_blocks pb1 1 c" using two by auto
    let ?x = "t @ [0x80] @ replicate (1023 - length t) 0"
    have c1: "ctx_hashed c1 (w @ ?x)" unfolding pb(2) by (rule ctx_holds_last_block [OF p(3) _ pb1(1)]) (use p(2) in simp)
    have "replicate 1024 0 = replicate 1016 (0 :: u8) @ replicate 8 0" by (simp flip: replicate_add)
    then have "take 1024 (memcpy_at pb 1016 lb) = replicate 1016 0 @ lb"
      using lb(2) pb1(2) by (intro put_length [where ys = "replicate 8 0"]) (simp_all add: pb memcpy_at_def)
    from ctx_holds_last_block [OF c1 _ this] lb(2)
    have "mh_sha256_interim_digests c2 = mh_rows (segment_digest ((w @ ?x) @ replicate 1016 0 @ lb))"
      by (simp add: c2_def ctx_hashed_def)
    moreover have "replicate (2039 - length t) (0 :: u8) = replicate (1023 - length t) 0 @ replicate 1016 0"
      using p(2) by (simp flip: replicate_add)
    then have "mh_pad (ucast tl) m = (w @ ?x) @ replicate 1016 0 @ lb"
      using False p(1,2) lb(1) tlm by (simp add: mh_pad_def mod_block)
    ultimately show ?thesis by simp
  qed
  moreover have "mh_sha256_tail_base junk tl c =
      rbind (sha256_for_mh_sha256 junk (mh_bytes (mh_sha256_interim_digests c2)) (of_nat (4 * SHA256_DIGEST_WORDS * HASH_SEGS)))
        (\<lambda>digest. Inr (c2\<lparr>mh_sha256_digest := digest\<rparr>))"
  proof -
    show ?thesis
      unfolding mh_sha256_tail_base_def Let_def n MH_SHA256_BLOCK_SIZE_def pb1_def [symmetric] two lb_def [symmetric]
      by (simp add: c2_def)
  qed
  ultimately show ?thesis
    using mh_bytes_length [OF mh_rows_shape] assms(2) unfolding tl tl_def [symmetric]
    by (simp add: sha256_code mh_consts multi_hash_with_def)
qed


lemma finalize_ref:
  assumes "ctx_holds c m" "length junk = 8" "32 \<le> length mem"
  shows "\<exists>c'. mh_sha256_finalize_base junk (Some c) (Some mem) = Inr (MH_SHA256_CTX_ERROR_NONE, Some c',
    Some (memcpy_at mem 0 (concat (map store_u32 (multi_hash_with (ucast (of_nat (length m) :: u32)) m)))))"
  using tail_ref [OF assms(1,2)] assms(3)
  by (auto simp: mh_sha256_finalize_base_def multi_hash_with_def)

section \<open>The interface\<close>

text \<open>
  What \<^verbatim>\<open>checksum.c\<close> needs of a message digest with init, update and finalise: a context holds the message it
  has been given, and the digest written at the end is a function of that message.  \<open>scratch\<close> is memory the implementation
  finds uninitialised.
\<close>

locale message_digest =
  fixes init :: "'c option \<Rightarrow> int \<times> 'c option"
    and update :: "'c option \<Rightarrow> u8 list \<Rightarrow> u32 \<Rightarrow> (int \<times> 'c option) result"
    and finalize :: "'j \<Rightarrow> 'c option \<Rightarrow> u8 list option \<Rightarrow> (int \<times> 'c option \<times> u8 list option) result"
    and holds :: "'c \<Rightarrow> u8 list \<Rightarrow> bool"
    and scratch :: "'j \<Rightarrow> bool"
    and hash :: "u8 list \<Rightarrow> u8 list"
  assumes md_init: "\<exists>c'. init (Some c) = (0, Some c') \<and> holds c' []"
    and md_update: "holds c m \<Longrightarrow> unat len \<le> length d \<Longrightarrow>
      \<exists>c'. update (Some c) d len = Inr (0, Some c') \<and> holds c' (m @ take (unat len) d)"
    and md_update_bounds: "length d < unat len \<Longrightarrow> update (Some c) d len = Inl OutOfBounds"
    and md_finalize: "holds c m \<Longrightarrow> scratch j \<Longrightarrow> length mem = length (hash m) \<Longrightarrow>
      \<exists>c'. finalize j (Some c) (Some mem) = Inr (0, Some c', Some (hash m))"
begin

text \<open>Any number of updates.\<close>

definition updates :: "u8 list list \<Rightarrow> int \<times> 'c option \<Rightarrow> (int \<times> 'c option) result" where
  "updates ds st = fold (\<lambda>d r. rbind r (\<lambda>(_, ctx). update ctx d (of_nat (length d)))) ds (Inr st)"

lemma updates_hold:
  assumes "\<forall>d \<in> set ds. length d < 2 ^ 32" "holds c m"
  shows "\<exists>c'. updates ds (0, Some c) = Inr (0, Some c') \<and> holds c' (m @ concat ds)"
  using assms
proof (induction ds arbitrary: c m)
  case (Cons d ds)
  have "unat (of_nat (length d) :: u32) = length d" using Cons.prems(1) by (simp add: unat_of_nat)
  with md_update [OF Cons.prems(2), of "of_nat (length d)" d] obtain c1 where
    "update (Some c) d (of_nat (length d)) = Inr (0, Some c1)" "holds c1 (m @ d)"
    by auto
  with Cons.IH [of c1 "m @ d"] Cons.prems(1) show ?case by (simp add: updates_def)
qed (simp add: updates_def)

lemma pieces:
  assumes "\<forall>d \<in> set ds. length d < 2 ^ 32" "scratch j" "length mem = length (hash (concat ds))"
  shows "\<exists>c'. rbind (updates ds (init (Some c))) (\<lambda>(_, ctx). finalize j ctx (Some mem)) =
    Inr (0, Some c', Some (hash (concat ds)))"
proof -
  obtain c0 where c0: "init (Some c) = (0, Some c0)" "holds c0 []" using md_init by blast
  from updates_hold [OF assms(1) c0(2)] obtain c1 where "updates ds (0, Some c0) = Inr (0, Some c1)" "holds c1 (concat ds)"
    by auto
  with md_finalize [OF _ assms(2,3)] show ?thesis by (simp add: c0(1))
qed

text \<open>One update, of a part of a buffer.\<close>

lemma one_shot:
  assumes "scratch j" "\<And>m. length mem = length (hash m)"
  shows "let (_, ctx) = init (Some c)
     in rbind (update ctx buffer len) (\<lambda>(_, ctx). rbind (finalize j ctx (Some mem)) (\<lambda>(_, _, out). Inr out)) =
       (if unat len \<le> length buffer then Inr (Some (hash (take (unat len) buffer))) else Inl OutOfBounds)"
proof -
  obtain c0 where c0: "init (Some c) = (0, Some c0)" "holds c0 []" using md_init by blast
  show ?thesis
  proof (cases "unat len \<le> length buffer")
    case True
    from md_update [OF c0(2) True] obtain c1 where
      u: "update (Some c0) buffer len = Inr (0, Some c1)" "holds c1 (take (unat len) buffer)" by auto
    from md_finalize [OF u(2) assms(1), of mem] assms(2) u(1) True show ?thesis by (auto simp: c0(1))
  next
    case False
    then show ?thesis using md_update_bounds [of buffer len c0] by (simp add: c0(1))
  qed
qed

end

text \<open>
  The multi-hash is such a digest.  Its length field is as the code computes it: \<^verbatim>\<open>mh_sha256_finalize\<close> passes the 64-bit length
  on as a 32-bit one.
\<close>

definition multi_hash_code :: "u8 list \<Rightarrow> u8 list" where
  "multi_hash_code m = concat (map store_u32 (multi_hash_with (of_nat (length m mod 2 ^ 32)) m))"

lemma multi_hash_with_length [simp]: "length (multi_hash_with n m) = 8"
  by (simp add: multi_hash_with_def)

lemma multi_hash_length [simp]: "length (multi_hash m) = 32"
  by (simp add: multi_hash_def multi_hash_with_def)

lemma multi_hash_code_length [simp]: "length (multi_hash_code m) = 32"
  by (simp add: multi_hash_code_def multi_hash_with_def)

lemma multi_hash_code_short: "length m < 2 ^ 32 \<Longrightarrow> multi_hash_code m = multi_hash m"
  by (simp add: multi_hash_code_def multi_hash_def)

interpretation mh: message_digest mh_sha256_init mh_sha256_update_base mh_sha256_finalize_base
    ctx_holds "\<lambda>junk. length junk = 8" multi_hash_code
proof (unfold_locales, goal_cases)
  case (1 c)
  then show ?case using init_holds [of c] by (simp add: MH_SHA256_CTX_ERROR_NONE_def)
next
  case (2 c m len d)
  then show ?case using update_holds [of c m len d] by (simp add: MH_SHA256_CTX_ERROR_NONE_def)
next
  case (3 d len c)
  then have "len \<noteq> 0" by auto
  with 3 show ?case by (simp add: mh_sha256_update_base_def)
next
  case (4 c m j mem)
  have "(ucast (of_nat n :: u32) :: u64) = of_nat (n mod 2 ^ 32)" for n
    by (simp add: word_unat_eq_iff unat_ucast_word unat_of_nat)
  with finalize_ref [OF 4(1,2), of mem] 4(3) show ?case
    by (auto simp: memcpy_at_def multi_hash_code_def multi_hash_with_def MH_SHA256_CTX_ERROR_NONE_def)
qed

text \<open>
  C19: however the message is cut into the pieces that are passed to \<^verbatim>\<open>mh_sha256_update\<close>, the digest written by
  \<^verbatim>\<open>mh_sha256_finalize\<close> is the multi-hash of the whole message, in which the length that the padding
  records is reduced to 32 bits.
\<close>

theorem mh_sha256_pieces:
  assumes "\<forall>d \<in> set ds. length d < 2 ^ 32" "length junk = 8" "length mem = 32"
  shows "\<exists>c'. rbind (fold (\<lambda>d r. rbind r (\<lambda>(_, ctx). mh_sha256_update_base ctx d (of_nat (length d)))) ds
        (Inr (mh_sha256_init (Some c))))
      (\<lambda>(_, ctx). mh_sha256_finalize_base junk ctx (Some mem)) =
    Inr (MH_SHA256_CTX_ERROR_NONE, Some c', Some (concat (map store_u32
      (multi_hash_with (of_nat (length (concat ds) mod 2 ^ 32)) (concat ds)))))"
  using mh.pieces [OF assms(1,2), of mem c] assms(3)
  by (simp add: mh.updates_def multi_hash_code_def MH_SHA256_CTX_ERROR_NONE_def)

definition zero_ctx :: mh_sha256_ctx where
  "zero_ctx = \<lparr>mh_sha256_digest = [], total_length = 0, partial_block_buffer = [], mh_sha256_interim_digests = [], frame_buffer = []\<rparr>"

theorem mh_sha256_pieces_witness:
  "\<exists>c'. rbind (fold (\<lambda>d r. rbind r (\<lambda>(_, ctx). mh_sha256_update_base ctx d (of_nat (length d)))) [[1, 2], [], [3]]
        (Inr (mh_sha256_init (Some zero_ctx))))
      (\<lambda>(_, ctx). mh_sha256_finalize_base (replicate 8 0) ctx (Some (replicate 32 0))) =
    Inr (MH_SHA256_CTX_ERROR_NONE, Some c', Some (multi_hash [1, 2, 3]))"
  using mh_sha256_pieces [of "[[1, 2], [], [3]]" "replicate 8 0" "replicate 32 0" zero_ctx]
  by (simp add: multi_hash_def)

section \<open>The checksum of a chunk\<close>

text \<open>
  \<^verbatim>\<open>checksum_gen\<close> as it is written; \<open>stack\<close> is what the local context holds before it is initialised.
\<close>

definition checksum_gen_calls :: "u8 list \<Rightarrow> mh_sha256_ctx \<Rightarrow> checksum \<Rightarrow> u8 list \<Rightarrow> u32 \<Rightarrow> checksum result" where
  "checksum_gen_calls junk stack checksum buffer buffer_length =
     (let (_, ctx) = mh_sha256_init (Some stack)
      in rbind (mh_sha256_update_base ctx buffer buffer_length) (\<lambda>(_, ctx).
         rbind (mh_sha256_finalize_base junk ctx (Some (bytes checksum))) (\<lambda>(_, _, out).
         Inr (case out of None \<Rightarrow> checksum | Some bs \<Rightarrow> checksum\<lparr>bytes := bs\<rparr>))))"

lemma checksum_gen_calls_ref:
  assumes "wf_checksum checksum" "length junk = 8"
  shows "checksum_gen_calls junk stack checksum buffer len =
    (if unat len \<le> length buffer then Inr (checksum_gen multi_hash buffer len) else Inl OutOfBounds)"
proof -
  have "ucast (of_nat (unat len) :: u32) = (of_nat (unat len) :: u64)" by simp
  have "length (take (unat len) buffer) < 2 ^ 32" using unat_bound_u32 [of len] by simp
  then have short: "multi_hash_code (take (unat len) buffer) = multi_hash (take (unat len) buffer)"
    by (rule multi_hash_code_short)
  have mem: "length (bytes checksum) = 32" using assms(1) by (simp add: wf_checksum_def CHECKSUM_SIZE_def)
  have "checksum_gen_calls junk stack checksum buffer len =
    rbind (let (_, ctx) = mh_sha256_init (Some stack)
      in rbind (mh_sha256_update_base ctx buffer len) (\<lambda>(_, ctx).
         rbind (mh_sha256_finalize_base junk ctx (Some (bytes checksum))) (\<lambda>(_, _, out). Inr out)))
      (\<lambda>out. Inr (case out of None \<Rightarrow> checksum | Some bs \<Rightarrow> checksum\<lparr>bytes := bs\<rparr>))"
    by (simp add: checksum_gen_calls_def case_prod_unfold rbind_assoc)
  also have "\<dots> = (if unat len \<le> length buffer then Inr (checksum_gen multi_hash buffer len) else Inl OutOfBounds)"
    using mh.one_shot [OF assms(2), of "bytes checksum" stack buffer len] mem short
    by (cases checksum) (simp add: checksum_gen_def case_prod_unfold)
  finally show ?thesis .
qed

text \<open>
  C11: \<^verbatim>\<open>checksum_gen\<close> computes the multi-hash SHA-256 of the buffer, whatever the memory it uses held before, and
  fails only if the length goes beyond the buffer.
\<close>

theorem checksum_gen_correct:
  assumes "wf_checksum checksum" "length junk = 8"
  shows "checksum_gen_calls junk stack checksum buffer len =
    (if unat len \<le> length buffer then Inr (checksum_gen multi_hash buffer len) else Inl OutOfBounds)"
  using assms by (rule checksum_gen_calls_ref)

theorem checksum_gen_correct_witness:
  "checksum_gen_calls (replicate 8 0) zero_ctx checksum_init [1, 2, 3] 3 = Inr (checksum_gen multi_hash [1, 2, 3] 3)"
  using checksum_gen_correct [of checksum_init "replicate 8 0" zero_ctx "[1, 2, 3]" 3] by simp

section \<open>The arrays keep their lengths\<close>

text \<open>The lengths the C types of the context fix.\<close>

definition wf_ctx :: "mh_sha256_ctx \<Rightarrow> bool" where
  "wf_ctx c \<longleftrightarrow> length (mh_sha256_digest c) = SHA256_DIGEST_WORDS \<and>
     length (partial_block_buffer c) = 2 * MH_SHA256_BLOCK_SIZE \<and>
     shape SHA256_DIGEST_WORDS (mh_sha256_interim_digests c) \<and> shape 16 (frame_buffer c)"

lemma block_base_shape:
  assumes "shape 8 (fst st)" "shape 16 (snd st)"
  shows "shape 8 (fst (mh_sha256_block_base input st n)) \<and> shape 16 (snd (mh_sha256_block_base input st n))"
  using assms
proof (induction n arbitrary: input st)
  case (Suc n)
  obtain frame' where f: "shape 16 frame'" "mh_sha256_single input (fst st, snd st) =
    (mh_rows (\<lambda>s. sha_compress (col s (fst st)) (mh_segment s input)), frame')"
    using mh_single_ref [OF Suc.prems] .
  then have "shape 8 (fst (mh_sha256_single input st))" "shape 16 (snd (mh_sha256_single input st))" by simp_all
  from Suc.IH [OF this] show ?case by simp
qed simp

lemma ctx_blocks_wf: "wf_ctx c \<Longrightarrow> wf_ctx (ctx_blocks input n c)"
  using block_base_shape [of "(mh_sha256_interim_digests c, frame_buffer c)" input n]
  by (simp add: wf_ctx_def ctx_blocks_def case_prod_unfold SHA256_DIGEST_WORDS_def Let_def)

lemma wf_ctx_fields [simp]:
  "wf_ctx (c\<lparr>total_length := n\<rparr>) = wf_ctx c"
  "wf_ctx c \<Longrightarrow> wf_ctx (c\<lparr>partial_block_buffer := pb\<rparr>) \<longleftrightarrow> length pb = 2048"
  by (simp_all add: wf_ctx_def MH_SHA256_BLOCK_SIZE_def)

lemma wf_ctx_pb: "wf_ctx c \<Longrightarrow> length (partial_block_buffer c) = 2048"
  by (simp add: wf_ctx_def MH_SHA256_BLOCK_SIZE_def)

lemma update_blocks_wf:
  assumes "wf_ctx c" "unat len \<le> length input"
  shows "wf_ctx (mh_update_blocks c input len)"
proof -
  have n: "unat len div 1024 * 1024 \<le> unat len" by simp
  have "unat (len - of_nat (unat len div 1024 * 1024)) = unat len mod 1024"
    using unat_sub_nat [OF n] by (simp add: minus_div_mult_eq_mod)
  then have le: "unat (len - of_nat (unat len div 1024 * 1024)) \<le> 1024" by simp
  have "length (take (unat len) input) \<le> 1024" if "\<not> 0 < unat len div 1024" using that by simp
  then show ?thesis
    using assms(1) ctx_blocks_wf [OF assms(1)] le wf_ctx_pb [OF assms(1)] wf_ctx_pb [OF ctx_blocks_wf [OF assms(1)]]
    by (auto simp: mh_update_blocks_def Let_def MH_SHA256_BLOCK_SIZE_def memcpy_at_length)
qed

lemma update_wf:
  assumes "wf_ctx c" "unat len \<le> length buffer"
  shows "\<exists>c'. mh_sha256_update_base (Some c) buffer len = Inr (MH_SHA256_CTX_ERROR_NONE, Some c') \<and> wf_ctx c'"
proof -
  let ?pl = "unat (total_length c mod of_nat MH_SHA256_BLOCK_SIZE)"
  have pl: "?pl < 1024" by (simp add: MH_SHA256_BLOCK_SIZE_def unat_mod_distrib)
  have sum: "unat (ucast len + total_length c mod of_nat MH_SHA256_BLOCK_SIZE) = unat len + ?pl"
    using pl unat_bound_u32 [of len] by (subst unat_add_small) (simp_all add: unat_ucast_word)
  have lt: "ucast len + total_length c mod of_nat MH_SHA256_BLOCK_SIZE < of_nat MH_SHA256_BLOCK_SIZE \<longleftrightarrow> unat len + ?pl < 1024"
    unfolding word_less_nat_alt sum by (simp add: MH_SHA256_BLOCK_SIZE_def)
  define c0 where "c0 = c\<lparr>total_length := total_length c + ucast len\<rparr>"
  have c0: "wf_ctx c0" "partial_block_buffer c0 = partial_block_buffer c" using assms(1) by (simp_all add: c0_def)
  note pb = wf_ctx_pb [OF assms(1)]
  let ?n = "1024 - ?pl"
  let ?joined = "memcpy_at (partial_block_buffer c) ?pl (take ?n buffer)"
  have rest: "wf_ctx (mh_update_blocks (ctx_blocks ?joined 1 c0\<lparr>partial_block_buffer := memcpy_at ?joined 0 (replicate 1024 0)\<rparr>)
      (drop ?n buffer) (len - of_nat ?n))" if "1024 \<le> unat len + ?pl"
    using that c0 pb pl assms(2) unat_sub_nat [of ?n len] by (intro update_blocks_wf) (simp_all add: ctx_blocks_wf)
  have k: "MH_SHA256_BLOCK_SIZE - ?pl = ?n" "replicate MH_SHA256_BLOCK_SIZE (0 :: u8) = replicate 1024 0"
    by (simp_all only: MH_SHA256_BLOCK_SIZE_def)
  show ?thesis
    using assms c0 pb pl rest update_blocks_wf [OF c0(1) assms(2)]
    by (auto simp: mh_sha256_update_base_def Let_def lt k c0_def [symmetric])
qed

text \<open>
  C31: whatever a well-typed context holds, an update or a finalisation within its buffers succeeds, stays inside the
  arrays and leaves a well-typed context; the output keeps its length.
\<close>

theorem mh_sha256_typed:
  assumes "wf_ctx c" "length junk = 8"
  shows "(\<forall>buffer len. unat len \<le> length buffer \<longrightarrow>
       (\<exists>c'. mh_sha256_update_base (Some c) buffer len = Inr (MH_SHA256_CTX_ERROR_NONE, Some c') \<and> wf_ctx c')) \<and>
     (\<forall>mem. 32 \<le> length mem \<longrightarrow>
       (\<exists>c' mem'. mh_sha256_finalize_base junk (Some c) (Some mem) = Inr (MH_SHA256_CTX_ERROR_NONE, Some c', Some mem') \<and>
          wf_ctx c' \<and> length mem' = length mem))"
proof (intro conjI allI impI)
  show "\<exists>c'. mh_sha256_update_base (Some c) buffer len = Inr (MH_SHA256_CTX_ERROR_NONE, Some c') \<and> wf_ctx c'"
    if "unat len \<le> length buffer" for buffer len by (rule update_wf [OF assms(1) that])
next
  fix mem :: "u8 list" assume mem: "32 \<le> length mem"
  let ?tl = "ucast (total_length c) :: u32"
  define n where "n = unat (?tl mod of_nat 1024)"
  have n: "n < 1024" by (simp add: n_def unat_mod_distrib)
  note pb = wf_ctx_pb [OF assms(1)]
  define pb1 where "pb1 = memcpy_at ((partial_block_buffer c)[n := 0x80]) (n + 1) (replicate (1024 - (n + 1)) 0)"
  have pb1: "length pb1 = 2048" using n pb by (simp add: pb1_def)
  obtain pb2 c1 where two: "(if n + 1 > 1024 - 8 then (memcpy_at pb1 0 (replicate 1024 0), ctx_blocks pb1 1 c) else (pb1, c)) = (pb2, c1)"
    by (metis surj_pair)
  then have c1: "wf_ctx c1" "length pb2 = 2048" using assms(1) ctx_blocks_wf pb1 by (auto split: if_splits)
  define pb3 where "pb3 = memcpy_at pb2 1016 (store_u64 (to_be64 (ucast ?tl * 8)))"
  have pb3: "length pb3 = 2048" using c1(2) by (simp add: pb3_def store_be64)
  define c2 where "c2 = (ctx_blocks pb3 1 c1)\<lparr>partial_block_buffer := pb3\<rparr>"
  have c2: "wf_ctx c2" using ctx_blocks_wf [OF c1(1)] pb3 by (simp add: c2_def)
  then have bytes: "length (mh_bytes (mh_sha256_interim_digests c2)) = 512"
    using mh_bytes_length [of 8] by (simp add: wf_ctx_def SHA256_DIGEST_WORDS_def)
  have "mh_sha256_tail_base junk ?tl c =
      rbind (sha256_for_mh_sha256 junk (mh_bytes (mh_sha256_interim_digests c2)) (of_nat (4 * SHA256_DIGEST_WORDS * HASH_SEGS)))
        (\<lambda>digest. Inr (c2\<lparr>mh_sha256_digest := digest\<rparr>))"
    unfolding mh_sha256_tail_base_def Let_def MH_SHA256_BLOCK_SIZE_def n_def [symmetric] pb1_def [symmetric] two
    by (simp add: c2_def pb3_def)
  also have "\<dots> = Inr (c2\<lparr>mh_sha256_digest := sha256 (mh_bytes (mh_sha256_interim_digests c2))\<rparr>)"
    using assms(2) bytes by (simp add: sha256_code mh_consts)
  finally show "\<exists>c' mem'. mh_sha256_finalize_base junk (Some c) (Some mem) = Inr (MH_SHA256_CTX_ERROR_NONE, Some c', Some mem') \<and>
      wf_ctx c' \<and> length mem' = length mem"
    using mem c2 by (simp add: mh_sha256_finalize_base_def wf_ctx_def SHA256_DIGEST_WORDS_def)
qed

theorem mh_sha256_typed_witness:
  "\<exists>c c'. mh_sha256_init (Some zero_ctx) = (MH_SHA256_CTX_ERROR_NONE, Some c) \<and>
     mh_sha256_update_base (Some c) [1, 2, 3] 3 = Inr (MH_SHA256_CTX_ERROR_NONE, Some c') \<and> wf_ctx c'"
proof -
  obtain c where c: "mh_sha256_init (Some zero_ctx) = (MH_SHA256_CTX_ERROR_NONE, Some c)" "wf_ctx c"
    by (auto simp: mh_sha256_init_def wf_ctx_def shape_def for_segs_def mh_consts)
  have "unat (3 :: u32) \<le> length [1, 2, 3 :: u8]" by simp
  with mh_sha256_typed [OF c(2), of "replicate 8 0"] c(1) show ?thesis by fastforce
qed

end
