(* ===== verification/Sha256_Vector.thy ===== *)
theory Sha256_Vector
  imports Sha256
begin

text \<open>
  The published test vector of the secure hash standard: the reference of \<^verbatim>\<open>Sha256\<close>, and with it the code of the library, maps the
  message \<open>abc\<close> to the digest that is printed there.  Evaluated by rewriting, sixteen rounds at a time.
\<close>

section \<open>Evaluating a round\<close>

text \<open>A sum of word numerals is brought below \<open>2 ^ 32\<close> before it is used again.\<close>

definition reduced :: "u32 \<Rightarrow> u32" where
  "reduced x = x"

lemma of_nat_mod_u32: "(of_nat (k mod 4294967296) :: u32) = of_nat k"
  by (simp add: word_unat_eq_iff unat_of_nat)

lemma reduced_numeral [simp]:
  "reduced (numeral n) = of_nat (numeral n mod 4294967296)" "reduced 0 = 0" "reduced 1 = 1"
  by (simp_all only: reduced_def of_nat_mod_u32 of_nat_numeral)

lemmas sha_word_defs = sha_S0_def sha_S1_def sha_s0_def sha_s1_def sha_ch_def sha_maj_def ror32_def

lemma round_reduced:
  "sha_round k w [a, b, c, d, e, f, g, h] =
     (let t1 = reduced (h + sha_s1 e + sha_ch e f g + k + w); t2 = sha_s0 a + sha_maj a b c
      in [reduced (t1 + t2), a, b, c, reduced (d + t1), e, f, g])"
  by (simp add: reduced_def Let_def)

definition sha_rounds :: "u32 list \<Rightarrow> u32 list \<Rightarrow> u32 list \<Rightarrow> u32 list" where
  "sha_rounds ks ws st = fold (\<lambda>(k, w). sha_round k w) (zip ks ws) st"

lemma rounds_step: "sha_round k w st = st1 \<Longrightarrow> sha_rounds ks ws st1 = r \<Longrightarrow> sha_rounds (k # ks) (w # ws) st = r"
  by (simp add: sha_rounds_def)

lemma rounds_end: "sha_rounds [] [] st = st"
  by (simp add: sha_rounds_def)

lemma rounds_append:
  "sha_rounds ks ws st = st1 \<Longrightarrow> length ks = length ws \<Longrightarrow> sha_rounds ks' ws' st1 = r \<Longrightarrow>
     sha_rounds (ks @ ks') (ws @ ws') st = r"
  by (simp add: sha_rounds_def)

lemma compress_rounds:
  assumes "length (sha_schedule m 48) = 64"
  shows "sha_compress h m = map2 (+) h (sha_rounds sha256_k (sha_schedule m 48) h)"
proof -
  have "zip sha256_k (sha_schedule m 48) = map (\<lambda>t. (sha256_k ! t, sha_schedule m 48 ! t)) [0..<64]"
    using assms by (intro nth_equalityI) (simp_all add: sha256_k_def)
  then show ?thesis by (simp add: sha_compress_def sha_rounds_def fold_map comp_def Let_def)
qed

lemma schedule_shift:
  "length m = 16 \<Longrightarrow> length w = 16 \<Longrightarrow> sha_schedule m a = xs @ w \<Longrightarrow> sha_schedule m (a + b) = xs @ sha_schedule w b"
proof (induction b)
  case (Suc b)
  have "length xs = a" using arg_cong [OF Suc.prems(3), of length] Suc.prems(1,2) by simp
  then show ?case using Suc by (simp add: Let_def nth_append add.commute)
qed simp

lemma schedule_step:
  "reduced (w0 + sha_S0 w1 + w9 + sha_S1 w14) = x \<Longrightarrow>
     sha_schedule [w1, w2, w3, w4, w5, w6, w7, w8, w9, w10, w11, w12, w13, w14, w15, x] n = r \<Longrightarrow>
     sha_schedule [w0, w1, w2, w3, w4, w5, w6, w7, w8, w9, w10, w11, w12, w13, w14, w15] (Suc n) = w0 # r"
  using schedule_shift [of "[w0, w1, w2, w3, w4, w5, w6, w7, w8, w9, w10, w11, w12, w13, w14, w15]"
      "[w1, w2, w3, w4, w5, w6, w7, w8, w9, w10, w11, w12, w13, w14, w15, x]" 1 "[w0]" n]
  by (simp add: Let_def reduced_def)

lemma sixteen: "16 = Suc (Suc (Suc (Suc (Suc (Suc (Suc (Suc (Suc (Suc (Suc (Suc (Suc (Suc (Suc (Suc 0)))))))))))))))"
  by simp

lemma schedule_parts:
  assumes "length p0 = 16" "length p1 = 16" "length p2 = 16"
    and "sha_schedule p0 16 = p0 @ p1" "sha_schedule p1 16 = p1 @ p2" "sha_schedule p2 16 = p2 @ p3"
  shows "sha_schedule p0 48 = p0 @ p1 @ p2 @ p3"
  using schedule_shift [OF assms(1,2,4), of 32] schedule_shift [OF assms(2,3,5), of 16] assms(6) by simp

section \<open>The block of the message\<close>

lemma pad_abc: "sha_pad 64 [0x61, 0x62, 0x63] = [0x61, 0x62, 0x63, 0x80] @ replicate 52 0 @ [0, 0, 0, 0, 0, 0, 0, 24]"
  by (simp add: sha_pad_def be_bytes64_def)

definition abc_words :: "u32 list" where
  "abc_words = [0x61626380, 0, 0, 0, 0, 0, 0, 0, 0, 0, 0, 0, 0, 0, 0, 24]"

lemma words_abc: "block_words (sha_pad 64 [0x61, 0x62, 0x63]) = abc_words"
  unfolding pad_abc by code_simp

definition abc_schedule0 :: "u32 list" where
  "abc_schedule0 =
    [0x61626380, 0x00000000, 0x00000000, 0x00000000, 0x00000000, 0x00000000, 0x00000000, 0x00000000,
    0x00000000, 0x00000000, 0x00000000, 0x00000000, 0x00000000, 0x00000000, 0x00000000, 0x00000018]"

definition abc_schedule1 :: "u32 list" where
  "abc_schedule1 =
    [0x61626380, 0x000f0000, 0x7da86405, 0x600003c6, 0x3e9d7b78, 0x0183fc00, 0x12dcbfdb, 0xe2e2c38e,
    0xc8215c1a, 0xb73679a2, 0xe5bc3909, 0x32663c5b, 0x9d209d67, 0xec8726cb, 0x702138a4, 0xd3b7973b]"

definition abc_schedule2 :: "u32 list" where
  "abc_schedule2 =
    [0x93f5997f, 0x3b68ba73, 0xaff4ffc1, 0xf10a5c62, 0x0a8b3996, 0x72af830a, 0x9409e33e, 0x24641522,
    0x9f47bf94, 0xf0a64f5a, 0x3e246a79, 0x27333ba3, 0x0c4763f2, 0x840abf27, 0x7a290d5d, 0x065c43da]"

definition abc_schedule3 :: "u32 list" where
  "abc_schedule3 =
    [0xfb3e89cb, 0xcc7617db, 0xb9e66c34, 0xa9993667, 0x84badedd, 0xc21462bc, 0x1487472c, 0xb20f7a99,
    0xef57b9cd, 0xebe6b238, 0x9fe3095e, 0x78bc8d4b, 0xa43fcf15, 0x668b2ff8, 0xeeaba2cc, 0x12b1edeb]"

lemmas abc_schedule_defs = abc_schedule0_def abc_schedule1_def abc_schedule2_def abc_schedule3_def

lemma abc_words_schedule: "abc_words = abc_schedule0"
  by (simp add: abc_words_def abc_schedule0_def)

lemma schedule_abc0: "sha_schedule abc_schedule0 16 = abc_schedule0 @ abc_schedule1"
  unfolding abc_schedule0_def abc_schedule1_def sixteen append.simps
  by (rule schedule_step, simp add: sha_word_defs)+ (rule sha_schedule.simps)

lemma schedule_abc1: "sha_schedule abc_schedule1 16 = abc_schedule1 @ abc_schedule2"
  unfolding abc_schedule1_def abc_schedule2_def sixteen append.simps
  by (rule schedule_step, simp add: sha_word_defs)+ (rule sha_schedule.simps)

lemma schedule_abc2: "sha_schedule abc_schedule2 16 = abc_schedule2 @ abc_schedule3"
  unfolding abc_schedule2_def abc_schedule3_def sixteen append.simps
  by (rule schedule_step, simp add: sha_word_defs)+ (rule sha_schedule.simps)

lemma schedule_abc:
  "sha_schedule abc_words 48 = abc_schedule0 @ abc_schedule1 @ abc_schedule2 @ abc_schedule3"
  unfolding abc_words_schedule
  by (rule schedule_parts [OF _ _ _ schedule_abc0 schedule_abc1 schedule_abc2]) (simp_all add: abc_schedule_defs)

section \<open>The rounds\<close>

definition abc_state1 :: "u32 list" where
  "abc_state1 =
    [0xb0fa238e, 0xc0645fde, 0xd932eb16, 0x87912990, 0x07590dcd, 0x0b92f20c, 0x745a48de, 0x1e578218]"

definition abc_state2 :: "u32 list" where
  "abc_state2 =
    [0x73b33bf5, 0xea992a22, 0xa0060b30, 0x363482c9, 0xba591112, 0x0109ab3a, 0xade79437, 0x6112a3b7]"

definition abc_state3 :: "u32 list" where
  "abc_state3 =
    [0x4172328d, 0xa14c14b0, 0x72ab4b91, 0x26628815, 0xfecf0bc6, 0xd57b94a9, 0xb7755da1, 0xa80f11f0]"

definition abc_state4 :: "u32 list" where
  "abc_state4 =
    [0x506e3058, 0xd39a2165, 0x04d24d6c, 0xb85e2ce9, 0x5ef50f24, 0xfb121210, 0x948d25b6, 0x961f4894]"

text \<open>The constants of the rounds, in four parts.\<close>

definition sha256_k_part :: "nat \<Rightarrow> u32 list" where
  "sha256_k_part i = take 16 (drop (16 * i) sha256_k)"

lemma sha256_k_parts: "sha256_k = sha256_k_part 0 @ sha256_k_part 1 @ sha256_k_part 2 @ sha256_k_part 3"
  by (simp add: sha256_k_part_def sha256_k_def)

lemma rounds_abc0: "sha_rounds (sha256_k_part 0) abc_schedule0 MH_SHA256_H = abc_state1"
  apply (simp add: sha256_k_part_def sha256_k_def)
  unfolding abc_schedule0_def MH_SHA256_H_def abc_state1_def
  by (rule rounds_step, simp add: round_reduced sha_word_defs Let_def del: sha_round.simps)+ (rule rounds_end)

lemma rounds_abc1: "sha_rounds (sha256_k_part 1) abc_schedule1 abc_state1 = abc_state2"
  apply (simp add: sha256_k_part_def sha256_k_def)
  unfolding abc_schedule1_def abc_state1_def abc_state2_def
  by (rule rounds_step, simp add: round_reduced sha_word_defs Let_def del: sha_round.simps)+ (rule rounds_end)

lemma rounds_abc2: "sha_rounds (sha256_k_part 2) abc_schedule2 abc_state2 = abc_state3"
  apply (simp add: sha256_k_part_def sha256_k_def)
  unfolding abc_schedule2_def abc_state2_def abc_state3_def
  by (rule rounds_step, simp add: round_reduced sha_word_defs Let_def del: sha_round.simps)+ (rule rounds_end)

lemma rounds_abc3: "sha_rounds (sha256_k_part 3) abc_schedule3 abc_state3 = abc_state4"
  apply (simp add: sha256_k_part_def sha256_k_def)
  unfolding abc_schedule3_def abc_state3_def abc_state4_def
  by (rule rounds_step, simp add: round_reduced sha_word_defs Let_def del: sha_round.simps)+ (rule rounds_end)

section \<open>The vector\<close>

lemma sha256_abc:
  "sha256 [0x61, 0x62, 0x63] =
    [0xba7816bf, 0x8f01cfea, 0x414140de, 0x5dae2223, 0xb00361a3, 0x96177a9c, 0xb410ff61, 0xf20015ad]"
proof -
  have "length (sha_schedule abc_words 48) = 64"
    by (simp add: schedule_abc abc_schedule_defs)
  have r: "sha_rounds sha256_k (sha_schedule abc_words 48) MH_SHA256_H = abc_state4"
    unfolding sha256_k_parts schedule_abc
    by (intro rounds_append [OF rounds_abc0] rounds_append [OF rounds_abc1] rounds_append [OF rounds_abc2] rounds_abc3)
      (simp_all add: sha256_k_part_def sha256_k_def abc_schedule_defs)
  have "sha256 [0x61, 0x62, 0x63] = sha_compress MH_SHA256_H abc_words"
    using words_abc by (simp add: sha256_def pad_abc)
  also have "\<dots> = map2 (+) MH_SHA256_H abc_state4"
    using compress_rounds [OF \<open>length _ = _\<close>, of MH_SHA256_H] r by simp
  finally show ?thesis by (simp add: MH_SHA256_H_def abc_state4_def)
qed

text \<open>The code on the same message, whatever its local buffer held.\<close>

lemma sha256_code_abc:
  assumes "length junk = 8"
  shows "sha256_for_mh_sha256 junk [0x61, 0x62, 0x63] 3 =
    Inr [0xba7816bf, 0x8f01cfea, 0x414140de, 0x5dae2223, 0xb00361a3, 0x96177a9c, 0xb410ff61, 0xf20015ad]"
  using sha256_code [OF assms, of "[0x61, 0x62, 0x63]" 3] by (simp add: sha256_abc)

end
