(* ===== verification/Spec2Isabelle.thy ===== *)
theory Spec2Isabelle
  imports Life_Cycle Cell_Sizes Cell_Limits Cache_Crash Xmalloc Mh_Sha256_Correct Sha256_Vector
begin

text \<open>
  A model of \<^verbatim>\<open>theo\<close>, a chunk cache in C (all of \<^verbatim>\<open>src/src/theo\<close>), with the theorems that make it correct.

  The program.  A stream of bytes is cut into chunks at positions that depend on the contents
  (\<^verbatim>\<open>chunker.c\<close>, on the rolling hash of the vendored ISA-L library); every chunk is named by a checksum and
  put into a cache, unless it is known there (\<^verbatim>\<open>chunk_streamer.c\<close>).  The cache is a memory-mapped file
  (\<^verbatim>\<open>cache_manager.c\<close>, \<^verbatim>\<open>msys.c\<close>) that is divided into cells of one megabyte (\<^verbatim>\<open>cache.c\<close>); the checksum selects the
  cell.  A cell (\<^verbatim>\<open>cell.c\<close>) is a ring buffer of chunks (\<^verbatim>\<open>cell_body.c\<close>) that grows upwards from the start of its slab, and a
  header (\<^verbatim>\<open>cell_header.c\<close>) at the end of the slab with a hash directory of 256 blocks (\<^verbatim>\<open>cell_dir.c\<close>,
  \<^verbatim>\<open>cell_dir_block.c\<close>), whose overflow area (\<^verbatim>\<open>cell_dir_overflow.c\<close>) grows downwards into the body.  When a cell is full,
  old chunks are evicted from the directory and overwritten.  A cell is guarded by a mutex, and by two
  crash-detection words (\<^verbatim>\<open>cell_ic.c\<close>) that tell after a restart whether an update was interrupted.

  The theories, bottom up.

  \<^item> \<^verbatim>\<open>Theo_Prelude\<close>: words of the C widths, byte memory, the result type with \<^verbatim>\<open>ALWAYS\<close> of \<^verbatim>\<open>msys.h\<close> as a branch.
  \<^item> \<^verbatim>\<open>Checksum\<close>, \<^verbatim>\<open>Chunk\<close>, \<^verbatim>\<open>Cell_IC\<close>: plain data and their operations.
  \<^item> \<^verbatim>\<open>Cell_Dir_Entry\<close>, \<^verbatim>\<open>Cell_Dir_Block\<close>, \<^verbatim>\<open>Cell_Dir_Overflow\<close>, \<^verbatim>\<open>Cell_Dir\<close>: the directory.  Packed structs have an
    encoding into bytes and a decoding, with round trips; the overflow area is real memory below the header.
    The directory refines a finite map from checksums to offsets (locale and interpretation in \<^verbatim>\<open>Cell_Dir\<close>).
  \<^item> \<^verbatim>\<open>Cell_Body_Entry\<close>, \<^verbatim>\<open>Cell_Header\<close>, \<^verbatim>\<open>Cell_Body\<close>: the structs, the counters and every function of
    \<^verbatim>\<open>cell_body.c\<close>, on the bytes of the slab.
  \<^item> \<^verbatim>\<open>Cell_Ring\<close>, \<^verbatim>\<open>Cell_Ring_Steps\<close>, \<^verbatim>\<open>Cell_Body_Correct\<close>, \<^verbatim>\<open>Cell_Body_Evict\<close>, \<^verbatim>\<open>Cell_Body_Offset\<close>, \<^verbatim>\<open>Cell_Body_Add\<close>: the
    invariant of the ring (a list of entries with their offsets, back pointers, a hole and the top marker, in
    step with directory and counters), and its preservation by each operation and branch.
  \<^item> \<^verbatim>\<open>Cell\<close>, \<^verbatim>\<open>Cell_Store\<close>: the operations of \<^verbatim>\<open>cell.c\<close> under the lock; the interface \<open>chunk_store\<close>, a locale that
    says what a store of chunks promises (a partial map that may forget), and its interpretation
    by the cell; start, restart and crash recovery; the reachable states.
  \<^item> \<^verbatim>\<open>Cell_Spill\<close>, \<^verbatim>\<open>Cell_Fifo\<close>, \<^verbatim>\<open>Cell_Limits\<close>: when exactly the overflow area grows; on chunks of one size the cell is a first-in
    first-out buffer, with the exact position of everything; from there, runs from a blank slab that end in an
    addition that stores nothing although it reports success, and in one that aborts the process.
  \<^item> \<^verbatim>\<open>Cell_Sizes\<close>: chunks beyond the 15 bits of the size field, which are accepted and come back cut off, and the assertion that fails when
    the only entry of a cell is removed.
  \<^item> \<^verbatim>\<open>Cell_Room\<close>: a cell that never was full only grows (\<open>growing\<close>), so that every addition that fits is stored and nothing is lost; from
    there to the cache, to a list of chunks, and to the cache that is opened again.
  \<^item> \<^verbatim>\<open>Cache\<close>: the array of cells is a \<open>chunk_store\<close> again; metrics; opening a new or a damaged buffer;
    integrity of what lookups return.
  \<^item> \<^verbatim>\<open>Cell_Meta\<close>, \<^verbatim>\<open>Cache_Threads\<close>, \<^verbatim>\<open>Cache_Crash\<close>: several threads.  \<^verbatim>\<open>Cell_Meta\<close> shows that the body leaves lock and integrity
    code alone in any state; \<^verbatim>\<open>Cache_Threads\<close> cuts every operation of \<^verbatim>\<open>cell.c\<close> into the steps between lock and unlock
    (\<open>micro\<close>, shown to compose to the operation), runs threads on the cells as a step relation (\<open>sys_step\<close>) and shows every interleaving to
    be a run of whole operations; \<^verbatim>\<open>Cache_Crash\<close> has the absence of deadlock, how every run ends (all requests answered and all
    locks free), and what is left when the machine stops at any step.
  \<^item> \<^verbatim>\<open>Msys\<close>, \<^verbatim>\<open>Cache_Manager\<close>: the file under the cache, with the operating system as a parameter (the record
    \<open>os\<close>); the manager is the third interpretation of \<open>chunk_store\<close>.  \<open>file_contract\<close> is what the manual pages say of one file and the
    offset of its descriptor; from that follows the size of the file that is mapped.
  \<^item> \<^verbatim>\<open>Xmalloc\<close>: \<^verbatim>\<open>xmalloc.c\<close> on a heap of allocated blocks, and \<^verbatim>\<open>cache_init\<close>, \<^verbatim>\<open>cache_release\<close> and \<^verbatim>\<open>cache_manager_create_file\<close> with
    it; nothing leaks and nothing is freed twice.
  \<^item> \<^verbatim>\<open>Sha256\<close>, \<^verbatim>\<open>Mh_Sha256\<close>, \<^verbatim>\<open>Mh_Sha256_Correct\<close>: the digest of the vendored ISA-L library in its portable version: SHA-256 against
    the function of the standard, the sixteen segments that are hashed in step against one segment at a time, init, update
    and finalise against the multi-hash of the whole message (locale \<open>message_digest\<close> and its interpretation), and
    \<^verbatim>\<open>checksum_gen\<close> with its calls.  \<^verbatim>\<open>Sha256_Vector\<close> evaluates the reference and the code on the published test message.
  \<^item> \<^verbatim>\<open>Rolling_Hash\<close>, \<^verbatim>\<open>Chunker\<close>: \<^verbatim>\<open>rolling_hash2.c\<close> with its table against a hash computed from scratch for every
    window; \<^verbatim>\<open>chunker.c\<close> against the reference cut \<open>chunk_cut\<close>.
  \<^item> \<^verbatim>\<open>Chunk_Streamer\<close>: the loop of \<^verbatim>\<open>chunk_streamer.c\<close> against the recursion \<open>split_chunks\<close>/\<open>store_chunks\<close>, as a client of
    the interface.
  \<^item> \<^verbatim>\<open>Life_Cycle\<close>: the whole program as a state machine (\<open>life\<close>): a file is created, opened, streamed into, read, released or abandoned
    in a crash, and opened again with damaged slabs.  A stream of up to 985000 bytes (\<open>STREAM_MAX\<close>) is kept without loss, and is there again after
    the file was closed or its process killed; in every reachable state lookups return what was filed under the checksum, and no call does worse than fail in an
    assertion.  At the end of this theory the same with the real digest.

  Bounds.  The correctness of the cell is proved for chunks of 214 to 32732 bytes (\<open>MIN_ENTRY\<close>, \<open>MAX_ENTRY\<close>) and
  slabs of 291000 bytes to one megabyte (\<open>ok_geometry\<close>).  The chunker produces 2049 to 24576 bytes and the cache
  uses slabs of one megabyte, so both lie inside.  The lower bound keeps the number of entries, and with it
  the 12-bit overflow counter of a directory block, below 4096; the upper bound keeps the size of the free entry that is left
  when several entries are replaced within the 15-bit size field.  The slab size is what the eviction loop needs to find an entry
  below the top at all.  \<open>STREAM_MAX\<close> is what fits into one cell whatever the chunks are: the cache spreads them by their checksums, so that
  all may go to one cell, each costs at most 72 bytes of headers, and there is one for every 2049 bytes of the stream.

  Loops.  The eviction loop of \<^verbatim>\<open>cell_body_add_offset\<close> decreases the distance to the end of the slab, and the model
  proves that it stays inside the ring.  The loops of \<^verbatim>\<open>create_file\<close> and of the streamer, which the code does not
  bound, are partial functions, \<open>None\<close> being that they never return: the streamer always returns, and so
  does \<^verbatim>\<open>create_file\<close> unless the device keeps writing nothing.

  The digest is the parameter \<open>mh_sha256\<close> of the chunker and the streamer, which use nothing but the length of its result; at the end of
  this theory it is the real one.  The steps of the threads are \<^verbatim>\<open>cell_add_chunk\<close>, \<^verbatim>\<open>cell_has_chunk\<close>, \<^verbatim>\<open>cell_get_chunk\<close> and one round of
  \<^verbatim>\<open>cache_get_metrics\<close>; the work on the body is one step, because only the holder of the lock sees it, but a crash may
  leave any bytes of it behind.

  Not modelled.  System calls are the parameter \<open>os\<close>; what a crash leaves of a mapped page is
  represented by the damaged slabs of \<open>image_of\<close> and \<open>crash_image\<close>.  Memory barriers are the order of the steps, so
  reorderings by the hardware that the barriers do not exclude are not covered.  \<^verbatim>\<open>malloc\<close> is a parameter.  The
  versions of the block function for SSE, AVX, AVX2 and AVX-512 are assembly; the library calls them in place of the portable one.
  The unit tests, the vendored libraries beyond the rolling hash and the digest, and the build are left aside.
\<close>

section \<open>From the stream to the lookup\<close>

lemma streamed_found:
  assumes "streamer_ready s" "wf_digest mh" "unat n \<le> length bs"
    and "\<forall>ck d. mgr_map (streamer_manager s) ck = Some d \<longrightarrow> ck = digest mh d"
    and "chunk_streamer_process_buffer mh s (Some bs) n = Some (Inr (ret, s'))"
    and "wf_checksum ck" "wf_chunk ch"
    and "cache_manager_get_chunk (streamer_manager s') ck ch = Inr (True, mgr', ch')"
  shows "ck = digest mh (chunk_data ch') \<and> ch_checksum ch' = ck \<and> mgr' = streamer_manager s'"
proof -
  obtain ds rest where sp: "split_chunks (take (unat n) bs) = (ds, rest)" by (metis surj_pair)
  have sized: "\<forall>d \<in> set ds. chunk_sized d" using split_chunks_parts [of "take (unat n) bs"] sp by simp
  have inv: "mgr_inv (streamer_manager s)" using assms(1) by (simp add: streamer_ready_def)
  let ?P = "\<lambda>ck d. ck = digest mh d"
  from process_streams [OF assms(1,3), of mh] assms(5) sp obtain s1 c where
    s1: "store_chunks mh s ds = Inr s1" "s' = s1\<lparr>streamer_chunker := c\<rparr>"
    by (auto simp: streams_to_def split: sum.splits)
  have "managers.holds_only ?P (streamer_manager s)" using assms(4) by (simp add: managers.holds_only_def)
  with store_chunks_ok [OF inv assms(2) sized s1(1), of ?P] s1(2)
  have "mgr_inv (streamer_manager s')" "managers.holds_only ?P (streamer_manager s')" by simp_all
  from managers.get_holds [OF this(1) assms(6,7) this(2) assms(8)] show ?thesis .
qed

text \<open>
  What goes in comes out.  If everything in the cache is filed under its digest, streaming a buffer keeps it so,
  and a chunk that is looked up afterwards has the checksum that was asked for and bytes with that digest.
\<close>

theorem stream_then_get:
  assumes "streamer_ready s" "wf_digest mh" "unat n \<le> length bs"
    and "\<forall>ck d. mgr_map (streamer_manager s) ck = Some d \<longrightarrow> ck = digest mh d"
    and "chunk_streamer_process_buffer mh s (Some bs) n = Some (Inr (ret, s'))"
    and "wf_checksum ck" "wf_chunk ch"
    and "cache_manager_get_chunk (streamer_manager s') ck ch = Inr (True, mgr', ch')"
  shows "ck = digest mh (chunk_data ch') \<and> ch_checksum ch' = ck \<and> mgr' = streamer_manager s'"
  using assms by (rule streamed_found)

theorem stream_then_get_witness:
  "\<exists>s s' mgr' ch'. chunk_streamer_process_buffer sample_digest s (Some zeros) 24576 = Some (Inr (0, s')) \<and>
     cache_manager_get_chunk (streamer_manager s') sample_checksum chunk_init = Inr (True, mgr', ch') \<and>
     sample_checksum = digest sample_digest (chunk_data ch') \<and> ch_checksum ch' = sample_checksum"
proof -
  obtain s where s: "streamer_ready s" "mgr_map (streamer_manager s) sample_checksum \<noteq> None"
    "\<forall>ck d. mgr_map (streamer_manager s) ck = Some d \<longrightarrow> ck = sample_checksum"
    by (rule sample_streamer)
  have inv: "mgr_inv (streamer_manager s)" using s(1) by (simp add: streamer_ready_def)
  have le: "unat (24576 :: u32) \<le> length zeros" using zeros_length(1) by simp
  have "chunk_sized zeros" by (simp add: chunk_sized_def zeros_def CHUNKER_MIN_CHUNK_SIZE_def CHUNKER_MAX_CHUNK_SIZE_def)
  with store_chunks_known [OF inv sample_digest_wf(1), of "[zeros]"] s(2)
  have "store_chunks sample_digest s [zeros] = Inr (s\<lparr>chunk_hit := chunk_hit s + 1\<rparr>)"
    by (simp add: sample_digest_wf)
  with process_streams [OF s(1) le, of sample_digest] obtain c where
    p: "chunk_streamer_process_buffer sample_digest s (Some zeros) 24576 =
      Some (Inr (0, s\<lparr>chunk_hit := chunk_hit s + 1, streamer_chunker := c\<rparr>))"
    unfolding zeros_length(2) zeros_split by (auto simp: streams_to_def)
  obtain d where "mgr_map (streamer_manager s) sample_checksum = Some d" using s(2) by blast
  from managers.store_get_known [OF inv sample_ok(2) wf_chunk_init this] obtain ch' where
    g: "cache_manager_get_chunk (streamer_manager s) sample_checksum chunk_init = Inr (True, streamer_manager s, ch')"
    by blast
  have "\<forall>ck d. mgr_map (streamer_manager s) ck = Some d \<longrightarrow> ck = digest sample_digest d"
    using s(3) by (simp add: sample_digest_wf)
  from stream_then_get [OF s(1) sample_digest_wf(1) le this p sample_ok(2) wf_chunk_init] g
  have "sample_checksum = digest sample_digest (chunk_data ch')" "ch_checksum ch' = sample_checksum" by auto
  with g p show ?thesis
    by (intro exI [of _ s] exI [of _ "s\<lparr>chunk_hit := chunk_hit s + 1, streamer_chunker := c\<rparr>"]
        exI [of _ "streamer_manager s"] exI [of _ ch']) simp
qed

section \<open>With the digest of the library\<close>

lemma multi_hash_wf: "wf_digest multi_hash"
  by (simp add: wf_digest_def CHECKSUM_SIZE_def)

lemma checksum_of_chunk:
  assumes "ck = digest multi_hash (chunk_data ch)" "wf_checksum ck0" "length junk = 8"
  shows "checksum_gen_calls junk stack ck0 (chunk_data ch) (of_nat (length (chunk_data ch))) = Inr ck"
proof -
  have "length (chunk_data ch) \<le> unat (ch_buffer_size ch)" by (simp add: chunk_data_def)
  then have "unat (of_nat (length (chunk_data ch)) :: u32) = length (chunk_data ch)"
    using unat_bound_u16 [of "ch_buffer_size ch"] by (simp add: unat_of_nat)
  then show ?thesis
    using checksum_gen_calls_ref [OF assms(2,3)] assms(1) by (simp add: checksum_gen_def digest_def)
qed

text \<open>
  C1: the whole program.  In every state the program can reach, through any sequence of creating, opening, streaming, flushing, adding,
  reading, closing, crashing and opening again with damage, a chunk that is found has the checksum that was asked for, and that checksum is
  what \<^verbatim>\<open>checksum_gen\<close>, with the multi-hash SHA-256 of the library and whatever is in the memory of that run, computes of its bytes.
\<close>

theorem program_integrity:
  assumes "life os multi_hash (Running s)" "wf_checksum ck" "wf_chunk ch"
    and "cache_manager_get_chunk (streamer_manager s) ck ch = Inr (True, mgr', ch')"
    and "wf_checksum ck0" "length junk = 8"
  shows "checksum_gen_calls junk stack ck0 (chunk_data ch') (of_nat (length (chunk_data ch'))) = Inr ck \<and>
    ch_checksum ch' = ck \<and> mgr' = streamer_manager s"
proof -
  have "mgr_inv (streamer_manager s)" "managers.holds_only (filed multi_hash) (streamer_manager s)"
    using life_phase_inv [OF assms(1) multi_hash_wf] by simp_all
  from managers.get_holds [OF this(1) assms(2,3) this(2) assms(4)]
  have "ck = digest multi_hash (chunk_data ch')" "ch_checksum ch' = ck" "mgr' = streamer_manager s" by (simp_all add: filed_def)
  with checksum_of_chunk [OF this(1) assms(5,6)] show ?thesis by simp
qed

theorem program_integrity_witness:
  "\<exists>s ch' ck. life file_os multi_hash (Running s) \<and>
     cache_manager_get_chunk (streamer_manager s) ck chunk_init = Inr (True, streamer_manager s, ch') \<and>
     checksum_gen_calls (replicate 8 0) zero_ctx checksum_init (chunk_data ch') (of_nat (length (chunk_data ch'))) = Inr ck"
proof -
  let ?ck = "digest multi_hash zeros"
  have "length zeros \<le> STREAM_MAX" using zeros_length(1) by (simp add: STREAM_MAX_def)
  moreover have "inj_on multi_hash (set (fst (split_chunks zeros)))" unfolding zeros_split by simp
  ultimately obtain mgr1 s0 s where
    o: "cache_manager_open_cache file_os cache_manager_init ''cache'' 1048576 blank_file = Some (Inr (0, mgr1, blank_file))"
      "chunk_streamer_init mgr1 = Inr (0, s0)"
      "chunk_streamer_process_buffer multi_hash s0 (Some zeros) (of_nat (length zeros)) = Some (Inr (0, s))"
    and g: "growing_cache (mgr_cache (streamer_manager s))"
    and d: "\<And>d. d \<in> set (fst (split_chunks zeros)) \<Longrightarrow> mgr_map (streamer_manager s) (digest multi_hash d) = Some d"
    using new_file_stream [OF file_os_new multi_hash_wf] by metis
  have "unat (of_nat (length zeros) :: u32) \<le> length zeros" by (simp add: word_nat)
  with life.create [OF life.start file_os_new o(1,2)] have life: "life file_os multi_hash (Running s)"
    using life.stream o(3) by blast
  have inv: "mgr_inv (streamer_manager s)" using g by (simp add: mgr_inv_def growing_cache_def)
  have wf: "wf_checksum ?ck" by (simp add: wf_checksum_def digest_def CHECKSUM_SIZE_def)
  have "mgr_map (streamer_manager s) ?ck = Some zeros" using d [of zeros] by (simp add: zeros_split)
  from managers.store_get_known [OF inv wf wf_chunk_init this] obtain ch' where
    "cache_manager_get_chunk (streamer_manager s) ?ck chunk_init = Inr (True, streamer_manager s, ch')" by blast
  with program_integrity [OF life wf wf_chunk_init this wf_checksum_init, of "replicate 8 0" zero_ctx] life show ?thesis
    by fastforce
qed

text \<open>
  The same with the multi-hash SHA-256 as it is computed by the library: a chunk that is found after streaming
  has, when \<^verbatim>\<open>checksum_gen\<close> is run on its bytes, exactly the checksum that was asked for, whatever is in the memory that run uses.
\<close>

theorem stream_then_get_checked:
  assumes "streamer_ready s" "unat n \<le> length bs"
    and "\<forall>ck d. mgr_map (streamer_manager s) ck = Some d \<longrightarrow> ck = digest multi_hash d"
    and "chunk_streamer_process_buffer multi_hash s (Some bs) n = Some (Inr (ret, s'))"
    and "wf_checksum ck" "wf_chunk ch"
    and "cache_manager_get_chunk (streamer_manager s') ck ch = Inr (True, mgr', ch')"
    and "wf_checksum ck0" "length junk = 8"
  shows "checksum_gen_calls junk stack ck0 (chunk_data ch') (of_nat (length (chunk_data ch'))) = Inr ck"
  by (rule checksum_of_chunk [OF _ assms(8,9)]) (use streamed_found [OF assms(1) multi_hash_wf assms(2-7)] in simp)

text \<open>A streamer whose cache holds one chunk, under its multi-hash.\<close>

lemma hashed_streamer:
  obtains s where "streamer_ready s" "mgr_map (streamer_manager s) (digest multi_hash sample_buffer) = Some sample_buffer"
    "\<forall>ck d. mgr_map (streamer_manager s) ck = Some d \<longrightarrow> ck = digest multi_hash d"
proof -
  let ?P = "\<lambda>ck d. ck = digest multi_hash d" and ?ck = "digest multi_hash sample_buffer"
  have "chunk_ok ?ck sample_buffer 214"
    using sample_ok(1) by (simp add: chunk_ok_def wf_checksum_def digest_def CHECKSUM_SIZE_def)
  then obtain cache where c: "cache_reachable ?P cache" "cache_map cache ?ck = Some sample_buffer"
    using cache_with [of ?ck ?P] by metis
  have i: "cache_inv cache" "caches.holds_only ?P cache" using reachable_cache_holds [OF c(1)] by blast+
  then have "mgr_inv (cache_manager_init\<lparr>mgr_cache := cache\<rparr>)" by (simp add: mgr_inv_def)
  from streamer_init_ready [OF this] obtain s where
    s: "streamer_ready s" "streamer_manager s = cache_manager_init\<lparr>mgr_cache := cache\<rparr>" .
  have m: "mgr_map (streamer_manager s) = cache_map cache" unfolding s(2) mgr_map_def by simp
  show thesis by (rule that [OF s(1), unfolded m, OF c(2) i(2) [unfolded caches.holds_only_def]])
qed

theorem stream_then_get_checked_witness:
  "\<exists>s s' mgr' ch' ck. chunk_streamer_process_buffer multi_hash s (Some []) 0 = Some (Inr (0, s')) \<and>
     cache_manager_get_chunk (streamer_manager s') ck chunk_init = Inr (True, mgr', ch') \<and>
     checksum_gen_calls (replicate 8 0) zero_ctx checksum_init (chunk_data ch') (of_nat (length (chunk_data ch'))) = Inr ck"
proof -
  obtain s where s: "streamer_ready s" "mgr_map (streamer_manager s) (digest multi_hash sample_buffer) = Some sample_buffer"
    "\<forall>ck d. mgr_map (streamer_manager s) ck = Some d \<longrightarrow> ck = digest multi_hash d"
    by (rule hashed_streamer)
  have le: "unat (0 :: u32) \<le> length ([] :: u8 list)" by simp
  have "chunk_cut [] (length ([] :: u8 list)) = None" by (simp add: chunk_cut_def CHUNKER_MIN_CHUNK_SIZE_def)
  then have "split_chunks [] = ([], [])" by (rule split_chunks_None)
  with process_streams [OF s(1) le, of multi_hash] obtain c where
    p: "chunk_streamer_process_buffer multi_hash s (Some []) 0 = Some (Inr (0, s\<lparr>streamer_chunker := c\<rparr>))"
    by (auto simp: streams_to_def)
  have inv: "mgr_inv (streamer_manager s)" using s(1) by (simp add: streamer_ready_def)
  have wf: "wf_checksum (digest multi_hash sample_buffer)" by (simp add: wf_checksum_def digest_def CHECKSUM_SIZE_def)
  from managers.store_get_known [OF inv wf wf_chunk_init s(2)] obtain ch' where
    g: "cache_manager_get_chunk (streamer_manager s) (digest multi_hash sample_buffer) chunk_init = Inr (True, streamer_manager s, ch')"
    by blast
  then have "cache_manager_get_chunk (streamer_manager (s\<lparr>streamer_chunker := c\<rparr>)) (digest multi_hash sample_buffer) chunk_init =
    Inr (True, streamer_manager s, ch')" by simp
  from stream_then_get_checked [OF s(1) le s(3) p wf wf_chunk_init this wf_checksum_init, of "replicate 8 0" zero_ctx] p g
  show ?thesis by fastforce
qed

end
